(* ===== verification/Prelude.thy ===== *)
theory Prelude
  imports Main "HOL-Library.Word"
begin

text \<open>
  The shared vocabulary of the development: the C integer types of the 32-bit xcore
  target, the errors a C function can end in, the sequencing of fallible operations, C
  array access, the C \<open>for\<close> loop, and the arithmetic of ring-buffer indices.
\<close>

section \<open>Types\<close>

text \<open>
  \<open>size_t\<close> and \<open>unsigned\<close> are 32 bits wide on xcore. A pointer is an abstract address, \<open>0\<close>
  being the null pointer; a function pointer is a name the application gives a meaning to.
\<close>

type_synonym size_t = "32 word"
type_synonym ptr = nat
type_synonym fptr = nat
type_synonym chanend = nat

abbreviation (input) NULL :: nat where
  "NULL \<equiv> 0"

section \<open>Fallible operations\<close>

text \<open>
  A C function that traps or steps outside the language is a value, never a silently
  chosen result: a failed \<open>dispatch_assert\<close>, a dereferenced null pointer, a pointer to no
  live object of the right type, an index outside its array, a read of memory nobody wrote, a
  division by zero, a shift by the width of the word or more, an \<open>int\<close> out of its range,
  a C++ exception that nobody catches.
\<close>

datatype error =
    Assertion_Failed
  | Null_Pointer
  | Invalid_Pointer
  | Index_Out_Of_Bounds
  | Uninitialised_Read
  | Division_By_Zero
  | Shift_Out_Of_Range
  | Signed_Overflow
  | Uncaught_Exception

type_synonym 'a result = "error + 'a"

named_theorems result_simps \<open>how fallible operations compose\<close>

definition bindE :: "'e + 'a \<Rightarrow> ('a \<Rightarrow> 'e + 'b) \<Rightarrow> 'e + 'b" where
  "bindE r f = (case r of Inl e \<Rightarrow> Inl e | Inr x \<Rightarrow> f x)"

definition assertE :: "bool \<Rightarrow> unit result" where
  "assertE b = (if b then Inr () else Inl Assertion_Failed)"

lemma bindE_simps [simp]:
  "bindE (Inl e) f = Inl e"
  "bindE (Inr x) f = f x"
  by (simp_all add: bindE_def)

lemma bindE_cong [fundef_cong]:
  "r = r' \<Longrightarrow> (\<And>x. r' = Inr x \<Longrightarrow> f x = f' x) \<Longrightarrow> bindE r f = bindE r' f'"
  by (cases r') (simp_all add: bindE_def)

lemma bindE_eq_Inr_iff [result_simps]:
  "bindE r f = Inr y \<longleftrightarrow> (\<exists>x. r = Inr x \<and> f x = Inr y)"
  by (cases r) auto

lemma bindE_eq_Inl_iff [result_simps]:
  "bindE r f = Inl e \<longleftrightarrow> r = Inl e \<or> (\<exists>x. r = Inr x \<and> f x = Inl e)"
  by (cases r) auto

lemma bindE_assoc: "bindE (bindE r f) g = bindE r (\<lambda>x. bindE (f x) g)"
  by (cases r) auto

lemma assertE_simps [simp]:
  "assertE True = Inr ()"
  "assertE False = Inl Assertion_Failed"
  "assertE b = Inr u \<longleftrightarrow> b"
  "assertE b = Inl e \<longleftrightarrow> \<not> b \<and> e = Assertion_Failed"
  by (auto simp: assertE_def)

section \<open>Arrays\<close>

text \<open>
  An array of \<open>n\<close> elements fresh from \<open>malloc\<close> is a list of \<open>n\<close> slots nobody wrote
  (\<open>None\<close>). Reading and writing check the index, as C does not.
\<close>

definition read_slot :: "'a option list \<Rightarrow> nat \<Rightarrow> 'a result" where
  "read_slot xs i =
     (if i < length xs
      then (case xs ! i of None \<Rightarrow> Inl Uninitialised_Read | Some x \<Rightarrow> Inr x)
      else Inl Index_Out_Of_Bounds)"

definition write_slot :: "'a option list \<Rightarrow> nat \<Rightarrow> 'a \<Rightarrow> 'a option list result" where
  "write_slot xs i x =
     (if i < length xs then Inr (xs[i := Some x]) else Inl Index_Out_Of_Bounds)"

lemma read_slot_eq_Inr_iff [result_simps]:
  "read_slot xs i = Inr x \<longleftrightarrow> i < length xs \<and> xs ! i = Some x"
  by (auto simp: read_slot_def split: option.splits)

lemma write_slot_eq_Inr_iff [result_simps]:
  "write_slot xs i x = Inr ys \<longleftrightarrow> i < length xs \<and> ys = xs[i := Some x]"
  by (auto simp: write_slot_def)

lemma read_slot_write_slot:
  "write_slot xs i x = Inr ys \<Longrightarrow> read_slot ys j = (if j = i then Inr x else read_slot xs j)"
  by (auto simp: write_slot_eq_Inr_iff read_slot_def)

section \<open>The C for loop\<close>

text \<open>\<open>for (i = lo; i < hi; i++) body\<close>, the body changing a state or failing.\<close>

function for_range :: "nat \<Rightarrow> nat \<Rightarrow> (nat \<Rightarrow> 's \<Rightarrow> 's result) \<Rightarrow> 's \<Rightarrow> 's result" where
  "for_range i n body s =
     (if i < n then bindE (body i s) (for_range (Suc i) n body) else Inr s)"
  by pat_completeness auto
termination
  by (relation "measure (\<lambda>(i, n, body, s). n - i)") auto

declare for_range.simps [simp del]

lemma for_range_done [simp]: "\<not> i < n \<Longrightarrow> for_range i n body s = Inr s"
  by (simp add: for_range.simps)

lemma for_range_step: "i < n \<Longrightarrow> for_range i n body s = bindE (body i s) (for_range (Suc i) n body)"
  by (simp add: for_range.simps)

text \<open>
  The loop rule: an invariant of the index and the state that the body keeps, and keeps
  without failing, holds when the loop ends; and the loop ends without failing.
\<close>

lemma for_range_rule:
  assumes "i \<le> n" and "P i s"
    and "\<And>j t. i \<le> j \<Longrightarrow> j < n \<Longrightarrow> P j t \<Longrightarrow> \<exists>t'. body j t = Inr t' \<and> P (Suc j) t'"
  shows "\<exists>t. for_range i n body s = Inr t \<and> P n t"
  using assms
proof (induction "n - i" arbitrary: i s)
  case 0
  then show ?case by auto
next
  case (Suc k)
  then have "i < n" by simp
  with Suc.prems obtain s' where s': "body i s = Inr s'" "P (Suc i) s'" by blast
  have "\<exists>t. for_range (Suc i) n body s' = Inr t \<and> P n t"
    using Suc.hyps(1)[of "Suc i" s'] Suc.hyps(2) Suc.prems(3) s' \<open>i < n\<close> by simp
  with s' \<open>i < n\<close> show ?case by (simp add: for_range_step)
qed

lemma for_range_split:
  assumes "i \<le> j" "j \<le> n"
  shows "for_range i n body s = bindE (for_range i j body s) (for_range j n body)"
  using assms
proof (induction "j - i" arbitrary: i s)
  case (Suc k)
  then have "i < j" "i < n" by simp_all
  moreover from Suc have "for_range (Suc i) n body t = bindE (for_range (Suc i) j body t) (for_range j n body)" for t
    by simp
  ultimately show ?case by (cases "body i s") (simp_all add: for_range_step)
qed simp

lemma for_range_snoc: "i \<le> n \<Longrightarrow> for_range i (Suc n) body s = bindE (for_range i n body s) (body n)"
  using for_range_split[of i n "Suc n" body s] for_range_step[of n "Suc n" body]
  by (cases "for_range i n body s") (auto simp: bindE_def split: sum.splits)

text \<open>A loop whose bodies all succeed is a fold over the indices.\<close>

lemma for_range_fold:
  assumes "\<And>j t. i \<le> j \<Longrightarrow> j < n \<Longrightarrow> body j t = Inr (g j t)"
  shows "for_range i n body s = Inr (fold g [i..<n] s)"
  using assms
proof (induction "n - i" arbitrary: i s)
  case 0
  then show ?case by simp
next
  case (Suc k)
  then have "i < n" by simp
  with Suc show ?case by (simp add: for_range_step upt_conv_Cons)
qed

section \<open>Repeating a fallible operation\<close>

fun foldE :: "('a \<Rightarrow> 's \<Rightarrow> 's result) \<Rightarrow> 'a list \<Rightarrow> 's \<Rightarrow> 's result" where
  "foldE f [] s = Inr s"
| "foldE f (x # xs) s = bindE (f x s) (foldE f xs)"

lemma foldE_append [simp]: "foldE f (xs @ ys) s = bindE (foldE f xs s) (foldE f ys)"
  by (induction xs arbitrary: s) (auto simp: bindE_def split: sum.split)

text \<open>
  The contract of a container of bounded capacity that keeps the order of arrival: \<open>rep s n
  xs\<close> says that the state \<open>s\<close> holds a container of capacity \<open>n\<close> with the elements \<open>xs\<close>,
  \<open>elem s x\<close> that \<open>x\<close> may be added, \<open>add\<close> appends an element where there is room.
\<close>

locale bounded_store =
  fixes rep :: "'s \<Rightarrow> nat \<Rightarrow> 'a list \<Rightarrow> bool"
    and elem :: "'s \<Rightarrow> 'a \<Rightarrow> bool"
    and add :: "'a \<Rightarrow> 's \<Rightarrow> 's result"
  assumes rep_bound: "rep s n xs \<Longrightarrow> length xs \<le> n"
    and add_rep: "rep s n xs \<Longrightarrow> length xs < n \<Longrightarrow> elem s x \<Longrightarrow>
      \<exists>s'. add x s = Inr s' \<and> rep s' n (xs @ [x]) \<and> (\<forall>y. elem s y \<longrightarrow> elem s' y)"
begin

lemma add_all_rep:
  assumes "rep s n xs" and "length xs + length ys \<le> n" and "\<And>y. y \<in> set ys \<Longrightarrow> elem s y"
  shows "\<exists>s'. foldE add ys s = Inr s' \<and> rep s' n (xs @ ys) \<and> (\<forall>y. elem s y \<longrightarrow> elem s' y)"
  using assms
proof (induction ys arbitrary: s xs)
  case Nil
  then show ?case by auto
next
  case (Cons y ys)
  then obtain s1 where s1: "add y s = Inr s1" "rep s1 n (xs @ [y])" "\<forall>z. elem s z \<longrightarrow> elem s1 z"
    using add_rep[of s n xs y] by auto
  then show ?case using Cons.IH[of s1 "xs @ [y]"] Cons.prems by auto
qed

end

text \<open>
  The contract of a bounded first-in first-out queue: a bounded store from which the oldest
  element is taken, with the observers a client decides by. \<open>fifo_step\<close> is the specification:
  an operation that cannot proceed (an insertion into a full queue, a removal from an empty
  one) is \<open>None\<close>. \<open>try_op\<close> is what an implementation makes of one operation.
\<close>

datatype 'a fifo_op = Put 'a | Get

fun fifo_step :: "nat \<Rightarrow> 'a fifo_op \<Rightarrow> 'a list \<Rightarrow> ('a option \<times> 'a list) option" where
  "fifo_step n (Put x) xs = (if length xs < n then Some (None, xs @ [x]) else None)"
| "fifo_step n Get xs = (case xs of [] \<Rightarrow> None | y # ys \<Rightarrow> Some (Some y, ys))"

fun fifo_run :: "nat \<Rightarrow> 'a fifo_op list \<Rightarrow> 'a list \<Rightarrow> ('a option list \<times> 'a list) option" where
  "fifo_run n [] xs = Some ([], xs)"
| "fifo_run n (p # ps) xs =
     (case fifo_step n p xs of
        None \<Rightarrow> None
      | Some (r, ys) \<Rightarrow> map_option (\<lambda>(rs, zs). (r # rs, zs)) (fifo_run n ps ys))"

fun try_op :: "('s \<Rightarrow> bool result) \<Rightarrow> ('s \<Rightarrow> bool result) \<Rightarrow> ('a \<Rightarrow> 's \<Rightarrow> 's result) \<Rightarrow>
    ('s \<Rightarrow> ('a \<times> 's) result) \<Rightarrow> 'a fifo_op \<Rightarrow> 's \<Rightarrow> ('a option \<times> 's) option result" where
  "try_op is_full is_empty put get (Put x) s =
     bindE (is_full s) (\<lambda>b. if b then Inr None else bindE (put x s) (\<lambda>s. Inr (Some (None, s))))"
| "try_op is_full is_empty put get Get s =
     bindE (is_empty s) (\<lambda>b. if b then Inr None
       else bindE (get s) (\<lambda>(y, s). Inr (Some (Some y, s))))"

fun try_run :: "('a fifo_op \<Rightarrow> 's \<Rightarrow> ('a option \<times> 's) option result) \<Rightarrow> 'a fifo_op list \<Rightarrow> 's \<Rightarrow>
    ('a option list \<times> 's) option result" where
  "try_run f [] s = Inr (Some ([], s))"
| "try_run f (p # ps) s =
     bindE (f p s) (\<lambda>r. case r of
        None \<Rightarrow> Inr None
      | Some (x, s) \<Rightarrow>
          bindE (try_run f ps s) (\<lambda>q. Inr (map_option (\<lambda>(xs, s). (x # xs, s)) q)))"

locale bounded_fifo = bounded_store rep elem put
  for rep :: "'s \<Rightarrow> nat \<Rightarrow> 'a list \<Rightarrow> bool" and elem :: "'s \<Rightarrow> 'a \<Rightarrow> bool"
    and put :: "'a \<Rightarrow> 's \<Rightarrow> 's result" +
  fixes get :: "'s \<Rightarrow> ('a \<times> 's) result" and is_full :: "'s \<Rightarrow> bool result"
    and is_empty :: "'s \<Rightarrow> bool result"
  assumes get_rep: "rep s n (x # xs) \<Longrightarrow>
      \<exists>s'. get s = Inr (x, s') \<and> rep s' n xs \<and> (\<forall>y. elem s y \<longrightarrow> elem s' y)"
    and full_rep: "rep s n xs \<Longrightarrow> is_full s = Inr (length xs = n)"
    and empty_rep: "rep s n xs \<Longrightarrow> is_empty s = Inr (xs = [])"
begin

lemma try_op_refines:
  assumes "rep s n xs" and "\<And>x. p = Put x \<Longrightarrow> elem s x"
  shows "case fifo_step n p xs of
      None \<Rightarrow> try_op is_full is_empty put get p s = Inr None
    | Some (r, ys) \<Rightarrow> \<exists>s'. try_op is_full is_empty put get p s = Inr (Some (r, s')) \<and> rep s' n ys \<and>
        (\<forall>y. elem s y \<longrightarrow> elem s' y)"
proof (cases p)
  case (Put x)
  then show ?thesis
    using full_rep[OF assms(1)] rep_bound[OF assms(1)] add_rep[OF assms(1), of x] assms(2)
    by (auto simp: not_less)
next
  case Get
  then show ?thesis
    using empty_rep[OF assms(1)] get_rep[of s n] assms(1) by (cases xs) fastforce+
qed

lemma try_run_refines:
  assumes "rep s n xs" and "\<And>x. Put x \<in> set ps \<Longrightarrow> elem s x"
  shows "case fifo_run n ps xs of
      None \<Rightarrow> try_run (try_op is_full is_empty put get) ps s = Inr None
    | Some (rs, ys) \<Rightarrow> \<exists>s'. try_run (try_op is_full is_empty put get) ps s = Inr (Some (rs, s')) \<and>
        rep s' n ys"
  using assms
proof (induction ps arbitrary: s xs)
  case (Cons p ps)
  note step = try_op_refines[OF Cons.prems(1), of p]
  show ?case
  proof (cases "fifo_step n p xs")
    case None
    with step Cons.prems(2) show ?thesis by simp
  next
    case (Some ry)
    then obtain r ys where ry: "fifo_step n p xs = Some (r, ys)" by (cases ry) auto
    with step Cons.prems(2) obtain s' where s': "try_op is_full is_empty put get p s = Inr (Some (r, s'))"
      "rep s' n ys" "\<forall>y. elem s y \<longrightarrow> elem s' y" by auto
    with Cons.IH[OF s'(2)] Cons.prems(2) ry show ?thesis
      by (cases "fifo_run n ps ys") auto
  qed
qed simp

end

section \<open>Transition systems\<close>

text \<open>
  The concurrent parts of the library are step relations. \<open>reach init step\<close> are the states a
  run can get to; an invariant holds at the start and is kept by every step.
\<close>

inductive reach :: "('s \<Rightarrow> bool) \<Rightarrow> ('s \<Rightarrow> 's \<Rightarrow> bool) \<Rightarrow> 's \<Rightarrow> bool"
  for init :: "'s \<Rightarrow> bool" and step :: "'s \<Rightarrow> 's \<Rightarrow> bool" where
  reach_init: "init s \<Longrightarrow> reach init step s"
| reach_step: "reach init step s \<Longrightarrow> step s t \<Longrightarrow> reach init step t"

lemma reach_rtranclp: "reach init step s \<Longrightarrow> step\<^sup>*\<^sup>* s t \<Longrightarrow> reach init step t"
  by (rotate_tac, induction rule: rtranclp_induct) (auto intro: reach_step)

locale invariant_system =
  fixes init :: "'s \<Rightarrow> bool" and step :: "'s \<Rightarrow> 's \<Rightarrow> bool" and inv :: "'s \<Rightarrow> bool"
  assumes init_inv: "init s \<Longrightarrow> inv s"
    and step_inv: "inv s \<Longrightarrow> step s t \<Longrightarrow> inv t"
begin

lemma reach_inv: "reach init step s \<Longrightarrow> inv s"
  by (induction rule: reach.induct) (auto intro: init_inv step_inv)

end

section \<open>Arrays filled from the left\<close>

lemma fill_slots:
  assumes "i < length xs"
  shows "(map f [0..<i] @ drop i xs)[i := f i] = map f [0..<Suc i] @ drop (Suc i) xs"
  using assms by (simp add: list_update_append Cons_nth_drop_Suc[symmetric])

section \<open>Words\<close>

text \<open>
  \<open>x << i\<close> on an \<open>int\<close>, converted to an unsigned word, and \<open>x >> i\<close> on an unsigned word. Both are
  undefined unless the amount is less than 32; the first also if the result is not an \<open>int\<close>.
\<close>

definition shift_left :: "int \<Rightarrow> size_t \<Rightarrow> 32 word result" where
  "shift_left x i =
     (if i < 32 \<and> 0 \<le> x \<and> x * 2 ^ unat i < 2 ^ 31 then Inr (word_of_int (x * 2 ^ unat i))
      else Inl Shift_Out_Of_Range)"

definition shift_right :: "32 word \<Rightarrow> size_t \<Rightarrow> 32 word result" where
  "shift_right x i = (if i < 32 then Inr (drop_bit (unat i) x) else Inl Shift_Out_Of_Range)"

lemma unat_inc_mod:
  fixes i n :: size_t
  assumes "i < n"
  shows "unat ((i + 1) mod n) = (unat i + 1) mod unat n"
proof -
  have "unat i + 1 < 2 ^ 32"
    using assms unsigned_less[of n, where 'a = nat] by (simp add: word_less_nat_alt)
  then have "unat (i + 1) = unat i + 1"
    by (simp add: unat_word_ariths)
  then show ?thesis by (simp add: unat_mod)
qed

lemma inc_mod_less:
  fixes i n :: size_t
  assumes "i < n"
  shows "(i + 1) mod n < n"
  using assms unat_inc_mod[OF assms] by (simp add: word_less_nat_alt)

end
