(* ===== verification/Memory.thy ===== *)
theory Memory
  imports Prelude
begin

text \<open>
  The structs of the library as records, the objects a C pointer can refer to, and the
  store they live in. \<open>malloc\<close> hands out addresses that are never used again, so a
  dereference of freed memory and a double free are visible as \<open>Invalid_Pointer\<close>; it may
  return the null pointer at any call (\<open>oom\<close> says at which), since nothing in the program
  promises that memory suffices. A block is \<open>Raw\<close> until it is first written.
\<close>

section \<open>The structs\<close>

text \<open>\<open>dispatch_types.h\<close>\<close>

record dispatch_task =
  task_function :: fptr
  task_argument :: ptr
  task_waitable :: bool
  task_private_data :: ptr

record dispatch_group =
  group_length :: size_t
  group_count :: size_t
  group_waitable :: bool
  group_tasks :: ptr

text \<open>\<open>condition_variable_metal.h\<close>\<close>

record condition_node =
  node_cend :: chanend
  node_next :: ptr

record condition_variable =
  cv_lock :: ptr
  cv_waiters :: ptr

text \<open>\<open>queue_metal.h\<close>; the mutex is the handle of a hardware lock.\<close>

record queue_struct =
  q_ring_buffer :: ptr
  q_cv :: ptr
  q_head :: size_t
  q_tail :: size_t
  q_length :: size_t
  q_mutex :: nat
  q_full :: bool

text \<open>
  \<open>struct event_counter_struct\<close> of \<open>event_counter_metal.c\<close> and of \<open>event_counter_rtos.c\<close>; the
  streaming channel and the semaphore are handles.
\<close>

record event_counter_metal =
  ec_lock :: ptr
  ec_cend :: nat
  ec_count :: size_t

record event_counter_rtos =
  es_semaphore :: nat
  es_count :: size_t

text \<open>
  The class \<open>EventCounter\<close> of \<open>dispatch_queue_host.cc\<close>. Its mutex is held only inside an operation, and
  who waits in its condition variable shows in the program counters of the threads.
\<close>

record event_counter_host =
  eh_count :: size_t

text \<open>
  \<open>dispatch_queue_metal.c\<close>: a worker's data, whose \<open>status\<close> points into the array of status
  flags (the array and the index), and the dispatch queue.
\<close>

record worker_data_metal =
  wm_status :: "ptr \<times> nat"
  wm_parent :: ptr
  wm_queue :: ptr

record dispatch_xcore =
  dx_length :: size_t
  dx_thread_count :: size_t
  dx_thread_stack_size :: size_t
  dx_queue :: ptr
  dx_cend :: chanend
  dx_thread_stack :: ptr
  dx_thread_status :: ptr
  dx_worker_data :: ptr

text \<open>\<open>dispatch_queue_rtos.c\<close>; queues, event groups and tasks of the kernel are handles.\<close>

record worker_data_rtos =
  wr_parent :: ptr
  wr_xQueue :: nat
  wr_xEventGroup :: nat
  wr_xReadyBit :: "32 word"

record dispatch_freertos =
  df_thread_count :: size_t
  df_thread_stack_size :: size_t
  df_xQueue :: nat
  df_xEventGroup :: nat
  df_xReadyBits :: "32 word"
  df_worker_data :: ptr
  df_threads :: ptr

section \<open>Objects and the store\<close>

datatype obj =
    Raw size_t
  | Task dispatch_task
  | Group dispatch_group
  | Ptr_Array "ptr option list"
  | Spinlock "32 word"
  | Cond_Node condition_node
  | Cond_Var condition_variable
  | Queue queue_struct
  | Counter_Metal event_counter_metal
  | Counter_Rtos event_counter_rtos
  | Counter_Host event_counter_host
  | Word_Array "size_t option list"
  | Workers_Metal "worker_data_metal option list"
  | Workers_Rtos "worker_data_rtos option list"
  | Dispatch_Metal dispatch_xcore
  | Dispatch_Rtos dispatch_freertos

record mem =
  brk :: nat
  oom :: "nat \<Rightarrow> bool"
  heap :: "ptr \<rightharpoonup> obj"

definition empty_mem :: mem where
  "empty_mem = \<lparr>brk = 0, oom = (\<lambda>_. False), heap = Map.empty\<rparr>"

text \<open>The store is well formed when nothing lives at the null pointer or beyond the break.\<close>

definition mem_ok :: "mem \<Rightarrow> bool" where
  "mem_ok m \<longleftrightarrow> heap m NULL = None \<and> (\<forall>p > brk m. heap m p = None)"

definition malloc :: "size_t \<Rightarrow> mem \<Rightarrow> ptr \<times> mem" where
  "malloc sz m =
     (if oom m (brk m) then (NULL, m\<lparr>brk := Suc (brk m)\<rparr>)
      else (Suc (brk m),
            m\<lparr>brk := Suc (brk m), heap := (heap m)(Suc (brk m) \<mapsto> Raw sz)\<rparr>))"

text \<open>A local variable of a function whose address is taken: it cannot fail to be allocated.\<close>

definition alloca :: "obj \<Rightarrow> mem \<Rightarrow> ptr \<times> mem" where
  "alloca ob m =
     (Suc (brk m), m\<lparr>brk := Suc (brk m), heap := (heap m)(Suc (brk m) \<mapsto> ob)\<rparr>)"

text \<open>\<open>free(NULL)\<close> does nothing; freeing what is not a live block is an error.\<close>

definition free :: "ptr \<Rightarrow> mem \<Rightarrow> mem result" where
  "free p m =
     (if p = NULL then Inr m
      else if heap m p = None then Inl Invalid_Pointer
      else Inr (m\<lparr>heap := (heap m)(p := None)\<rparr>))"

definition load :: "ptr \<Rightarrow> mem \<Rightarrow> obj result" where
  "load p m =
     (if p = NULL then Inl Null_Pointer
      else (case heap m p of None \<Rightarrow> Inl Invalid_Pointer | Some ob \<Rightarrow> Inr ob))"

definition store :: "ptr \<Rightarrow> obj \<Rightarrow> mem \<Rightarrow> mem result" where
  "store p ob m =
     (if p = NULL then Inl Null_Pointer
      else if heap m p = None then Inl Invalid_Pointer
      else Inr (m\<lparr>heap := (heap m)(p \<mapsto> ob)\<rparr>))"

text \<open>Reading an object at the type the program expects there.\<close>

fun as_task :: "obj \<Rightarrow> dispatch_task result" where
  "as_task (Task t) = Inr t"
| "as_task (Raw n) = Inl Uninitialised_Read"
| "as_task ob = Inl Invalid_Pointer"

fun as_group :: "obj \<Rightarrow> dispatch_group result" where
  "as_group (Group g) = Inr g"
| "as_group (Raw n) = Inl Uninitialised_Read"
| "as_group ob = Inl Invalid_Pointer"

fun as_ptr_array :: "obj \<Rightarrow> ptr option list result" where
  "as_ptr_array (Ptr_Array xs) = Inr xs"
| "as_ptr_array ob = Inl Invalid_Pointer"

fun as_spinlock :: "obj \<Rightarrow> 32 word result" where
  "as_spinlock (Spinlock v) = Inr v"
| "as_spinlock (Raw n) = Inl Uninitialised_Read"
| "as_spinlock ob = Inl Invalid_Pointer"

fun as_cond_node :: "obj \<Rightarrow> condition_node result" where
  "as_cond_node (Cond_Node n) = Inr n"
| "as_cond_node (Raw n) = Inl Uninitialised_Read"
| "as_cond_node ob = Inl Invalid_Pointer"

fun as_cond_var :: "obj \<Rightarrow> condition_variable result" where
  "as_cond_var (Cond_Var v) = Inr v"
| "as_cond_var (Raw n) = Inl Uninitialised_Read"
| "as_cond_var ob = Inl Invalid_Pointer"

fun as_queue :: "obj \<Rightarrow> queue_struct result" where
  "as_queue (Queue q) = Inr q"
| "as_queue (Raw n) = Inl Uninitialised_Read"
| "as_queue ob = Inl Invalid_Pointer"

fun as_counter_metal :: "obj \<Rightarrow> event_counter_metal result" where
  "as_counter_metal (Counter_Metal c) = Inr c"
| "as_counter_metal (Raw n) = Inl Uninitialised_Read"
| "as_counter_metal ob = Inl Invalid_Pointer"

fun as_counter_rtos :: "obj \<Rightarrow> event_counter_rtos result" where
  "as_counter_rtos (Counter_Rtos c) = Inr c"
| "as_counter_rtos (Raw n) = Inl Uninitialised_Read"
| "as_counter_rtos ob = Inl Invalid_Pointer"

fun as_counter_host :: "obj \<Rightarrow> event_counter_host result" where
  "as_counter_host (Counter_Host c) = Inr c"
| "as_counter_host (Raw n) = Inl Uninitialised_Read"
| "as_counter_host ob = Inl Invalid_Pointer"

fun as_word_array :: "obj \<Rightarrow> size_t option list result" where
  "as_word_array (Word_Array xs) = Inr xs"
| "as_word_array ob = Inl Invalid_Pointer"

fun as_workers_metal :: "obj \<Rightarrow> worker_data_metal option list result" where
  "as_workers_metal (Workers_Metal xs) = Inr xs"
| "as_workers_metal ob = Inl Invalid_Pointer"

fun as_workers_rtos :: "obj \<Rightarrow> worker_data_rtos option list result" where
  "as_workers_rtos (Workers_Rtos xs) = Inr xs"
| "as_workers_rtos ob = Inl Invalid_Pointer"

fun as_dispatch_metal :: "obj \<Rightarrow> dispatch_xcore result" where
  "as_dispatch_metal (Dispatch_Metal d) = Inr d"
| "as_dispatch_metal (Raw n) = Inl Uninitialised_Read"
| "as_dispatch_metal ob = Inl Invalid_Pointer"

fun as_dispatch_rtos :: "obj \<Rightarrow> dispatch_freertos result" where
  "as_dispatch_rtos (Dispatch_Rtos d) = Inr d"
| "as_dispatch_rtos (Raw n) = Inl Uninitialised_Read"
| "as_dispatch_rtos ob = Inl Invalid_Pointer"

definition load_task :: "ptr \<Rightarrow> mem \<Rightarrow> dispatch_task result" where
  "load_task p m = bindE (load p m) as_task"

definition load_group :: "ptr \<Rightarrow> mem \<Rightarrow> dispatch_group result" where
  "load_group p m = bindE (load p m) as_group"

definition load_ptr_array :: "ptr \<Rightarrow> mem \<Rightarrow> ptr option list result" where
  "load_ptr_array p m = bindE (load p m) as_ptr_array"

definition load_spinlock :: "ptr \<Rightarrow> mem \<Rightarrow> 32 word result" where
  "load_spinlock p m = bindE (load p m) as_spinlock"

definition load_cond_node :: "ptr \<Rightarrow> mem \<Rightarrow> condition_node result" where
  "load_cond_node p m = bindE (load p m) as_cond_node"

definition load_cond_var :: "ptr \<Rightarrow> mem \<Rightarrow> condition_variable result" where
  "load_cond_var p m = bindE (load p m) as_cond_var"

definition load_queue :: "ptr \<Rightarrow> mem \<Rightarrow> queue_struct result" where
  "load_queue p m = bindE (load p m) as_queue"

definition load_counter_metal :: "ptr \<Rightarrow> mem \<Rightarrow> event_counter_metal result" where
  "load_counter_metal p m = bindE (load p m) as_counter_metal"

definition load_counter_rtos :: "ptr \<Rightarrow> mem \<Rightarrow> event_counter_rtos result" where
  "load_counter_rtos p m = bindE (load p m) as_counter_rtos"

definition load_counter_host :: "ptr \<Rightarrow> mem \<Rightarrow> event_counter_host result" where
  "load_counter_host p m = bindE (load p m) as_counter_host"

definition load_word_array :: "ptr \<Rightarrow> mem \<Rightarrow> size_t option list result" where
  "load_word_array p m = bindE (load p m) as_word_array"

definition load_workers_metal :: "ptr \<Rightarrow> mem \<Rightarrow> worker_data_metal option list result" where
  "load_workers_metal p m = bindE (load p m) as_workers_metal"

definition load_workers_rtos :: "ptr \<Rightarrow> mem \<Rightarrow> worker_data_rtos option list result" where
  "load_workers_rtos p m = bindE (load p m) as_workers_rtos"

definition load_dispatch_metal :: "ptr \<Rightarrow> mem \<Rightarrow> dispatch_xcore result" where
  "load_dispatch_metal p m = bindE (load p m) as_dispatch_metal"

definition load_dispatch_rtos :: "ptr \<Rightarrow> mem \<Rightarrow> dispatch_freertos result" where
  "load_dispatch_rtos p m = bindE (load p m) as_dispatch_rtos"

text \<open>
  \<open>a[i]\<close> and \<open>a[i] = x\<close> for an array of pointers. The size passed to \<open>malloc\<close> for one is the
  32-bit product \<open>sizeof(void *) * n\<close>, and the block has as many slots as really fit.
\<close>

definition sizeof_ptr :: size_t where
  "sizeof_ptr = 4"

definition malloc_ptrs :: "size_t \<Rightarrow> mem \<Rightarrow> ptr \<times> mem" where
  "malloc_ptrs n m =
     (let (p, m) = malloc (sizeof_ptr * n) m
      in if p = NULL then (p, m)
         else (p, m\<lparr>heap := (heap m)(p \<mapsto>
                 Ptr_Array (replicate (unat (sizeof_ptr * n) div unat sizeof_ptr) None))\<rparr>))"

definition read_ptr :: "ptr \<Rightarrow> nat \<Rightarrow> mem \<Rightarrow> ptr result" where
  "read_ptr a i m = bindE (load_ptr_array a m) (\<lambda>xs. read_slot xs i)"

definition write_ptr :: "ptr \<Rightarrow> nat \<Rightarrow> ptr \<Rightarrow> mem \<Rightarrow> mem result" where
  "write_ptr a i x m =
     bindE (load_ptr_array a m) (\<lambda>xs.
     bindE (write_slot xs i x) (\<lambda>ys. store a (Ptr_Array ys) m))"

text \<open>
  Other arrays: \<open>malloc(size * n)\<close>, again a 32-bit product, and writes to an element.
\<close>

definition malloc_array :: "size_t \<Rightarrow> (nat \<Rightarrow> obj) \<Rightarrow> size_t \<Rightarrow> mem \<Rightarrow> ptr \<times> mem" where
  "malloc_array sz mk n m =
     (let (p, m) = malloc (sz * n) m
      in if p = NULL then (p, m)
         else (p, m\<lparr>heap := (heap m)(p \<mapsto> mk (unat (sz * n) div unat sz))\<rparr>))"

definition read_word :: "ptr \<Rightarrow> nat \<Rightarrow> mem \<Rightarrow> size_t result" where
  "read_word a i m = bindE (load_word_array a m) (\<lambda>xs. read_slot xs i)"

definition write_word :: "ptr \<Rightarrow> nat \<Rightarrow> size_t \<Rightarrow> mem \<Rightarrow> mem result" where
  "write_word a i x m =
     bindE (load_word_array a m) (\<lambda>xs.
     bindE (write_slot xs i x) (\<lambda>ys. store a (Word_Array ys) m))"

definition write_worker_metal :: "ptr \<Rightarrow> nat \<Rightarrow> worker_data_metal \<Rightarrow> mem \<Rightarrow> mem result" where
  "write_worker_metal a i x m =
     bindE (load_workers_metal a m) (\<lambda>xs.
     bindE (write_slot xs i x) (\<lambda>ys. store a (Workers_Metal ys) m))"

definition write_worker_rtos :: "ptr \<Rightarrow> nat \<Rightarrow> worker_data_rtos \<Rightarrow> mem \<Rightarrow> mem result" where
  "write_worker_rtos a i x m =
     bindE (load_workers_rtos a m) (\<lambda>xs.
     bindE (write_slot xs i x) (\<lambda>ys. store a (Workers_Rtos ys) m))"

section \<open>Laws of the store\<close>

named_theorems mem_simps \<open>when a memory access succeeds, and what it gives\<close>

lemma load_iff [mem_simps]: "load p m = Inr ob \<longleftrightarrow> p \<noteq> NULL \<and> heap m p = Some ob"
  by (auto simp: load_def split: option.splits)

lemma store_iff [mem_simps]:
  "store p ob m = Inr m' \<longleftrightarrow>
     p \<noteq> NULL \<and> heap m p \<noteq> None \<and> m' = m\<lparr>heap := (heap m)(p \<mapsto> ob)\<rparr>"
  by (auto simp: store_def)

lemma free_iff [mem_simps]:
  "free p m = Inr m' \<longleftrightarrow>
     (if p = NULL then m' = m
      else heap m p \<noteq> None \<and> m' = m\<lparr>heap := (heap m)(p := None)\<rparr>)"
  by (auto simp: free_def)

lemma as_iffs [mem_simps]:
  "as_task ob = Inr t \<longleftrightarrow> ob = Task t"
  "as_group ob = Inr g \<longleftrightarrow> ob = Group g"
  "as_ptr_array ob = Inr xs \<longleftrightarrow> ob = Ptr_Array xs"
  "as_spinlock ob = Inr v \<longleftrightarrow> ob = Spinlock v"
  "as_cond_node ob = Inr n \<longleftrightarrow> ob = Cond_Node n"
  "as_cond_var ob = Inr c \<longleftrightarrow> ob = Cond_Var c"
  "as_queue ob = Inr q \<longleftrightarrow> ob = Queue q"
  "as_counter_metal ob = Inr cm \<longleftrightarrow> ob = Counter_Metal cm"
  "as_counter_rtos ob = Inr cr \<longleftrightarrow> ob = Counter_Rtos cr"
  "as_counter_host ob = Inr ch \<longleftrightarrow> ob = Counter_Host ch"
  "as_word_array ob = Inr ws \<longleftrightarrow> ob = Word_Array ws"
  "as_workers_metal ob = Inr wms \<longleftrightarrow> ob = Workers_Metal wms"
  "as_workers_rtos ob = Inr wrs \<longleftrightarrow> ob = Workers_Rtos wrs"
  "as_dispatch_metal ob = Inr dm \<longleftrightarrow> ob = Dispatch_Metal dm"
  "as_dispatch_rtos ob = Inr dr \<longleftrightarrow> ob = Dispatch_Rtos dr"
  by (cases ob; simp)+

lemma load_iffs [mem_simps]:
  "load_task p m = Inr t \<longleftrightarrow> p \<noteq> NULL \<and> heap m p = Some (Task t)"
  "load_group p m = Inr g \<longleftrightarrow> p \<noteq> NULL \<and> heap m p = Some (Group g)"
  "load_ptr_array p m = Inr xs \<longleftrightarrow> p \<noteq> NULL \<and> heap m p = Some (Ptr_Array xs)"
  "load_spinlock p m = Inr v \<longleftrightarrow> p \<noteq> NULL \<and> heap m p = Some (Spinlock v)"
  "load_cond_node p m = Inr n \<longleftrightarrow> p \<noteq> NULL \<and> heap m p = Some (Cond_Node n)"
  "load_cond_var p m = Inr c \<longleftrightarrow> p \<noteq> NULL \<and> heap m p = Some (Cond_Var c)"
  "load_queue p m = Inr q \<longleftrightarrow> p \<noteq> NULL \<and> heap m p = Some (Queue q)"
  "load_counter_metal p m = Inr cm \<longleftrightarrow> p \<noteq> NULL \<and> heap m p = Some (Counter_Metal cm)"
  "load_counter_rtos p m = Inr cr \<longleftrightarrow> p \<noteq> NULL \<and> heap m p = Some (Counter_Rtos cr)"
  "load_counter_host p m = Inr ch \<longleftrightarrow> p \<noteq> NULL \<and> heap m p = Some (Counter_Host ch)"
  "load_word_array p m = Inr ws \<longleftrightarrow> p \<noteq> NULL \<and> heap m p = Some (Word_Array ws)"
  "load_workers_metal p m = Inr wms \<longleftrightarrow> p \<noteq> NULL \<and> heap m p = Some (Workers_Metal wms)"
  "load_workers_rtos p m = Inr wrs \<longleftrightarrow> p \<noteq> NULL \<and> heap m p = Some (Workers_Rtos wrs)"
  "load_dispatch_metal p m = Inr dm \<longleftrightarrow> p \<noteq> NULL \<and> heap m p = Some (Dispatch_Metal dm)"
  "load_dispatch_rtos p m = Inr dr \<longleftrightarrow> p \<noteq> NULL \<and> heap m p = Some (Dispatch_Rtos dr)"
  by (auto simp: load_task_def load_group_def load_ptr_array_def load_spinlock_def
      load_cond_node_def load_cond_var_def load_queue_def load_counter_metal_def
      load_counter_rtos_def load_counter_host_def load_word_array_def load_workers_metal_def load_workers_rtos_def
      load_dispatch_metal_def load_dispatch_rtos_def result_simps mem_simps)

lemma malloc_array_ok: "\<not> oom m (brk m) \<Longrightarrow>
    malloc_array sz mk n m = (Suc (brk m),
      m\<lparr>brk := Suc (brk m), heap := (heap m)(Suc (brk m) \<mapsto>
         mk (unat (sz * n) div unat sz))\<rparr>)"
  by (simp add: malloc_array_def malloc_def)

text \<open>Where the byte count does not wrap, there are as many slots as asked for.\<close>

lemma array_slots:
  assumes "unat sz * unat n < 2 ^ 32" and "0 < unat sz"
  shows "unat (sz * n) div unat (sz :: size_t) = unat n"
  using assms by (simp add: unat_word_ariths)

lemma read_ptr_iff [mem_simps]:
  "read_ptr a i m = Inr x \<longleftrightarrow>
     (\<exists>xs. a \<noteq> NULL \<and> heap m a = Some (Ptr_Array xs) \<and> i < length xs \<and> xs ! i = Some x)"
  by (auto simp: read_ptr_def result_simps mem_simps)

lemma write_ptr_iff [mem_simps]:
  "write_ptr a i x m = Inr m' \<longleftrightarrow>
     (\<exists>xs. a \<noteq> NULL \<and> heap m a = Some (Ptr_Array xs) \<and> i < length xs \<and>
        m' = m\<lparr>heap := (heap m)(a \<mapsto> Ptr_Array (xs[i := Some x]))\<rparr>)"
  by (auto simp: write_ptr_def result_simps mem_simps)

text \<open>The null pointer is refused by every access.\<close>

lemma null_access [simp]:
  "load NULL m = Inl Null_Pointer"
  "store NULL ob m = Inl Null_Pointer"
  "free NULL m = Inr m"
  "load_task NULL m = Inl Null_Pointer"
  "load_group NULL m = Inl Null_Pointer"
  "load_ptr_array NULL m = Inl Null_Pointer"
  "read_ptr NULL i m = Inl Null_Pointer"
  "write_ptr NULL i x m = Inl Null_Pointer"
  "load_queue NULL m = Inl Null_Pointer"
  by (simp_all add: load_def store_def free_def load_task_def load_group_def
      load_ptr_array_def read_ptr_def write_ptr_def load_queue_def)

lemma mem_ok_empty [simp]: "mem_ok empty_mem"
  by (simp add: mem_ok_def empty_mem_def)

lemma empty_mem_simps [simp]:
  "brk empty_mem = 0" "\<not> oom empty_mem n" "heap empty_mem = Map.empty"
  by (simp_all add: empty_mem_def)

lemma mem_ok_fresh: "mem_ok m \<Longrightarrow> heap m (Suc (brk m)) = None"
  by (simp add: mem_ok_def)

lemma mem_ok_live: "mem_ok m \<Longrightarrow> heap m p = Some ob \<Longrightarrow> p \<noteq> NULL \<and> p \<le> brk m"
  by (metis mem_ok_def not_le option.distinct(1))

lemma mem_ok_not_fresh: "mem_ok m \<Longrightarrow> heap m p = Some ob \<Longrightarrow> p \<noteq> Suc (brk m)"
  by (auto dest: mem_ok_live)

lemma mem_ok_alloca: "mem_ok m \<Longrightarrow> mem_ok (snd (alloca ob m))"
  by (auto simp: mem_ok_def alloca_def)

lemma mem_ok_malloc: "mem_ok m \<Longrightarrow> mem_ok (snd (malloc n m))"
  by (auto simp: mem_ok_def malloc_def)

lemma mem_ok_malloc_ptrs: "mem_ok m \<Longrightarrow> mem_ok (snd (malloc_ptrs n m))"
  by (auto simp: mem_ok_def malloc_def malloc_ptrs_def Let_def)

lemma mem_ok_upd: "mem_ok m \<Longrightarrow> heap m p = Some ob \<Longrightarrow> mem_ok (m\<lparr>heap := (heap m)(p := x)\<rparr>)"
  by (auto simp: mem_ok_def)

text \<open>What a successful allocation leaves: one fresh block and everything else as it was.\<close>

lemma malloc_ok: "\<not> oom m (brk m) \<Longrightarrow>
    malloc n m = (Suc (brk m),
      m\<lparr>brk := Suc (brk m), heap := (heap m)(Suc (brk m) \<mapsto> Raw n)\<rparr>)"
  by (simp add: malloc_def)

lemma malloc_null: "oom m (brk m) \<Longrightarrow> malloc n m = (NULL, m\<lparr>brk := Suc (brk m)\<rparr>)"
  by (simp add: malloc_def)

lemma malloc_ptrs_ok: "\<not> oom m (brk m) \<Longrightarrow>
    malloc_ptrs n m = (Suc (brk m),
      m\<lparr>brk := Suc (brk m), heap := (heap m)(Suc (brk m) \<mapsto>
         Ptr_Array (replicate (unat (sizeof_ptr * n) div unat sizeof_ptr) None))\<rparr>)"
  by (simp add: malloc_ptrs_def malloc_def)

lemma malloc_ptrs_null: "oom m (brk m) \<Longrightarrow> malloc_ptrs n m = (NULL, m\<lparr>brk := Suc (brk m)\<rparr>)"
  by (simp add: malloc_ptrs_def malloc_def)

text \<open>
  The byte count of an array of pointers wraps at 32 bits: \<open>n\<close> slots are there exactly when
  \<open>n < 2 ^ 30\<close>.
\<close>

lemma ptr_slots: "unat n < 2 ^ 30 \<Longrightarrow> unat (sizeof_ptr * n) div unat sizeof_ptr = unat n"
  by (simp add: sizeof_ptr_def unat_word_ariths)

lemma ptr_slots_wrap: "unat n \<ge> 2 ^ 30 \<Longrightarrow> unat (sizeof_ptr * n) div unat sizeof_ptr < unat n"
proof -
  assume n: "unat n \<ge> 2 ^ 30"
  have "unat (sizeof_ptr * n) < 2 ^ 32"
    using unsigned_less[of "sizeof_ptr * n", where 'a = nat] by simp
  then have "unat (sizeof_ptr * n) div 4 < 2 ^ 30" by simp
  with n show ?thesis by (simp add: sizeof_ptr_def)
qed

end
