(* ===== verification/Spinlock.thy ===== *)
theory Spinlock
  imports Memory
begin

text \<open>
  The software spinlock, after \<open>spinlock.c\<close> and \<open>spinlock_asm.S\<close>. \<open>spinlock_try_acquire\<close> is
  modelled instruction by instruction: it loads the lock word, gives up if the word is not
  zero, stores its own identifier, waits and loads again; it has the lock if its identifier
  is still there. The logical cores interleave at every instruction.

  That protocol excludes two holders only because of the seven \<open>nop\<close>s: a core that has seen
  the lock free and is about to store must have stored before the other core's second load.
  This timing property of the hardware is the hypothesis \<open>stores_landed\<close>; \<open>spin_step True\<close> are
  the steps that respect it, \<open>spin_step False\<close> those of a machine without it.
\<close>

section \<open>The lock object\<close>

definition SPINLOCK_INITIAL_VALUE :: "32 word" where
  "SPINLOCK_INITIAL_VALUE = 0"

definition SPINLOCK_NOT_ACQUIRED :: "32 word" where
  "SPINLOCK_NOT_ACQUIRED = 0"

definition spinlock_create :: "mem \<Rightarrow> (ptr \<times> mem) result" where
  "spinlock_create m =
     (let (lock, m) = malloc 4 m in
      bindE (store lock (Spinlock SPINLOCK_INITIAL_VALUE) m) (\<lambda>m. Inr (lock, m)))"

definition spinlock_release :: "ptr \<Rightarrow> mem \<Rightarrow> mem result" where
  "spinlock_release lock m = store lock (Spinlock SPINLOCK_INITIAL_VALUE) m"

definition spinlock_delete :: "ptr \<Rightarrow> mem \<Rightarrow> mem result" where
  "spinlock_delete lock m = free lock m"

section \<open>Acquiring, instruction by instruction\<close>

text \<open>
  \<open>Entry\<close>: at the first \<open>ldw\<close>; \<open>Test v\<close>: at \<open>bt\<close> with \<open>v\<close> loaded; \<open>Claim\<close>: at \<open>stw\<close>; \<open>Nops k\<close>: \<open>k\<close>
  \<open>nop\<close>s before the second \<open>ldw\<close>; \<open>Return r\<close>: returning \<open>r\<close> to \<open>spinlock_acquire\<close>; \<open>Holding\<close>:
  \<open>spinlock_acquire\<close> has returned.
\<close>

datatype spin_pc = Idle | Entry | Test "32 word" | Claim | Nops nat | Return "32 word" | Holding

record spin_sys =
  lock_word :: "32 word"
  spin_pc_of :: "nat \<Rightarrow> spin_pc"
  spin_window :: "nat \<Rightarrow> nat set"

text \<open>An xcore tile has eight logical cores; \<open>get r11, id; add r11, r11, 1\<close>.\<close>

definition max_cores :: nat where
  "max_cores = 8"

definition core_value :: "nat \<Rightarrow> 32 word" where
  "core_value t = of_nat t + 1"

text \<open>
  The cores that have loaded a free lock and not yet stored. \<open>spin_window t\<close> remembers who
  they were when \<open>t\<close> stored, and \<open>stores_landed\<close> says that they have stored since.
\<close>

fun storing_pc :: "spin_pc \<Rightarrow> bool" where
  "storing_pc (Test v) = (v = 0)"
| "storing_pc Claim = True"
| "storing_pc c = False"

definition about_to_store :: "spin_sys \<Rightarrow> nat \<Rightarrow> bool" where
  "about_to_store s u = storing_pc (spin_pc_of s u)"

definition stores_landed :: "spin_sys \<Rightarrow> nat \<Rightarrow> bool" where
  "stores_landed s t \<longleftrightarrow> (\<forall>u \<in> spin_window s t. \<not> about_to_store s u)"

definition set_spin_pc :: "nat \<Rightarrow> spin_pc \<Rightarrow> spin_sys \<Rightarrow> spin_sys" where
  "set_spin_pc t c s = s\<lparr>spin_pc_of := (spin_pc_of s)(t := c)\<rparr>"

inductive spin_step :: "bool \<Rightarrow> spin_sys \<Rightarrow> spin_sys \<Rightarrow> bool" for timed where
  enter: "t < max_cores \<Longrightarrow> spin_pc_of s t = Idle \<Longrightarrow> spin_step timed s (set_spin_pc t Entry s)"
| load: "t < max_cores \<Longrightarrow> spin_pc_of s t = Entry \<Longrightarrow>
    spin_step timed s (set_spin_pc t (Test (lock_word s)) s)"
| taken: "t < max_cores \<Longrightarrow> spin_pc_of s t = Test v \<Longrightarrow> v \<noteq> 0 \<Longrightarrow>
    spin_step timed s (set_spin_pc t (Return 0) s)"
| free: "t < max_cores \<Longrightarrow> spin_pc_of s t = Test v \<Longrightarrow> v = 0 \<Longrightarrow>
    spin_step timed s (set_spin_pc t Claim s)"
| claim: "t < max_cores \<Longrightarrow> spin_pc_of s t = Claim \<Longrightarrow>
    spin_step timed s (set_spin_pc t (Nops 7)
      (s\<lparr>lock_word := core_value t,
         spin_window := (spin_window s)(t := {u. u \<noteq> t \<and> about_to_store s u})\<rparr>))"
| nop: "t < max_cores \<Longrightarrow> spin_pc_of s t = Nops (Suc k) \<Longrightarrow>
    spin_step timed s (set_spin_pc t (Nops k) s)"
| reload: "t < max_cores \<Longrightarrow> spin_pc_of s t = Nops 0 \<Longrightarrow> (timed \<longrightarrow> stores_landed s t) \<Longrightarrow>
    spin_step timed s
      (set_spin_pc t (Return (if core_value t = lock_word s then 1 else 0)) s)"
| again: "t < max_cores \<Longrightarrow> spin_pc_of s t = Return r \<Longrightarrow> r = SPINLOCK_NOT_ACQUIRED \<Longrightarrow>
    spin_step timed s (set_spin_pc t Entry s)"
| acquired: "t < max_cores \<Longrightarrow> spin_pc_of s t = Return r \<Longrightarrow> r \<noteq> SPINLOCK_NOT_ACQUIRED \<Longrightarrow>
    spin_step timed s (set_spin_pc t Holding s)"
| release: "t < max_cores \<Longrightarrow> spin_pc_of s t = Holding \<Longrightarrow>
    spin_step timed s (set_spin_pc t Idle (s\<lparr>lock_word := SPINLOCK_INITIAL_VALUE\<rparr>))"

definition spin_init :: "spin_sys \<Rightarrow> bool" where
  "spin_init s \<longleftrightarrow> lock_word s = SPINLOCK_INITIAL_VALUE \<and> (\<forall>t. spin_pc_of s t = Idle)"

text \<open>A core owns the lock from the successful second load to the release.\<close>

fun owning_pc :: "spin_pc \<Rightarrow> bool" where
  "owning_pc Holding = True"
| "owning_pc (Return r) = (r \<noteq> SPINLOCK_NOT_ACQUIRED)"
| "owning_pc c = False"

definition owns :: "spin_sys \<Rightarrow> nat \<Rightarrow> bool" where
  "owns s t = owning_pc (spin_pc_of s t)"

section \<open>The invariant\<close>

lemma core_value_inj: "t < max_cores \<Longrightarrow> u < max_cores \<Longrightarrow> core_value t = core_value u \<longleftrightarrow> t = u"
  by (auto simp: core_value_def max_cores_def of_nat_inverse
      dest!: arg_cong[where f = unat] simp: unat_of_nat)

lemma core_value_nonzero: "t < max_cores \<Longrightarrow> core_value t \<noteq> 0"
proof
  assume t: "t < max_cores" and "core_value t = 0"
  then have "unat (of_nat t + 1 :: 32 word) = 0" by (simp add: core_value_def)
  with t show False by (simp add: max_cores_def unat_word_ariths unat_of_nat)
qed

text \<open>
  Only cores of the tile take part; an owner's identifier is in the word and nobody is about
  to store; a core whose identifier is in the word had everybody who is about to store in its
  window. Separately, a word that is not zero is the identifier of a core that owns the lock
  or is still to find out that it does.
\<close>

fun pending_pc :: "spin_pc \<Rightarrow> bool" where
  "pending_pc (Nops k) = True"
| "pending_pc c = False"

definition pending :: "spin_sys \<Rightarrow> nat \<Rightarrow> bool" where
  "pending s t = pending_pc (spin_pc_of s t)"

definition spin_inv :: "spin_sys \<Rightarrow> bool" where
  "spin_inv s \<longleftrightarrow>
     (\<forall>t. spin_pc_of s t \<noteq> Idle \<longrightarrow> t < max_cores) \<and>
     (\<forall>t. owns s t \<longrightarrow> lock_word s = core_value t) \<and>
     (\<forall>t u. owns s t \<longrightarrow> \<not> about_to_store s u) \<and>
     (\<forall>t u. pending s t \<longrightarrow> lock_word s = core_value t \<longrightarrow> about_to_store s u \<longrightarrow>
        u \<in> spin_window s t)"

definition not_orphaned :: "spin_sys \<Rightarrow> bool" where
  "not_orphaned s \<longleftrightarrow>
     lock_word s = 0 \<or> (\<exists>t. lock_word s = core_value t \<and> (owns s t \<or> pending s t))"

lemma set_spin_pc_simps [simp]:
  "lock_word (set_spin_pc t c s) = lock_word s"
  "spin_window (set_spin_pc t c s) = spin_window s"
  "spin_pc_of (set_spin_pc t c s) = (spin_pc_of s)(t := c)"
  "owns (set_spin_pc t c s) u = (if u = t then owning_pc c else owns s u)"
  "about_to_store (set_spin_pc t c s) u = (if u = t then storing_pc c else about_to_store s u)"
  "pending (set_spin_pc t c s) u = (if u = t then pending_pc c else pending s u)"
  by (auto simp: set_spin_pc_def owns_def about_to_store_def pending_def)

lemma word_upd_simps [simp]:
  "owns (s\<lparr>lock_word := v\<rparr>) u = owns s u"
  "about_to_store (s\<lparr>lock_word := v\<rparr>) u = about_to_store s u"
  "pending (s\<lparr>lock_word := v\<rparr>) u = pending s u"
  "owns (s\<lparr>lock_word := v, spin_window := w\<rparr>) u = owns s u"
  "about_to_store (s\<lparr>lock_word := v, spin_window := w\<rparr>) u = about_to_store s u"
  "pending (s\<lparr>lock_word := v, spin_window := w\<rparr>) u = pending s u"
  by (simp_all add: owns_def about_to_store_def pending_def)

lemma spin_inv_init: "spin_init s \<Longrightarrow> spin_inv s"
  by (simp add: spin_inv_def spin_init_def owns_def about_to_store_def pending_def)

lemma spin_invD:
  assumes "spin_inv s"
  shows "owns s t \<Longrightarrow> t < max_cores" "pending s t \<Longrightarrow> t < max_cores"
    and "spin_pc_of s t \<noteq> Idle \<Longrightarrow> t < max_cores"
    and "owns s t \<Longrightarrow> lock_word s = core_value t"
    and "owns s t \<Longrightarrow> \<not> about_to_store s u"
    and "pending s t \<Longrightarrow> lock_word s = core_value t \<Longrightarrow> about_to_store s u \<Longrightarrow>
      u \<in> spin_window s t"
  using assms unfolding spin_inv_def owns_def pending_def
  by (metis owning_pc.simps(3), metis pending_pc.simps(2), metis+)

lemma spin_invI:
  assumes "\<And>t. spin_pc_of s t \<noteq> Idle \<Longrightarrow> t < max_cores"
    and "\<And>t. owns s t \<Longrightarrow> lock_word s = core_value t"
    and "\<And>t u. owns s t \<Longrightarrow> \<not> about_to_store s u"
    and "\<And>t u. pending s t \<Longrightarrow> lock_word s = core_value t \<Longrightarrow> about_to_store s u \<Longrightarrow>
      u \<in> spin_window s t"
  shows "spin_inv s"
  using assms unfolding spin_inv_def by blast

text \<open>A step that moves one core inside the same phase of the protocol keeps the invariant.\<close>

lemma spin_inv_local:
  assumes inv: "spin_inv s" and t: "t < max_cores"
    and c: "owning_pc c \<Longrightarrow> owns s t" "storing_pc c \<Longrightarrow> about_to_store s t"
      "pending_pc c \<Longrightarrow> pending s t"
  shows "spin_inv (set_spin_pc t c s)"
  by (rule spin_invI) (use c t in \<open>auto split: if_splits dest: spin_invD(3-)[OF inv]\<close>)

lemma spin_inv_load:
  assumes inv: "spin_inv s" and t: "t < max_cores" and pc: "spin_pc_of s t = Entry"
  shows "spin_inv (set_spin_pc t (Test (lock_word s)) s)"
proof -
  have t0: "\<not> owns s t" "\<not> pending s t" by (simp_all add: owns_def pending_def pc)
  have taken: "lock_word s \<noteq> 0" if "lock_word s = core_value u" "owns s u \<or> pending s u" for u
    using that core_value_nonzero[of u] spin_invD(1,2)[OF inv, of u] by auto
  have owned: "lock_word s \<noteq> 0" if "owns s u" for u
    using that taken spin_invD(4)[OF inv] by blast
  show ?thesis
    by (rule spin_invI)
      (use t t0 taken owned in \<open>auto split: if_splits dest: spin_invD(3-)[OF inv]\<close>)
qed

lemma spin_inv_claim:
  assumes inv: "spin_inv s" and t: "t < max_cores" and pc: "spin_pc_of s t = Claim"
  shows "spin_inv (set_spin_pc t (Nops 7) (s\<lparr>lock_word := core_value t,
      spin_window := (spin_window s)(t := {u. u \<noteq> t \<and> about_to_store s u})\<rparr>))"
proof -
  have "about_to_store s t" by (simp add: about_to_store_def pc)
  then have no_owner: "\<not> owns s u" for u using spin_invD(5)[OF inv] by blast
  have inj: "core_value t \<noteq> core_value u" if "u \<noteq> t" "pending s u" for u
    using that t spin_invD(2)[OF inv] core_value_inj by auto
  show ?thesis
    by (rule spin_invI)
      (use t no_owner inj in \<open>auto split: if_splits dest: spin_invD(3)[OF inv]\<close>)
qed

lemma spin_inv_reload:
  assumes inv: "spin_inv s" and t: "t < max_cores" and pc: "spin_pc_of s t = Nops 0"
    and landed: "stores_landed s t"
  shows "spin_inv (set_spin_pc t (Return (if core_value t = lock_word s then 1 else 0)) s)"
proof -
  have t0: "pending s t" "\<not> owns s t" by (simp_all add: owns_def pending_def pc)
  have quiet: "\<not> about_to_store s u" if "core_value t = lock_word s" for u
    using that landed spin_invD(6)[OF inv t0(1), of u] by (auto simp: stores_landed_def)
  show ?thesis
    by (rule spin_invI)
      (use t quiet in \<open>auto split: if_splits simp: SPINLOCK_NOT_ACQUIRED_def
         dest: spin_invD(3-)[OF inv]\<close>)
qed

lemma owner_unique:
  assumes inv: "spin_inv s" and "owns s t" "owns s u"
  shows "t = u"
  using assms(2,3) spin_invD(1)[OF inv] spin_invD(4)[OF inv] core_value_inj by metis

lemma spin_inv_release:
  assumes inv: "spin_inv s" and t: "t < max_cores" and pc: "spin_pc_of s t = Holding"
  shows "spin_inv (set_spin_pc t Idle (s\<lparr>lock_word := SPINLOCK_INITIAL_VALUE\<rparr>))"
proof -
  have own: "owns s t" by (simp add: owns_def pc)
  have alone: "\<not> owns s u" if "u \<noteq> t" for u
    using that own owner_unique[OF inv] by blast
  show ?thesis
    by (rule spin_invI)
      (use t own alone spin_invD(5)[OF inv own] in
        \<open>auto split: if_splits dest: spin_invD(3)[OF inv]\<close>)
qed

lemma spin_step_inv:
  assumes inv: "spin_inv s" and step: "spin_step True s s'"
  shows "spin_inv s'"
  using step
proof cases
  case load
  then show ?thesis using inv by (simp add: spin_inv_load)
next
  case claim
  then show ?thesis using inv by (simp add: spin_inv_claim)
next
  case reload
  then show ?thesis using spin_inv_reload[OF inv] by simp
next
  case release
  then show ?thesis using inv by (simp add: spin_inv_release)
qed (auto intro!: spin_inv_local[OF inv]
       simp: owns_def about_to_store_def pending_def SPINLOCK_NOT_ACQUIRED_def)

interpretation spin: invariant_system spin_init "spin_step True" spin_inv
  by unfold_locales (auto intro: spin_inv_init spin_step_inv)

text \<open>The word is never left behind by a core that gave up, whatever the timing.\<close>

lemma not_orphaned_local:
  assumes "not_orphaned s"
    and "owns s t \<or> pending s t \<Longrightarrow> lock_word s = core_value t \<Longrightarrow> owning_pc c \<or> pending_pc c"
  shows "not_orphaned (set_spin_pc t c s)"
proof (cases "lock_word s = 0")
  case False
  with assms(1) obtain u where "lock_word s = core_value u" "owns s u \<or> pending s u"
    by (auto simp: not_orphaned_def)
  with assms(2) show ?thesis by (cases "u = t") (auto simp: not_orphaned_def)
qed (simp add: not_orphaned_def)

lemma spin_step_not_orphaned:
  assumes "not_orphaned s" and "spin_step timed s s'"
  shows "not_orphaned s'"
  using assms(2)
proof cases
  case claim
  then show ?thesis by (auto simp: not_orphaned_def)
next
  case release
  then show ?thesis by (simp add: not_orphaned_def SPINLOCK_INITIAL_VALUE_def)
qed (hypsubst, rule not_orphaned_local[OF assms(1)],
     simp add: owns_def pending_def SPINLOCK_NOT_ACQUIRED_def)+

interpretation spin_word: invariant_system spin_init "spin_step timed" not_orphaned
  for timed
proof
  show "not_orphaned s" if "spin_init s" for s
    using that by (simp add: spin_init_def not_orphaned_def SPINLOCK_INITIAL_VALUE_def)
qed (rule spin_step_not_orphaned)

section \<open>Runs of one core\<close>

lemma set_spin_pc_twice [simp]: "set_spin_pc t c (set_spin_pc t d s) = set_spin_pc t c s"
  by (simp add: set_spin_pc_def)

lemma set_spin_pc_same: "spin_pc_of s t = c \<Longrightarrow> set_spin_pc t c s = s"
  by (simp add: set_spin_pc_def fun_upd_idem)

lemma nops_run:
  assumes "t < max_cores"
  shows "(spin_step timed)\<^sup>*\<^sup>* (set_spin_pc t (Nops k) s) (set_spin_pc t (Nops 0) s)"
proof (induction k)
  case (Suc k)
  have "spin_step timed (set_spin_pc t (Nops (Suc k)) s) (set_spin_pc t (Nops k) s)"
    using spin_step.nop[of t "set_spin_pc t (Nops (Suc k)) s" k] assms by simp
  then show ?case using Suc by (rule converse_rtranclp_into_rtranclp)
qed simp

text \<open>A core that stores while nobody else is about to, or on a machine without the timing
  guarantee, finds its identifier there and owns the lock.\<close>

lemma claim_run:
  assumes t: "t < max_cores" and pc: "spin_pc_of s t = Claim"
    and alone: "timed \<Longrightarrow> \<forall>u. u \<noteq> t \<longrightarrow> \<not> about_to_store s u"
  shows "\<exists>s'. (spin_step timed)\<^sup>*\<^sup>* s s' \<and> spin_pc_of s' = (spin_pc_of s)(t := Return 1)"
proof -
  let ?s = "s\<lparr>lock_word := core_value t,
     spin_window := (spin_window s)(t := {u. u \<noteq> t \<and> about_to_store s u})\<rparr>"
  have "spin_step timed s (set_spin_pc t (Nops 7) ?s)"
    using t pc by (rule spin_step.claim)
  moreover have "(spin_step timed)\<^sup>*\<^sup>* (set_spin_pc t (Nops 7) ?s) (set_spin_pc t (Nops 0) ?s)"
    using t by (rule nops_run)
  moreover have "spin_step timed (set_spin_pc t (Nops 0) ?s) (set_spin_pc t (Return 1) ?s)"
    using spin_step.reload[of t "set_spin_pc t (Nops 0) ?s" timed] t alone
    by (auto simp: stores_landed_def)
  ultimately have "(spin_step timed)\<^sup>*\<^sup>* s (set_spin_pc t (Return 1) ?s)"
    by (meson converse_rtranclp_into_rtranclp rtranclp.rtrancl_into_rtrancl)
  then show ?thesis by (intro exI conjI) (assumption, simp)
qed

lemma entry_run:
  assumes t: "t < max_cores" and pc: "spin_pc_of s t = Entry" and "lock_word s = 0"
  shows "(spin_step timed)\<^sup>*\<^sup>* s (set_spin_pc t Claim s)"
proof -
  have "spin_step timed s (set_spin_pc t (Test 0) s)"
    using spin_step.load[OF t pc, of timed] assms(3) by simp
  moreover have "spin_step timed (set_spin_pc t (Test 0) s) (set_spin_pc t Claim s)"
    using spin_step.free[OF t, of "set_spin_pc t (Test 0) s" 0 timed] by simp
  ultimately show ?thesis by (meson converse_rtranclp_into_rtranclp r_into_rtranclp)
qed

section \<open>Properties\<close>

text \<open>C37: mutual exclusion. On hardware that keeps the timing property the \<open>nop\<close>s are there for,
  no interleaving of the instructions of any of the eight cores leads to a state in which two
  cores own the lock.\<close>

theorem spinlock_mutual_exclusion:
  assumes "reach spin_init (spin_step True) s" and "owns s t" and "owns s u"
  shows "t = u"
  using spin.reach_inv[OF assms(1)] assms(2,3) by (rule owner_unique)

text \<open>The initial state of a lock, and the states two cores get to in the witnesses.\<close>

definition spin_start :: spin_sys where
  "spin_start = \<lparr>lock_word = 0, spin_pc_of = (\<lambda>_. Idle), spin_window = (\<lambda>_. {})\<rparr>"

lemma spin_start_init: "spin_init spin_start"
  by (simp add: spin_start_def spin_init_def SPINLOCK_INITIAL_VALUE_def)

lemma enter_claim_run:
  assumes "t < max_cores" and "spin_pc_of s t = Idle" and "lock_word s = 0"
  shows "(spin_step timed)\<^sup>*\<^sup>* s (set_spin_pc t Claim s)"
proof -
  have "spin_step timed s (set_spin_pc t Entry s)"
    using assms(1,2) by (rule spin_step.enter)
  then show ?thesis
    using entry_run[OF assms(1), of "set_spin_pc t Entry s" timed] assms(3)
    by (simp add: converse_rtranclp_into_rtranclp)
qed

theorem spinlock_mutual_exclusion_witness:
  "\<exists>s. reach spin_init (spin_step True) s \<and> owns s 3 \<and> (\<forall>u. owns s u \<longrightarrow> u = 3)"
proof -
  have core: "3 < max_cores" by (simp add: max_cores_def)
  have "(spin_step True)\<^sup>*\<^sup>* spin_start (set_spin_pc 3 Claim spin_start)"
    by (rule enter_claim_run[OF core]) (simp_all add: spin_start_def)
  moreover obtain s where s: "(spin_step True)\<^sup>*\<^sup>* (set_spin_pc 3 Claim spin_start) s"
    "spin_pc_of s = (spin_pc_of (set_spin_pc 3 Claim spin_start))(3 := Return 1)"
    using claim_run[OF core, of "set_spin_pc 3 Claim spin_start" True]
    by (auto simp: about_to_store_def spin_start_def)
  ultimately have r: "reach spin_init (spin_step True) s"
    by (meson reach_init reach_rtranclp spin_start_init)
  have o: "owns s 3" by (simp add: owns_def s(2) SPINLOCK_NOT_ACQUIRED_def)
  show ?thesis using r o spinlock_mutual_exclusion[OF r _ o] by blast
qed

text \<open>The timing is needed. Without it there is a run in which two cores load the free lock
  one after the other, and each of them stores, waits out its \<open>nop\<close>s and reads its own
  identifier back: both own the lock.\<close>

theorem spinlock_untimed_race:
  "\<exists>s. reach spin_init (spin_step False) s \<and> owns s 0 \<and> owns s 1"
proof -
  have core: "0 < max_cores" "1 < max_cores" by (simp_all add: max_cores_def)
  let ?a = "set_spin_pc 0 Claim spin_start"
  let ?b = "set_spin_pc 1 Claim ?a"
  have "(spin_step False)\<^sup>*\<^sup>* spin_start ?a"
    by (rule enter_claim_run[OF core(1)]) (simp_all add: spin_start_def)
  moreover have "(spin_step False)\<^sup>*\<^sup>* ?a ?b"
    by (rule enter_claim_run[OF core(2)]) (simp_all add: spin_start_def)
  moreover obtain c where c: "(spin_step False)\<^sup>*\<^sup>* ?b c"
    "spin_pc_of c = (spin_pc_of ?b)(0 := Return 1)"
    using claim_run[OF core(1), of ?b False] by auto
  moreover obtain d where d: "(spin_step False)\<^sup>*\<^sup>* c d"
    "spin_pc_of d = (spin_pc_of c)(1 := Return 1)"
    using claim_run[OF core(2), of c False] c(2) by auto
  ultimately have "reach spin_init (spin_step False) d"
    by (meson reach_init reach_rtranclp spin_start_init)
  moreover have "owns d 0" "owns d 1"
    by (simp_all add: owns_def c(2) d(2) SPINLOCK_NOT_ACQUIRED_def)
  ultimately show ?thesis by blast
qed

text \<open>The lock is never lost and can be taken when it is free. In every reachable state,
  whatever the timing, a word that is not zero is the identifier of a core that owns the lock
  or is about to find that it does; and a core that enters \<open>spinlock_try_acquire\<close> on a free lock
  while no other core is about to store gets to own it by its own steps alone.\<close>

theorem spinlock_progress:
  assumes "reach spin_init (spin_step timed) s"
  shows "(lock_word s \<noteq> 0 \<longrightarrow>
      (\<exists>t. lock_word s = core_value t \<and> (owns s t \<or> pending s t))) \<and>
    (lock_word s = 0 \<and> t < max_cores \<and> spin_pc_of s t = Entry \<and>
       (\<forall>u. u \<noteq> t \<longrightarrow> \<not> about_to_store s u) \<longrightarrow>
     (\<exists>s'. (spin_step timed)\<^sup>*\<^sup>* s s' \<and> owns s' t))"
proof (intro conjI impI)
  show "\<exists>t. lock_word s = core_value t \<and> (owns s t \<or> pending s t)" if "lock_word s \<noteq> 0"
    using spin_word.reach_inv[OF assms] that by (simp add: not_orphaned_def)
next
  assume free: "lock_word s = 0 \<and> t < max_cores \<and> spin_pc_of s t = Entry \<and>
       (\<forall>u. u \<noteq> t \<longrightarrow> \<not> about_to_store s u)"
  then have "(spin_step timed)\<^sup>*\<^sup>* s (set_spin_pc t Claim s)"
    by (intro entry_run) auto
  moreover obtain s' where "(spin_step timed)\<^sup>*\<^sup>* (set_spin_pc t Claim s) s'"
    "spin_pc_of s' = (spin_pc_of (set_spin_pc t Claim s))(t := Return 1)"
    using claim_run[of t "set_spin_pc t Claim s" timed] free by auto
  ultimately show "\<exists>s'. (spin_step timed)\<^sup>*\<^sup>* s s' \<and> owns s' t"
    by (auto simp: owns_def SPINLOCK_NOT_ACQUIRED_def intro!: exI[of _ s'] elim: rtranclp_trans)
qed

theorem spinlock_progress_witness:
  "\<exists>s. (spin_step True)\<^sup>*\<^sup>* (set_spin_pc 2 Entry spin_start) s \<and> owns s 2"
proof -
  have "spin_step True spin_start (set_spin_pc 2 Entry spin_start)"
    by (rule spin_step.enter) (simp_all add: spin_start_def max_cores_def)
  then have r: "reach spin_init (spin_step True) (set_spin_pc 2 Entry spin_start)"
    by (meson reach_init reach_step spin_start_init)
  show ?thesis
    using spinlock_progress[OF r, of 2]
    by (auto simp: spin_start_def max_cores_def about_to_store_def)
qed

end
