(* ===== verification/Condition_Variable.thy ===== *)
theory Condition_Variable
  imports Spinlock
begin

text \<open>
  The condition variable of the bare-metal queue, after \<open>condition_variable_metal.c\<close>: a linked
  list of waiters, most recent first, each with the channel end it waits on. A waiter's node
  is a local variable of its \<open>condition_variable_wait\<close> and dies with it. The three parts of
  \<open>condition_variable_wait\<close> are separated by its blocking points (releasing the mutex, the input
  of a byte, taking the mutex back), which the queue's step relation supplies.

  The channel hardware is not part of the library. Its operations are the fields of
  \<open>chan_ops\<close>, over a state of an unknown type, and \<open>chan_laws\<close> is what the library relies on:
  between two ends whose destinations are each other, bytes arrive once, in order, unchanged.
\<close>

section \<open>Channels\<close>

record 'c chan_ops =
  set_dest :: "'c \<Rightarrow> chanend \<Rightarrow> chanend \<Rightarrow> 'c"
  out_byte :: "'c \<Rightarrow> chanend \<Rightarrow> 8 word \<Rightarrow> 'c"
  in_byte :: "'c \<Rightarrow> chanend \<Rightarrow> (8 word \<times> 'c) option"

text \<open>\<open>inbox c e\<close> are the bytes that have been sent to \<open>e\<close> and not yet been read there.\<close>

definition chan_laws :: "'c chan_ops \<Rightarrow> ('c \<Rightarrow> chanend \<Rightarrow> 8 word list) \<Rightarrow> bool" where
  "chan_laws P inbox \<longleftrightarrow>
     (\<forall>c src dst b. inbox (out_byte P (set_dest P (set_dest P c src dst) dst src) src b) =
        (inbox c)(dst := inbox c dst @ [b])) \<and>
     (\<forall>c e. in_byte P c e = None \<longleftrightarrow> inbox c e = []) \<and>
     (\<forall>c e b c'. in_byte P c e = Some (b, c') \<longrightarrow> inbox c = (inbox c')(e := b # inbox c' e))"

text \<open>
  A channel fabric that keeps the laws: destinations, and a list of bytes per end.
\<close>

definition list_chans :: "((chanend \<Rightarrow> chanend) \<times> (chanend \<Rightarrow> 8 word list)) chan_ops" where
  "list_chans =
     \<lparr>set_dest = (\<lambda>(d, i) src dst. (d(src := dst), i)),
      out_byte = (\<lambda>(d, i) src b. (d, i(d src := i (d src) @ [b]))),
      in_byte = (\<lambda>(d, i) e. case i e of [] \<Rightarrow> None | b # bs \<Rightarrow> Some (b, (d, i(e := bs))))\<rparr>"

section \<open>Operations\<close>

definition CONDITION_SIGNAL_EVT :: "8 word" where
  "CONDITION_SIGNAL_EVT = 1"

definition CONDITION_TERMINATE_EVT :: "8 word" where
  "CONDITION_TERMINATE_EVT = 2"

definition condition_variable_create :: "mem \<Rightarrow> (ptr \<times> mem) result" where
  "condition_variable_create m =
     (let (cv, m) = malloc 8 m in
      bindE (store cv (Cond_Var \<lparr>cv_lock = NULL, cv_waiters = NULL\<rparr>) m) (\<lambda>m.
      bindE (spinlock_create m) (\<lambda>(lock, m).
      bindE (store cv (Cond_Var \<lparr>cv_lock = lock, cv_waiters = NULL\<rparr>) m) (\<lambda>m.
      Inr (cv, m)))))"

text \<open>The first part of \<open>condition_variable_wait\<close>: the caller's node goes to the front.\<close>

definition wait_enqueue :: "ptr \<Rightarrow> chanend \<Rightarrow> mem \<Rightarrow> (ptr \<times> mem) result" where
  "wait_enqueue cv dest m =
     bindE (assertE (cv \<noteq> NULL)) (\<lambda>_.
     bindE (load_cond_var cv m) (\<lambda>v.
     let (waiter, m) = alloca (Cond_Node \<lparr>node_cend = dest, node_next = cv_waiters v\<rparr>) m in
     bindE (store cv (Cond_Var (v\<lparr>cv_waiters := waiter\<rparr>)) m) (\<lambda>m.
     Inr (waiter, m))))"

text \<open>Leaving \<open>condition_variable_wait\<close> ends the life of the node.\<close>

definition wait_leave :: "ptr \<Rightarrow> mem \<Rightarrow> mem result" where
  "wait_leave waiter m = free waiter m"

definition condition_variable_send ::
  "'c chan_ops \<Rightarrow> chanend \<Rightarrow> chanend \<Rightarrow> 8 word \<Rightarrow> 'c \<Rightarrow> 'c" where
  "condition_variable_send P source dest signal c =
     out_byte P (set_dest P (set_dest P c source dest) dest source) source signal"

text \<open>
  The two statements that signal, broadcast and terminate have in common: sending to the
  first waiter, and making its successor the first.
\<close>

definition send_first ::
  "'c chan_ops \<Rightarrow> ptr \<Rightarrow> chanend \<Rightarrow> 8 word \<Rightarrow> mem \<Rightarrow> 'c \<Rightarrow> 'c result" where
  "send_first P cv source signal m c =
     bindE (load_cond_var cv m) (\<lambda>v.
     bindE (load_cond_node (cv_waiters v) m) (\<lambda>n.
     Inr (condition_variable_send P source (node_cend n) signal c)))"

definition drop_first :: "ptr \<Rightarrow> mem \<Rightarrow> mem result" where
  "drop_first cv m =
     bindE (load_cond_var cv m) (\<lambda>v.
     bindE (load_cond_node (cv_waiters v) m) (\<lambda>n.
     store cv (Cond_Var (v\<lparr>cv_waiters := node_next n\<rparr>)) m))"

definition condition_variable_signal ::
  "'c chan_ops \<Rightarrow> ptr \<Rightarrow> chanend \<Rightarrow> mem \<Rightarrow> 'c \<Rightarrow> (mem \<times> 'c) result" where
  "condition_variable_signal P cv source m c =
     bindE (assertE (cv \<noteq> NULL)) (\<lambda>_.
     bindE (load_cond_var cv m) (\<lambda>v.
     if cv_waiters v \<noteq> NULL then
       bindE (send_first P cv source CONDITION_SIGNAL_EVT m c) (\<lambda>c.
       bindE (drop_first cv m) (\<lambda>m.
       Inr (m, c)))
     else Inr (m, c)))"

text \<open>
  The loop of broadcast and of terminate. Nothing in the code bounds it (a cyclic list would
  never end), so not returning is \<open>None\<close>.
\<close>

partial_function (option) send_all ::
  "'c chan_ops \<Rightarrow> ptr \<Rightarrow> chanend \<Rightarrow> 8 word \<Rightarrow> mem \<Rightarrow> 'c \<Rightarrow> (mem \<times> 'c) result option" where
  "send_all P cv source signal m c =
     (case load_cond_var cv m of
        Inl e \<Rightarrow> Some (Inl e)
      | Inr v \<Rightarrow>
          if cv_waiters v \<noteq> NULL then
            (case send_first P cv source signal m c of
               Inl e \<Rightarrow> Some (Inl e)
             | Inr c' \<Rightarrow>
                 (case drop_first cv m of
                    Inl e \<Rightarrow> Some (Inl e)
                  | Inr m' \<Rightarrow> send_all P cv source signal m' c'))
          else Some (Inr (m, c)))"

definition condition_variable_broadcast ::
  "'c chan_ops \<Rightarrow> ptr \<Rightarrow> chanend \<Rightarrow> mem \<Rightarrow> 'c \<Rightarrow> (mem \<times> 'c) result option" where
  "condition_variable_broadcast P cv source m c =
     (if cv = NULL then Some (Inl Assertion_Failed)
      else send_all P cv source CONDITION_SIGNAL_EVT m c)"

definition condition_variable_terminate ::
  "'c chan_ops \<Rightarrow> ptr \<Rightarrow> chanend \<Rightarrow> mem \<Rightarrow> 'c \<Rightarrow> (mem \<times> 'c) result option" where
  "condition_variable_terminate P cv source m c =
     (if cv = NULL then Some (Inl Assertion_Failed)
      else send_all P cv source CONDITION_TERMINATE_EVT m c)"

definition condition_variable_delete :: "ptr \<Rightarrow> mem \<Rightarrow> mem result" where
  "condition_variable_delete cv m =
     bindE (assertE (cv \<noteq> NULL)) (\<lambda>_.
     bindE (load_cond_var cv m) (\<lambda>v.
     bindE (spinlock_delete (cv_lock v) m) (\<lambda>m.
     free cv m)))"

section \<open>The abstraction: a list of waiters\<close>

text \<open>
  \<open>waiting m p ns\<close>: following \<open>next\<close> from \<open>p\<close> visits the nodes \<open>ns\<close>, each given with its channel
  end, and ends in the null pointer. \<open>cv_rep m cv ns\<close>: those are the waiters of \<open>cv\<close>.
\<close>

primrec waiting :: "mem \<Rightarrow> ptr \<Rightarrow> (ptr \<times> chanend) list \<Rightarrow> bool" where
  "waiting m p [] \<longleftrightarrow> p = NULL"
| "waiting m p (n # ns) \<longleftrightarrow>
     p = fst n \<and> p \<noteq> NULL \<and>
     (\<exists>q. heap m p = Some (Cond_Node \<lparr>node_cend = snd n, node_next = q\<rparr>) \<and> waiting m q ns)"

definition cv_rep :: "mem \<Rightarrow> ptr \<Rightarrow> (ptr \<times> chanend) list \<Rightarrow> bool" where
  "cv_rep m cv ns \<longleftrightarrow>
     cv \<noteq> NULL \<and> (\<exists>v. heap m cv = Some (Cond_Var v) \<and> waiting m (cv_waiters v) ns)"

text \<open>The list looks at the nodes in it and at nothing else.\<close>

lemma waiting_frame:
  "waiting m p ns \<Longrightarrow> (\<And>q. q \<in> fst ` set ns \<Longrightarrow> heap m' q = heap m q) \<Longrightarrow> waiting m' p ns"
  by (induction ns arbitrary: p) force+

lemma waiting_live: "waiting m p ns \<Longrightarrow> q \<in> fst ` set ns \<Longrightarrow> \<exists>n. heap m q = Some (Cond_Node n)"
  by (induction ns arbitrary: p) auto

lemma waiting_unique: "waiting m p ns \<Longrightarrow> waiting m p ms \<Longrightarrow> ns = ms"
proof (induction ns arbitrary: p ms)
  case Nil
  then show ?case by (cases ms) auto
next
  case (Cons n ns)
  then show ?case by (cases ms) (auto simp: prod_eq_iff)
qed

lemma waiting_append:
  "waiting m p (ns @ ms) \<Longrightarrow> \<exists>q. waiting m q ms \<and> (ms \<noteq> [] \<longrightarrow> q = fst (hd ms))"
  by (induction ns arbitrary: p) (cases ms, auto)

text \<open>The list cannot revisit a node: it would not end.\<close>

lemma waiting_distinct: "waiting m p ns \<Longrightarrow> distinct (map fst ns)"
proof (induction ns arbitrary: p)
  case (Cons n ns)
  have "fst n \<notin> fst ` set ns"
  proof
    assume "fst n \<in> fst ` set ns"
    then obtain as b bs where split: "ns = as @ b # bs" "fst b = fst n"
      by (metis imageE split_list)
    from Cons.prems obtain q where q: "waiting m (fst n) (n # ns)" "waiting m q ns" by auto
    from waiting_append[of m q as "b # bs"] q(2) split
    have "waiting m (fst n) (b # bs)" by auto
    with q(1) have "n # ns = b # bs" by (rule waiting_unique)
    with split show False by simp
  qed
  with Cons show ?case by auto
qed simp

lemma cv_rep_frame:
  assumes "cv_rep m cv ns" and "heap m' cv = heap m cv"
    and "\<And>q. q \<in> fst ` set ns \<Longrightarrow> heap m' q = heap m q"
  shows "cv_rep m' cv ns"
  using assms waiting_frame by (fastforce simp: cv_rep_def)

lemma cv_rep_live: "cv_rep m cv ns \<Longrightarrow> q \<in> fst ` set ns \<Longrightarrow> \<exists>n. heap m q = Some (Cond_Node n)"
  by (auto simp: cv_rep_def dest: waiting_live)

lemma cv_rep_distinct: "cv_rep m cv ns \<Longrightarrow> distinct (map fst ns)"
  by (auto simp: cv_rep_def dest: waiting_distinct)

section \<open>Every operation on the abstraction\<close>

lemma wait_enqueue_rep:
  assumes ok: "mem_ok m" and rep: "cv_rep m cv ns"
  shows "\<exists>m'. wait_enqueue cv dest m = Inr (Suc (brk m), m') \<and> mem_ok m' \<and>
     cv_rep m' cv ((Suc (brk m), dest) # ns) \<and> heap m (Suc (brk m)) = None \<and> brk m' = Suc (brk m) \<and>
     (\<forall>p. p \<noteq> cv \<longrightarrow> p \<noteq> Suc (brk m) \<longrightarrow> heap m' p = heap m p)"
proof -
  from rep obtain v where v: "cv \<noteq> NULL" "heap m cv = Some (Cond_Var v)"
    "waiting m (cv_waiters v) ns" by (auto simp: cv_rep_def)
  let ?w = "Suc (brk m)"
  let ?m' = "m\<lparr>brk := ?w, heap := (heap m)
     (?w \<mapsto> Cond_Node \<lparr>node_cend = dest, node_next = cv_waiters v\<rparr>,
      cv \<mapsto> Cond_Var (v\<lparr>cv_waiters := ?w\<rparr>))\<rparr>"
  have ne: "?w \<noteq> cv" using mem_ok_not_fresh[OF ok v(2)] by simp
  have "waiting ?m' (cv_waiters v) ns"
    using v(3) by (rule waiting_frame)
      (use waiting_live[OF v(3)] v(2) mem_ok_fresh[OF ok] in force)
  then have "cv_rep ?m' cv ((?w, dest) # ns)"
    using v ne by (simp add: cv_rep_def)
  moreover have "wait_enqueue cv dest m = Inr (?w, ?m')"
    using v ne by (simp add: wait_enqueue_def load_cond_var_def load_def alloca_def store_def)
  moreover have "mem_ok ?m'" using ok v by (auto simp: mem_ok_def)
  ultimately show ?thesis using mem_ok_fresh[OF ok] by auto
qed

lemma send_first_rep:
  "cv_rep m cv ((n, e) # ns) \<Longrightarrow>
   send_first P cv source signal m c = Inr (condition_variable_send P source e signal c)"
  by (auto simp: cv_rep_def send_first_def load_cond_var_def load_cond_node_def load_def)

lemma drop_first_rep:
  assumes rep: "cv_rep m cv ((n, e) # ns)"
  shows "\<exists>m'. drop_first cv m = Inr m' \<and> cv_rep m' cv ns \<and> brk m' = brk m \<and> oom m' = oom m \<and>
     heap m' cv \<noteq> None \<and> (\<forall>p. p \<noteq> cv \<longrightarrow> heap m' p = heap m p)"
proof -
  from rep obtain v q where v: "cv \<noteq> NULL" "heap m cv = Some (Cond_Var v)" "cv_waiters v = n"
    "n \<noteq> NULL" "heap m n = Some (Cond_Node \<lparr>node_cend = e, node_next = q\<rparr>)" "waiting m q ns"
    by (auto simp: cv_rep_def)
  let ?m' = "m\<lparr>heap := (heap m)(cv \<mapsto> Cond_Var (v\<lparr>cv_waiters := q\<rparr>))\<rparr>"
  have "drop_first cv m = Inr ?m'"
    using v by (simp add: drop_first_def load_cond_var_def load_cond_node_def load_def store_def)
  moreover have "waiting ?m' q ns"
    using v(6) by (rule waiting_frame) (use waiting_live[OF v(6)] v(2) in force)
  ultimately show ?thesis using v by (simp add: cv_rep_def)
qed

lemma cv_rep_null:
  assumes "cv_rep m cv ns" and "heap m cv = Some (Cond_Var v)"
  shows "cv_waiters v = NULL \<longleftrightarrow> ns = []"
  using assms by (cases ns) (auto simp: cv_rep_def)

lemma chan_send:
  "chan_laws P inbox \<Longrightarrow>
   inbox (condition_variable_send P source e b c) = (inbox c)(e := inbox c e @ [b])"
  by (simp add: chan_laws_def condition_variable_send_def)

lemma send_all_rep:
  assumes laws: "chan_laws P inbox" and "cv_rep m cv ns"
  shows "\<exists>m' c'. send_all P cv source b m c = Some (Inr (m', c')) \<and> cv_rep m' cv [] \<and>
     (\<forall>p. p \<noteq> cv \<longrightarrow> heap m' p = heap m p) \<and>
     (\<forall>e. inbox c' e = inbox c e @ replicate (count_list (map snd ns) e) b)"
  using assms(2)
proof (induction ns arbitrary: m c)
  case Nil
  then obtain v where "cv \<noteq> NULL" "heap m cv = Some (Cond_Var v)" "cv_waiters v = NULL"
    by (auto simp: cv_rep_def)
  then have "send_all P cv source b m c = Some (Inr (m, c))"
    by (simp add: send_all.simps[of _ _ _ _ m] load_cond_var_def load_def)
  with Nil show ?case by simp
next
  case (Cons n ns)
  obtain w e where n: "n = (w, e)" by (cases n)
  let ?c = "condition_variable_send P source e b c"
  from Cons.prems n obtain v where v: "cv \<noteq> NULL" "heap m cv = Some (Cond_Var v)"
    "cv_waiters v \<noteq> NULL" by (auto simp: cv_rep_def)
  from drop_first_rep Cons.prems n obtain m1 where m1: "drop_first cv m = Inr m1"
    "cv_rep m1 cv ns" "\<forall>p. p \<noteq> cv \<longrightarrow> heap m1 p = heap m p" by blast
  have "send_all P cv source b m c = send_all P cv source b m1 ?c"
    using v m1(1) send_first_rep[of m cv w e ns P source b c] Cons.prems n
    by (simp add: send_all.simps[of _ _ _ _ m] load_cond_var_def load_def)
  with Cons.IH[OF m1(2), of ?c] m1(3) n show ?case
    by (auto simp: chan_send[OF laws] replicate_app_Cons_same)
qed

text \<open>The loop changes no field of the condition variable but the list.\<close>

lemma send_all_lock:
  assumes laws: "chan_laws P inbox" and "cv_rep m cv ns" and "heap m cv = Some (Cond_Var v)"
  shows "\<exists>m' c' v'. send_all P cv source b m c = Some (Inr (m', c')) \<and>
     heap m' cv = Some (Cond_Var v') \<and> cv_lock v' = cv_lock v"
  using assms(2,3)
proof (induction ns arbitrary: m c v)
  case Nil
  then have "cv \<noteq> NULL" "cv_waiters v = NULL" by (auto simp: cv_rep_def)
  with Nil show ?case
    by (simp add: send_all.simps[of _ _ _ _ m] load_cond_var_def load_def)
next
  case (Cons n ns)
  obtain w e where n: "n = (w, e)" by (cases n)
  from Cons.prems n have v: "cv \<noteq> NULL" "cv_waiters v \<noteq> NULL" by (auto simp: cv_rep_def)
  from drop_first_rep Cons.prems n obtain m1 where m1: "drop_first cv m = Inr m1"
    "cv_rep m1 cv ns" by blast
  then obtain v1 where v1: "heap m1 cv = Some (Cond_Var v1)" "cv_lock v1 = cv_lock v"
    using Cons.prems(2) by (auto simp: drop_first_def result_simps mem_simps)
  have "send_all P cv source b m c =
      send_all P cv source b m1 (condition_variable_send P source e b c)"
    using v m1(1) send_first_rep[of m cv w e ns P source b c] Cons.prems n
    by (simp add: send_all.simps[of _ _ _ _ m] load_cond_var_def load_def)
  with Cons.IH[OF m1(2) v1(1)] v1(2) show ?case by simp
qed

section \<open>Properties\<close>

text \<open>Broadcast and terminate reach every waiter exactly once. On a well-formed list of
  waiters their loop ends, without touching any dead node; every channel end receives one
  event byte per time it is in the list, after what it had received before and nothing else;
  the list is empty afterwards, and no other object of the store has changed.\<close>

theorem cv_broadcast_wakes_all:
  assumes "chan_laws P inbox" and "cv_rep m cv ns"
  shows "\<exists>m1 c1 m2 c2.
     condition_variable_broadcast P cv source m c = Some (Inr (m1, c1)) \<and>
     condition_variable_terminate P cv source m c = Some (Inr (m2, c2)) \<and>
     cv_rep m1 cv [] \<and> cv_rep m2 cv [] \<and>
     (\<forall>p. p \<noteq> cv \<longrightarrow> heap m1 p = heap m p \<and> heap m2 p = heap m p) \<and>
     (\<forall>e. inbox c1 e = inbox c e @ replicate (count_list (map snd ns) e) CONDITION_SIGNAL_EVT) \<and>
     (\<forall>e. inbox c2 e = inbox c e @ replicate (count_list (map snd ns) e) CONDITION_TERMINATE_EVT)"
proof -
  have "cv \<noteq> NULL" using assms(2) by (simp add: cv_rep_def)
  then show ?thesis
    using send_all_rep[OF assms, of source CONDITION_SIGNAL_EVT c]
      send_all_rep[OF assms, of source CONDITION_TERMINATE_EVT c]
    by (simp add: condition_variable_broadcast_def condition_variable_terminate_def) blast
qed

text \<open>A condition variable at address 1 with waiters on the channel ends 7 and 5.\<close>

definition two_waiters :: mem where
  "two_waiters =
     empty_mem\<lparr>brk := 4, heap := [1 \<mapsto> Cond_Var \<lparr>cv_lock = 2, cv_waiters = 4\<rparr>,
       2 \<mapsto> Spinlock 0, 3 \<mapsto> Cond_Node \<lparr>node_cend = 5, node_next = 0\<rparr>,
       4 \<mapsto> Cond_Node \<lparr>node_cend = 7, node_next = 3\<rparr>]\<rparr>"

lemma two_waiters_rep: "cv_rep two_waiters 1 [(4, 7), (3, 5)]"
  by (simp add: cv_rep_def two_waiters_def)

lemma list_chans_laws: "chan_laws list_chans snd"
  by (auto simp: chan_laws_def list_chans_def split: list.splits)

theorem cv_broadcast_wakes_all_witness:
  "\<exists>m c. condition_variable_broadcast list_chans 1 9 two_waiters (\<lambda>_. 0, \<lambda>_. []) =
       Some (Inr (m, c)) \<and>
     snd c 7 = [CONDITION_SIGNAL_EVT] \<and> snd c 5 = [CONDITION_SIGNAL_EVT] \<and> snd c 9 = []"
  using cv_broadcast_wakes_all[OF list_chans_laws two_waiters_rep, of 9 "(\<lambda>_. 0, \<lambda>_. [])"]
  by fastforce

text \<open>Signal wakes the waiter that came last. With no waiter it changes nothing; otherwise
  exactly one byte is sent, to the channel end of the most recent waiter, which is taken off
  the list.\<close>

theorem cv_signal_wakes_one:
  assumes "chan_laws P inbox" and rep: "cv_rep m cv ns"
  shows "\<exists>m' c'. condition_variable_signal P cv source m c = Inr (m', c') \<and>
     cv_rep m' cv (tl ns) \<and> (\<forall>p. p \<noteq> cv \<longrightarrow> heap m' p = heap m p) \<and>
     inbox c' = (case ns of [] \<Rightarrow> inbox c
        | (n, e) # _ \<Rightarrow> (inbox c)(e := inbox c e @ [CONDITION_SIGNAL_EVT]))"
proof -
  from rep obtain v where v: "cv \<noteq> NULL" "heap m cv = Some (Cond_Var v)"
    by (auto simp: cv_rep_def)
  note null = cv_rep_null[OF rep v(2)]
  show ?thesis
  proof (cases ns)
    case Nil
    with v null rep show ?thesis
      by (simp add: condition_variable_signal_def load_cond_var_def load_def)
  next
    case (Cons n ms)
    obtain w e where n: "n = (w, e)" by (cases n)
    from drop_first_rep rep Cons n obtain m' where "drop_first cv m = Inr m'"
      "cv_rep m' cv ms" "\<forall>p. p \<noteq> cv \<longrightarrow> heap m' p = heap m p" by blast
    with v null Cons n send_first_rep[of m cv w e ms P source CONDITION_SIGNAL_EVT c] rep
    show ?thesis
      by (simp add: condition_variable_signal_def load_cond_var_def load_def
          chan_send[OF assms(1)])
  qed
qed

theorem cv_signal_wakes_one_witness:
  "\<exists>m c. condition_variable_signal list_chans 1 9 two_waiters (\<lambda>_. 0, \<lambda>_. []) = Inr (m, c) \<and>
     cv_rep m 1 [(3, 5)] \<and> snd c 7 = [CONDITION_SIGNAL_EVT] \<and> snd c 5 = []"
  using cv_signal_wakes_one[OF list_chans_laws two_waiters_rep, of 9 "(\<lambda>_. 0, \<lambda>_. [])"]
  by fastforce

lemma condition_variable_create_ok:
  assumes "\<not> oom m (brk m)" "\<not> oom m (Suc (brk m))"
  shows "condition_variable_create m = Inr (Suc (brk m),
     m\<lparr>brk := Suc (Suc (brk m)), heap := (heap m)
       (Suc (brk m) \<mapsto> Cond_Var \<lparr>cv_lock = Suc (Suc (brk m)), cv_waiters = NULL\<rparr>,
        Suc (Suc (brk m)) \<mapsto> Spinlock SPINLOCK_INITIAL_VALUE)\<rparr>)"
  using assms
  by (simp add: condition_variable_create_def spinlock_create_def malloc_ok store_def
      fun_upd_twist)

lemma condition_variable_delete_ok:
  assumes "cv \<noteq> NULL" "heap m cv = Some (Cond_Var v)" "cv_lock v \<noteq> NULL" "cv_lock v \<noteq> cv"
    "heap m (cv_lock v) \<noteq> None"
  shows "condition_variable_delete cv m =
     Inr (m\<lparr>heap := (heap m)(cv_lock v := None, cv := None)\<rparr>)"
  using assms
  by (simp add: condition_variable_delete_def load_cond_var_def load_def spinlock_delete_def
      free_def)

end
