(* ===== verification/Queue_Metal.thy ===== *)
theory Queue_Metal
  imports Condition_Variable
begin

text \<open>
  The blocking queue of the bare-metal implementation, after \<open>queue_metal.c\<close>: a ring buffer
  with a head, a tail and a flag that tells a full buffer from an empty one, all indices
  being 32-bit words. Here are its sequential parts: creation, the observers, the critical
  sections of \<open>queue_send\<close> and \<open>queue_receive\<close>, deletion. \<open>queue_rep\<close> abstracts the buffer to
  the list of the items in it, oldest first. How threads block, wake up and interleave is the
  subject of theory \<open>Queue_Threads\<close>.

  The mutex is a hardware lock; the handle that \<open>dispatch_mutex_create\<close> returns is an argument.
\<close>

section \<open>Operations\<close>

definition sizeof_queue :: size_t where
  "sizeof_queue = 28"

definition queue_create :: "nat \<Rightarrow> size_t \<Rightarrow> mem \<Rightarrow> (ptr \<times> mem) result" where
  "queue_create mutex len m =
     bindE (assertE (len > 0)) (\<lambda>_.
     let (queue, m) = malloc sizeof_queue m;
         (ring, m) = malloc_ptrs len m;
         q = \<lparr>q_ring_buffer = ring, q_cv = NULL, q_head = 0, q_tail = 0, q_length = len,
              q_mutex = mutex, q_full = False\<rparr>
     in bindE (store queue (Queue q) m) (\<lambda>m.
        bindE (condition_variable_create m) (\<lambda>(cv, m).
        bindE (store queue (Queue (q\<lparr>q_cv := cv\<rparr>)) m) (\<lambda>m.
        Inr (queue, m)))))"

definition queue_full :: "ptr \<Rightarrow> mem \<Rightarrow> bool result" where
  "queue_full queue m =
     bindE (assertE (queue \<noteq> NULL)) (\<lambda>_.
     bindE (load_queue queue m) (\<lambda>q.
     Inr (q_full q)))"

definition queue_empty :: "ptr \<Rightarrow> mem \<Rightarrow> bool result" where
  "queue_empty queue m =
     bindE (assertE (queue \<noteq> NULL)) (\<lambda>_.
     bindE (load_queue queue m) (\<lambda>q.
     Inr (\<not> q_full q \<and> q_head q = q_tail q)))"

definition queue_size :: "ptr \<Rightarrow> mem \<Rightarrow> size_t result" where
  "queue_size queue m =
     bindE (assertE (queue \<noteq> NULL)) (\<lambda>_.
     bindE (load_queue queue m) (\<lambda>q.
     Inr (if \<not> q_full q
          then (if q_head q \<ge> q_tail q then q_head q - q_tail q
                else q_length q + q_head q - q_tail q)
          else q_length q)))"

text \<open>\<open>(i + 1) % length\<close>, the step of both ring-buffer indices.\<close>

definition advance :: "size_t \<Rightarrow> size_t \<Rightarrow> size_t result" where
  "advance i len = (if len = 0 then Inl Division_By_Zero else Inr ((i + 1) mod len))"

text \<open>The critical section of \<open>queue_send\<close>, between the wait loop and the broadcast.\<close>

definition queue_put :: "ptr \<Rightarrow> ptr \<Rightarrow> mem \<Rightarrow> mem result" where
  "queue_put queue item m =
     bindE (load_queue queue m) (\<lambda>q.
     bindE (write_ptr (q_ring_buffer q) (unat (q_head q)) item m) (\<lambda>m.
     bindE (if q_full q then advance (q_tail q) (q_length q) else Inr (q_tail q)) (\<lambda>tail.
     bindE (advance (q_head q) (q_length q)) (\<lambda>head.
     store queue (Queue (q\<lparr>q_tail := tail, q_head := head, q_full := (head = tail)\<rparr>)) m))))"

text \<open>The critical section of \<open>queue_receive\<close>.\<close>

definition queue_get :: "ptr \<Rightarrow> mem \<Rightarrow> (ptr \<times> mem) result" where
  "queue_get queue m =
     bindE (load_queue queue m) (\<lambda>q.
     bindE (read_ptr (q_ring_buffer q) (unat (q_tail q)) m) (\<lambda>item.
     bindE (advance (q_tail q) (q_length q)) (\<lambda>tail.
     bindE (store queue (Queue (q\<lparr>q_full := False, q_tail := tail\<rparr>)) m) (\<lambda>m.
     Inr (item, m)))))"

definition queue_delete ::
  "'c chan_ops \<Rightarrow> ptr \<Rightarrow> chanend \<Rightarrow> mem \<Rightarrow> 'c \<Rightarrow> (mem \<times> 'c) result option" where
  "queue_delete P queue cend m c =
     (case bindE (assertE (queue \<noteq> NULL)) (\<lambda>_.
           bindE (load_queue queue m) (\<lambda>q.
           bindE (assertE (q_ring_buffer q \<noteq> NULL)) (\<lambda>_. Inr q))) of
        Inl e \<Rightarrow> Some (Inl e)
      | Inr q \<Rightarrow>
          map_option (\<lambda>r.
            bindE r (\<lambda>(m, c).
            bindE (condition_variable_delete (q_cv q) m) (\<lambda>m.
            bindE (free (q_ring_buffer q) m) (\<lambda>m.
            bindE (free queue m) (\<lambda>m.
            Inr (m, c))))))
          (condition_variable_terminate P (q_cv q) cend m c))"

section \<open>The abstraction: a list of at most \<open>n\<close> items\<close>

definition queue_rep :: "mem \<Rightarrow> ptr \<Rightarrow> nat \<Rightarrow> ptr list \<Rightarrow> bool" where
  "queue_rep m queue n xs \<longleftrightarrow>
     (\<exists>q buf. queue \<noteq> NULL \<and> heap m queue = Some (Queue q) \<and>
        q_ring_buffer q \<noteq> NULL \<and> heap m (q_ring_buffer q) = Some (Ptr_Array buf) \<and>
        length buf = n \<and> unat (q_length q) = n \<and> 0 < n \<and>
        unat (q_tail q) < n \<and> unat (q_head q) = (unat (q_tail q) + length xs) mod n \<and>
        length xs \<le> n \<and> q_full q = (length xs = n) \<and>
        (\<forall>i < length xs. buf ! ((unat (q_tail q) + i) mod n) = Some (xs ! i)))"

lemma queue_repE:
  assumes "queue_rep m queue n xs"
  obtains q buf where "queue \<noteq> NULL" "heap m queue = Some (Queue q)"
    "q_ring_buffer q \<noteq> NULL" "heap m (q_ring_buffer q) = Some (Ptr_Array buf)"
    "length buf = n" "unat (q_length q) = n" "0 < n" "unat (q_tail q) < n"
    "unat (q_head q) = (unat (q_tail q) + length xs) mod n" "length xs \<le> n"
    "q_full q = (length xs = n)"
    "\<And>i. i < length xs \<Longrightarrow> buf ! ((unat (q_tail q) + i) mod n) = Some (xs ! i)"
  using assms unfolding queue_rep_def by blast

lemma queue_rep_frame:
  assumes "queue_rep m queue n xs"
    and "\<And>p ob. heap m p = Some ob \<Longrightarrow> (\<exists>q. ob = Queue q) \<or> (\<exists>buf. ob = Ptr_Array buf)
      \<Longrightarrow> heap m' p = Some ob"
  shows "queue_rep m' queue n xs"
  using assms(1)
  by (rule queue_repE) (use assms(2) in \<open>fastforce simp: queue_rep_def\<close>)

section \<open>Arithmetic of the ring\<close>

text \<open>Different distances below the length lead to different slots.\<close>

lemma ring_slot_neq:
  fixes t i k n :: nat
  assumes "i < k" and "k < n"
  shows "(t + i) mod n \<noteq> (t + k) mod n"
proof
  assume "(t + i) mod n = (t + k) mod n"
  then have "n dvd k - i"
    using assms mod_eq_dvd_iff_nat[of "t + i" "t + k" n] by simp
  with assms show False using dvd_imp_le[of n "k - i"] by simp
qed

lemma ring_distance:
  fixes t k n :: nat
  assumes "t < n" and "k < n"
  shows "(t + k) mod n = t \<longleftrightarrow> k = 0"
  using ring_slot_neq[of 0 k n t] assms by (cases "k = 0") auto

lemma unat_advance:
  assumes "unat len = n" and "unat i < n"
  shows "\<exists>j. advance i len = Inr j \<and> unat j = (unat i + 1) mod n"
proof -
  have "i < len" using assms by (simp add: word_less_nat_alt)
  moreover have "len \<noteq> 0" using assms by auto
  ultimately show ?thesis using unat_inc_mod[of i len] assms by (simp add: advance_def)
qed

section \<open>Every operation on the abstraction\<close>

text \<open>
  What an insertion or a removal may change: arrays of pointers, and the indices of queues.
\<close>

definition ring_change :: "mem \<Rightarrow> mem \<Rightarrow> bool" where
  "ring_change m m' \<longleftrightarrow> brk m' = brk m \<and> oom m' = oom m \<and>
     (\<forall>p. heap m' p = heap m p \<or>
        (\<exists>q q'. heap m p = Some (Queue q) \<and> heap m' p = Some (Queue q') \<and> q_cv q' = q_cv q \<and>
           q_mutex q' = q_mutex q \<and> q_ring_buffer q' = q_ring_buffer q) \<or>
        (\<exists>a a'. heap m p = Some (Ptr_Array a) \<and> heap m' p = Some (Ptr_Array a')))"

lemma ring_change_keeps:
  assumes "ring_change m m'"
  shows "brk m' = brk m" "oom m' = oom m" "dom (heap m') = dom (heap m)"
    "heap m p = Some ob \<Longrightarrow> \<forall>q. ob \<noteq> Queue q \<Longrightarrow> \<forall>a. ob \<noteq> Ptr_Array a \<Longrightarrow> heap m' p = Some ob"
    "heap m' p = Some ob \<Longrightarrow> \<forall>q. ob \<noteq> Queue q \<Longrightarrow> \<forall>a. ob \<noteq> Ptr_Array a \<Longrightarrow> heap m p = Some ob"
    "heap m p = Some (Queue q) \<Longrightarrow> \<exists>q'. heap m' p = Some (Queue q') \<and> q_cv q' = q_cv q \<and>
       q_mutex q' = q_mutex q \<and> q_ring_buffer q' = q_ring_buffer q"
proof -
  note assms = assms[unfolded ring_change_def]
  show "brk m' = brk m" "oom m' = oom m" using assms by auto
  have "heap m' p = None \<longleftrightarrow> heap m p = None" for p
    using assms by (metis option.distinct(1))
  then show "dom (heap m') = dom (heap m)" by (auto simp: dom_def)
  show "heap m p = Some ob \<Longrightarrow> \<forall>q. ob \<noteq> Queue q \<Longrightarrow> \<forall>a. ob \<noteq> Ptr_Array a \<Longrightarrow> heap m' p = Some ob"
    using assms by (metis option.inject)
  show "heap m' p = Some ob \<Longrightarrow> \<forall>q. ob \<noteq> Queue q \<Longrightarrow> \<forall>a. ob \<noteq> Ptr_Array a \<Longrightarrow> heap m p = Some ob"
    using assms by (metis option.inject)
  show "heap m p = Some (Queue q) \<Longrightarrow> \<exists>q'. heap m' p = Some (Queue q') \<and> q_cv q' = q_cv q \<and>
       q_mutex q' = q_mutex q \<and> q_ring_buffer q' = q_ring_buffer q"
    using assms[THEN conjunct2, THEN conjunct2, rule_format, of p] by auto
qed

lemma queue_full_rep: "queue_rep m queue n xs \<Longrightarrow> queue_full queue m = Inr (length xs = n)"
  by (auto elim!: queue_repE simp: queue_full_def load_queue_def load_def)

lemma queue_empty_rep: "queue_rep m queue n xs \<Longrightarrow> queue_empty queue m = Inr (xs = [])"
proof (erule queue_repE)
  fix q buf
  assume q: "queue \<noteq> NULL" "heap m queue = Some (Queue q)" "unat (q_tail q) < n"
    "unat (q_head q) = (unat (q_tail q) + length xs) mod n" "length xs \<le> n"
    "q_full q = (length xs = n)" "0 < n"
  have "q_head q = q_tail q \<longleftrightarrow> length xs = 0 \<or> length xs = n"
    using ring_distance[OF q(3), of "length xs"] q
    by (auto simp: word_unat_eq_iff)
  with q show ?thesis
    by (auto simp: queue_empty_def load_queue_def load_def)
qed

lemma queue_put_rep:
  assumes rep: "queue_rep m queue n xs" and room: "length xs < n"
  shows "\<exists>m'. queue_put queue item m = Inr m' \<and> queue_rep m' queue n (xs @ [item]) \<and>
     ring_change m m'"
  using rep
proof (rule queue_repE)
  fix q buf
  assume q: "queue \<noteq> NULL" "heap m queue = Some (Queue q)" "q_ring_buffer q \<noteq> NULL"
    "heap m (q_ring_buffer q) = Some (Ptr_Array buf)" "length buf = n" "unat (q_length q) = n"
    "0 < n" "unat (q_tail q) < n" "unat (q_head q) = (unat (q_tail q) + length xs) mod n"
    "q_full q = (length xs = n)"
    and buf: "\<And>i. i < length xs \<Longrightarrow> buf ! ((unat (q_tail q) + i) mod n) = Some (xs ! i)"
  let ?t = "unat (q_tail q)" and ?h = "unat (q_head q)"
  have h: "?h < n" using q by simp
  obtain head where head: "advance (q_head q) (q_length q) = Inr head" "unat head = (?h + 1) mod n"
    using unat_advance[OF q(6) h] by blast
  have head': "unat head = (?t + length (xs @ [item])) mod n"
    using head(2) q(9) by (simp add: mod_Suc_eq)
  have full: "head = q_tail q \<longleftrightarrow> length (xs @ [item]) = n"
  proof (cases "length xs + 1 = n")
    case True
    then show ?thesis using head' q(8) by (simp add: word_unat_eq_iff)
  next
    case False
    then show ?thesis
      using ring_distance[OF q(8), of "length xs + 1"] room head' by (auto simp: word_unat_eq_iff)
  qed
  let ?m' = "m\<lparr>heap := (heap m)(q_ring_buffer q \<mapsto> Ptr_Array (buf[?h := Some item]),
     queue \<mapsto> Queue (q\<lparr>q_head := head, q_full := (head = q_tail q)\<rparr>))\<rparr>"
  have ne: "queue \<noteq> q_ring_buffer q" using q by auto
  have "queue_put queue item m = Inr ?m'"
    using q h head ne room
    by (simp add: queue_put_def load_queue_def load_def write_ptr_def load_ptr_array_def
        write_slot_def store_def)
  moreover have "buf[?h := Some item] ! ((?t + i) mod n) = Some ((xs @ [item]) ! i)"
    if "i < length (xs @ [item])" for i
  proof (cases "i = length xs")
    case True
    then show ?thesis using q(5,9) h by simp
  next
    case False
    with that have "i < length xs" by simp
    then show ?thesis
      using ring_slot_neq[of i "length xs" n ?t] room q(5,9) buf by (simp add: nth_append)
  qed
  then have "queue_rep ?m' queue n (xs @ [item])"
    using q ne room head' full by (auto simp: queue_rep_def)
  moreover have "ring_change m ?m'" using q ne by (auto simp: ring_change_def)
  ultimately show ?thesis by blast
qed

lemma queue_get_rep:
  assumes "queue_rep m queue n (x # xs)"
  shows "\<exists>m'. queue_get queue m = Inr (x, m') \<and> queue_rep m' queue n xs \<and> ring_change m m'"
  using assms
proof (rule queue_repE)
  fix q buf
  assume q: "queue \<noteq> NULL" "heap m queue = Some (Queue q)" "q_ring_buffer q \<noteq> NULL"
    "heap m (q_ring_buffer q) = Some (Ptr_Array buf)" "length buf = n" "unat (q_length q) = n"
    "0 < n" "unat (q_tail q) < n" "unat (q_head q) = (unat (q_tail q) + length (x # xs)) mod n"
    "length (x # xs) \<le> n"
    and buf: "\<And>i. i < length (x # xs) \<Longrightarrow>
      buf ! ((unat (q_tail q) + i) mod n) = Some ((x # xs) ! i)"
  let ?t = "unat (q_tail q)"
  obtain tail where tail: "advance (q_tail q) (q_length q) = Inr tail" "unat tail = (?t + 1) mod n"
    using unat_advance[OF q(6,8)] by blast
  let ?m' = "m\<lparr>heap := (heap m)(queue \<mapsto> Queue (q\<lparr>q_full := False, q_tail := tail\<rparr>))\<rparr>"
  have ne: "queue \<noteq> q_ring_buffer q" using q by auto
  have "buf ! ?t = Some x" using buf[of 0] q(8) by simp
  then have "queue_get queue m = Inr (x, ?m')"
    using q tail
    by (simp add: queue_get_def load_queue_def load_def read_ptr_def load_ptr_array_def
        read_slot_def store_def)
  moreover have "(unat tail + length xs) mod n = unat (q_head q)"
    using tail(2) q(9) by (simp add: mod_add_left_eq)
  moreover have "buf ! ((unat tail + i) mod n) = Some (xs ! i)" if "i < length xs" for i
    using buf[of "Suc i"] that tail(2) by (simp add: mod_add_left_eq)
  ultimately have "queue_get queue m = Inr (x, ?m') \<and> queue_rep ?m' queue n xs"
    using q ne tail(2) by (auto simp: queue_rep_def)
  moreover have "ring_change m ?m'" using q by (auto simp: ring_change_def)
  ultimately show ?thesis by blast
qed

lemma queue_size_rep:
  assumes "queue_rep m queue n xs"
  shows "\<exists>sz. queue_size queue m = Inr sz \<and> unat sz = length xs"
  using assms
proof (rule queue_repE)
  fix q buf
  assume q: "queue \<noteq> NULL" "heap m queue = Some (Queue q)" "unat (q_length q) = n"
    "unat (q_tail q) < n" "unat (q_head q) = (unat (q_tail q) + length xs) mod n"
    "length xs \<le> n" "q_full q = (length xs = n)"
  let ?t = "unat (q_tail q)" and ?h = "unat (q_head q)"
  have words: "q_length q = of_nat n" "q_head q = of_nat ?h" "q_tail q = of_nat ?t"
    using q(3) by auto
  have small: "unat (of_nat (length xs) :: size_t) = length xs"
    using q(3,6) unsigned_less[of "q_length q", where 'a = nat] by (simp add: unat_of_nat)
  have "(if q_head q \<ge> q_tail q then q_head q - q_tail q
      else q_length q + q_head q - q_tail q) = of_nat (length xs)" if "length xs < n"
  proof (cases "?t + length xs < n")
    case True
    then have "?h = ?t + length xs" using q(5) by simp
    then show ?thesis
      using words by (metis add_diff_cancel_left' le_add1 of_nat_diff word_le_nat_alt)
  next
    case False
    then have h: "?h = ?t + length xs - n" using q(4,5) that by (simp add: mod_if)
    then have "?h < ?t" using that False by simp
    moreover have "q_length q + q_head q - q_tail q = of_nat (n + ?h - ?t)"
      using words q(4) by (metis of_nat_add of_nat_diff trans_le_add1 less_imp_le_nat)
    moreover have "n + ?h - ?t = length xs" using h False by simp
    ultimately show ?thesis by (simp add: word_le_nat_alt)
  qed
  with q small show ?thesis
    by (cases "length xs = n") (auto simp: queue_size_def load_queue_def load_def)
qed

text \<open>
  Putting into a full buffer, which the wait loop of \<open>queue_send\<close> rules out: the branch drops
  the oldest item.
\<close>

lemma queue_put_full:
  assumes rep: "queue_rep m queue n xs" and full: "length xs = n"
  shows "\<exists>m'. queue_put queue item m = Inr m' \<and> queue_rep m' queue n (tl xs @ [item])"
  using rep
proof (rule queue_repE)
  fix q buf
  assume q: "queue \<noteq> NULL" "heap m queue = Some (Queue q)" "q_ring_buffer q \<noteq> NULL"
    "heap m (q_ring_buffer q) = Some (Ptr_Array buf)" "length buf = n" "unat (q_length q) = n"
    "0 < n" "unat (q_tail q) < n" "unat (q_head q) = (unat (q_tail q) + length xs) mod n"
    "q_full q = (length xs = n)"
    and buf: "\<And>i. i < length xs \<Longrightarrow> buf ! ((unat (q_tail q) + i) mod n) = Some (xs ! i)"
  let ?t = "unat (q_tail q)"
  have ht: "q_head q = q_tail q" using q(8,9) full by (simp add: word_unat_eq_iff)
  obtain tail where tail: "advance (q_tail q) (q_length q) = Inr tail" "unat tail = (?t + 1) mod n"
    using unat_advance[OF q(6,8)] by blast
  let ?m' = "m\<lparr>heap := (heap m)(q_ring_buffer q \<mapsto> Ptr_Array (buf[?t := Some item]),
     queue \<mapsto> Queue (q\<lparr>q_tail := tail, q_head := tail, q_full := True\<rparr>))\<rparr>"
  have ne: "queue \<noteq> q_ring_buffer q" using q by auto
  have "queue_put queue item m = Inr ?m'"
    using q ht tail ne full
    by (simp add: queue_put_def load_queue_def load_def write_ptr_def load_ptr_array_def
        write_slot_def store_def)
  moreover have "buf[?t := Some item] ! ((unat tail + i) mod n) = Some ((tl xs @ [item]) ! i)"
    if "i < n" for i
  proof (cases "i = n - 1")
    case True
    have "(unat tail + i) mod n = (?t + 1 + i) mod n" using tail(2) by (simp add: mod_add_left_eq)
    also have "?t + 1 + i = ?t + n" using True q(7) by simp
    finally have "(unat tail + i) mod n = ?t" using q(8) by simp
    then show ?thesis using True q(5,8) full by (simp add: nth_append)
  next
    case False
    with that have i: "Suc i < n" by simp
    have "(unat tail + i) mod n = (?t + Suc i) mod n" using tail(2) by (simp add: mod_add_left_eq)
    moreover have "(?t + Suc i) mod n \<noteq> ?t" using ring_distance[OF q(8), of "Suc i"] i by simp
    ultimately show ?thesis
      using buf[of "Suc i"] i full less_diff_conv[of i n 1] by (simp add: nth_append nth_tl)
  qed
  then have "queue_rep ?m' queue n (tl xs @ [item])"
    using q ne full tail(2) by (auto simp: queue_rep_def)
  ultimately show ?thesis by blast
qed

interpretation ring: bounded_fifo "\<lambda>m n xs. queue_rep m queue n xs" "\<lambda>_ _. True"
  "queue_put queue" "queue_get queue" "queue_full queue" "queue_empty queue"
  for queue
proof
  show "length xs \<le> n" if "queue_rep m queue n xs" for m n xs
    using that by (rule queue_repE)
qed (simp_all, metis queue_put_rep, metis queue_get_rep, metis queue_full_rep,
     metis queue_empty_rep)

text \<open>One non-blocking attempt of a send or a receive.\<close>

abbreviation queue_try :: "ptr \<Rightarrow> ptr fifo_op \<Rightarrow> mem \<Rightarrow> (ptr option \<times> mem) option result" where
  "queue_try queue \<equiv> try_op (queue_full queue) (queue_empty queue) (queue_put queue) (queue_get queue)"

section \<open>Creation and deletion\<close>

lemma queue_create_ok:
  assumes "0 < len" and "unat len < 2 ^ 30" and "\<And>i. i < 4 \<Longrightarrow> \<not> oom m (brk m + i)"
  shows "queue_create mutex len m = Inr (Suc (brk m),
     m\<lparr>brk := brk m + 4, heap := (heap m)
       (brk m + 1 \<mapsto> Queue \<lparr>q_ring_buffer = brk m + 2, q_cv = brk m + 3, q_head = 0, q_tail = 0,
            q_length = len, q_mutex = mutex, q_full = False\<rparr>,
        brk m + 2 \<mapsto> Ptr_Array (replicate (unat len) None),
        brk m + 3 \<mapsto> Cond_Var \<lparr>cv_lock = brk m + 4, cv_waiters = NULL\<rparr>,
        brk m + 4 \<mapsto> Spinlock SPINLOCK_INITIAL_VALUE)\<rparr>)"
proof -
  have "\<not> oom m (brk m)" "\<not> oom m (Suc (brk m))" "\<not> oom m (Suc (Suc (brk m)))"
    "\<not> oom m (Suc (Suc (Suc (brk m))))"
    using assms(3)[of 0] assms(3)[of 1] assms(3)[of 2] assms(3)[of 3]
    by (simp_all add: numeral_eq_Suc)
  then show ?thesis
    using assms(1) ptr_slots[OF assms(2)]
    by (simp add: queue_create_def malloc_ok malloc_ptrs_ok store_def
        condition_variable_create_ok numeral_eq_Suc fun_upd_twist)
qed

text \<open>What a successful creation gives, and that deletion takes all of it away again.\<close>

lemma queue_create_rep:
  assumes "0 < len" and "unat len < 2 ^ 30" and "\<And>i. i < 4 \<Longrightarrow> \<not> oom m (brk m + i)"
    and "queue_create mutex len m = Inr (queue, m')"
  shows "queue_rep m' queue (unat len) []"
proof -
  have "unat len > 0" using assms(1) by (simp add: word_less_nat_alt)
  with assms(4) queue_create_ok[OF assms(1-3), of mutex] show ?thesis
    by (auto simp: queue_rep_def)
qed

section \<open>Properties\<close>

text \<open>C36: the ring buffer is a bounded first-in first-out queue. For every sequence of insertions
  and removals, started on a buffer that holds any list of at most \<open>n\<close> items, the 32-bit
  implementation and the list specification agree at every operation: on whether it can
  proceed or would have to wait, on the item it returns, and on what is left; and it never
  faults, whatever the wrap-around of the indices.\<close>

theorem ring_refines_fifo:
  assumes "queue_rep m queue n xs"
  shows "case fifo_run n ps xs of
      None \<Rightarrow> try_run (queue_try queue) ps m = Inr None
    | Some (rs, ys) \<Rightarrow> \<exists>m'. try_run (queue_try queue) ps m = Inr (Some (rs, m')) \<and>
        queue_rep m' queue n ys"
  using assms by (rule ring.try_run_refines) simp

text \<open>A ring buffer of length 2 at address 1, filled across the end of its array.\<close>

definition small_ring :: mem where
  "small_ring = empty_mem\<lparr>brk := 2, heap := [1 \<mapsto> Queue \<lparr>q_ring_buffer = 2, q_cv = 3,
     q_head = 1, q_tail = 1, q_length = 2, q_mutex = 0, q_full = True\<rparr>,
     2 \<mapsto> Ptr_Array [Some 11, Some 10]]\<rparr>"

lemma small_ring_rep: "queue_rep small_ring 1 2 [10, 11]"
  by (auto simp: queue_rep_def small_ring_def less_Suc_eq)

theorem ring_refines_fifo_witness:
  "(\<exists>m. try_run (queue_try 1) [Get, Put 12, Get, Get] small_ring =
      Inr (Some ([Some 10, None, Some 11, Some 12], m)) \<and> queue_rep m 1 2 []) \<and>
   try_run (queue_try 1) [Put 12] small_ring = Inr None"
  using ring_refines_fifo[OF small_ring_rep, of "[Get, Put 12, Get, Get]"]
    ring_refines_fifo[OF small_ring_rep, of "[Put 12]"]
  by simp

text \<open>The observers. On a buffer that holds \<open>xs\<close>, \<open>queue_size\<close> is the number of items, computed
  without error although \<open>length + head - tail\<close> may wrap at 32 bits on the way; \<open>queue_full\<close> and
  \<open>queue_empty\<close> agree with it, and never both hold.\<close>

theorem queue_observers:
  assumes rep: "queue_rep m queue n xs"
  shows "\<exists>sz. queue_size queue m = Inr sz \<and> unat sz = length xs \<and> length xs \<le> n \<and>
     queue_full queue m = Inr (unat sz = n) \<and> queue_empty queue m = Inr (sz = 0) \<and> 0 < n"
proof -
  obtain sz where "queue_size queue m = Inr sz" "unat sz = length xs"
    using queue_size_rep[OF rep] by blast
  moreover have "0 < n" "length xs \<le> n" using rep by (auto elim: queue_repE)
  ultimately show ?thesis
    using queue_full_rep[OF rep] queue_empty_rep[OF rep]
    by (auto simp: unat_eq_0[symmetric] simp del: unat_eq_0)
qed

theorem queue_observers_witness:
  "queue_size 1 small_ring = Inr 2 \<and> queue_full 1 small_ring = Inr True"
proof -
  obtain sz where "queue_size 1 small_ring = Inr sz" "unat sz = 2"
    "queue_full 1 small_ring = Inr (unat sz = 2)"
    using queue_observers[OF small_ring_rep] by auto
  moreover then have "sz = 2" by (simp add: word_unat_eq_iff)
  ultimately show ?thesis by simp
qed

text \<open>The branch for a full buffer. If \<open>queue_put\<close> ran on a full buffer it would silently drop
  the oldest item; this is why \<open>queue_send\<close> waits until the buffer is not full.\<close>

theorem queue_put_branches:
  assumes "queue_rep m queue n xs"
  shows "\<exists>m'. queue_put queue item m = Inr m' \<and>
     queue_rep m' queue n ((if length xs < n then xs else tl xs) @ [item])"
proof (cases "length xs < n")
  case True
  then show ?thesis using queue_put_rep[OF assms, of item] by auto
next
  case False
  then have "length xs = n" using assms by (auto elim: queue_repE)
  then show ?thesis using queue_put_full[OF assms] by simp
qed

theorem queue_put_branches_witness:
  "\<exists>m. queue_put 1 12 small_ring = Inr m \<and> queue_rep m 1 2 [11, 12]"
  using queue_put_branches[OF small_ring_rep, of 12] by simp

text \<open>
  The four blocks of a queue: the struct, the ring buffer, the condition variable and its
  spinlock.
\<close>

definition queue_blocks :: "mem \<Rightarrow> ptr \<Rightarrow> ptr list \<Rightarrow> bool" where
  "queue_blocks m queue bs \<longleftrightarrow>
     (\<exists>q v. heap m queue = Some (Queue q) \<and> heap m (q_cv q) = Some (Cond_Var v) \<and>
        bs = [queue, q_ring_buffer q, q_cv q, cv_lock v] \<and> distinct (NULL # bs) \<and>
        (\<forall>b \<in> set bs. heap m b \<noteq> None))"

lemma queue_delete_ok:
  assumes laws: "chan_laws P inbox" and blocks: "queue_blocks m queue bs"
    and rep: "cv_rep m (bs ! 2) ns"
  shows "\<exists>m' c'. queue_delete P queue cend m c = Some (Inr (m', c')) \<and>
     heap m' = (heap m) |` (- set bs) \<and>
     (\<forall>e. inbox c' e = inbox c e @ replicate (count_list (map snd ns) e) CONDITION_TERMINATE_EVT)"
proof -
  from blocks obtain q v where q: "heap m queue = Some (Queue q)" "heap m (q_cv q) = Some (Cond_Var v)"
    "bs = [queue, q_ring_buffer q, q_cv q, cv_lock v]" "distinct (NULL # bs)"
    "\<And>b. b \<in> set bs \<Longrightarrow> heap m b \<noteq> None"
    by (auto simp: queue_blocks_def)
  from laws have "cv_rep m (q_cv q) ns" using rep q(3) by simp
  from send_all_rep[OF laws this, of cend CONDITION_TERMINATE_EVT c] obtain m1 c1 where
    m1: "send_all P (q_cv q) cend CONDITION_TERMINATE_EVT m c = Some (Inr (m1, c1))"
      "cv_rep m1 (q_cv q) []" "\<And>p. p \<noteq> q_cv q \<Longrightarrow> heap m1 p = heap m p"
      "\<forall>e. inbox c1 e = inbox c e @ replicate (count_list (map snd ns) e) CONDITION_TERMINATE_EVT"
    and lock: "\<exists>v'. heap m1 (q_cv q) = Some (Cond_Var v') \<and> cv_lock v' = cv_lock v"
    using send_all_lock[OF laws \<open>cv_rep m (q_cv q) ns\<close> q(2)] by (metis option.inject sum.inject(2) prod.inject)
  obtain v' where v': "heap m1 (q_cv q) = Some (Cond_Var v')" "cv_lock v' = cv_lock v"
    using lock by blast
  let ?m2 = "m1\<lparr>heap := (heap m1)(cv_lock v := None, q_cv q := None, q_ring_buffer q := None,
      queue := None)\<rparr>"
  have del: "condition_variable_delete (q_cv q) m1 =
      Inr (m1\<lparr>heap := (heap m1)(cv_lock v := None, q_cv q := None)\<rparr>)"
    using condition_variable_delete_ok[OF _ v'(1)] v'(2) q(3-5) m1(3)[of "cv_lock v"] by auto
  have "queue_delete P queue cend m c = Some (Inr (?m2, c1))"
    using q(1,3-5) m1(1) m1(3)[of "q_ring_buffer q"] m1(3)[of queue] del
    by (auto simp: queue_delete_def load_queue_def load_def condition_variable_terminate_def
        free_def)
  moreover have "heap ?m2 = (heap m) |` (- set bs)"
    using m1(3) q(3) by (auto simp: fun_eq_iff restrict_map_def)
  ultimately show ?thesis using m1(4) by blast
qed

text \<open>Deleting a queue, with any contents in its buffer and any waiters registered (none of
  which moves meanwhile), ends: it sends every waiter exactly one terminate event and nothing
  to anybody else, and it frees the four blocks of the queue and no other.\<close>

theorem queue_delete_terminates:
  assumes "chan_laws P inbox" and "queue_blocks m queue bs" and "cv_rep m (bs ! 2) ns"
  shows "\<exists>m' c'. queue_delete P queue cend m c = Some (Inr (m', c')) \<and>
     heap m' = (heap m) |` (- set bs) \<and>
     (\<forall>e. inbox c' e = inbox c e @ replicate (count_list (map snd ns) e) CONDITION_TERMINATE_EVT)"
  using assms by (rule queue_delete_ok)

text \<open>A queue whose condition variable has waiters on the channel ends 7 and 5.\<close>

definition waited_queue :: mem where
  "waited_queue = two_waiters\<lparr>brk := 6, heap := (heap two_waiters)(5 \<mapsto> Queue
     \<lparr>q_ring_buffer = 6, q_cv = 1, q_head = 0, q_tail = 0, q_length = 1, q_mutex = 0,
      q_full = False\<rparr>, 6 \<mapsto> Ptr_Array [None])\<rparr>"

theorem queue_delete_terminates_witness:
  "\<exists>m c. queue_delete list_chans 5 9 waited_queue (\<lambda>_. 0, \<lambda>_. []) = Some (Inr (m, c)) \<and>
     dom (heap m) = {3, 4} \<and> snd c 7 = [CONDITION_TERMINATE_EVT] \<and>
     snd c 5 = [CONDITION_TERMINATE_EVT] \<and> snd c 9 = []"
proof -
  have blocks: "queue_blocks waited_queue 5 [5, 6, 1, 2]"
    by (simp add: queue_blocks_def waited_queue_def two_waiters_def)
  have "cv_rep waited_queue ([5, 6, 1, 2] ! 2) [(4, 7), (3, 5)]"
    by (simp add: cv_rep_def waited_queue_def two_waiters_def)
  from queue_delete_terminates[OF list_chans_laws blocks this, of 9 "(\<lambda>_. 0, \<lambda>_. [])"]
  show ?thesis
    by (fastforce simp: waited_queue_def two_waiters_def)
qed

text \<open>A queue does not leak. Creating a queue, for a positive length whose byte count does
  not wrap, gives an empty queue of that length; deleting it again gives back every block that
  the creation took.\<close>

theorem queue_create_delete:
  assumes ok: "mem_ok m" and len: "0 < len" "unat len < 2 ^ 30"
    and mem: "\<And>i. i < 4 \<Longrightarrow> \<not> oom m (brk m + i)" and laws: "chan_laws P inbox"
  shows "\<exists>queue m1 m2 c2. queue_create mutex len m = Inr (queue, m1) \<and>
     queue_rep m1 queue (unat len) [] \<and>
     queue_delete P queue cend m1 c = Some (Inr (m2, c2)) \<and>
     heap m2 = heap m \<and> inbox c2 = inbox c"
proof -
  let ?b = "brk m"
  let ?bs = "[?b + 1, ?b + 2, ?b + 3, ?b + 4]"
  define m1 where "m1 = m\<lparr>brk := ?b + 4, heap := (heap m)
       (?b + 1 \<mapsto> Queue \<lparr>q_ring_buffer = ?b + 2, q_cv = ?b + 3, q_head = 0, q_tail = 0,
            q_length = len, q_mutex = mutex, q_full = False\<rparr>,
        ?b + 2 \<mapsto> Ptr_Array (replicate (unat len) None),
        ?b + 3 \<mapsto> Cond_Var \<lparr>cv_lock = ?b + 4, cv_waiters = NULL\<rparr>,
        ?b + 4 \<mapsto> Spinlock SPINLOCK_INITIAL_VALUE)\<rparr>"
  have create: "queue_create mutex len m = Inr (?b + 1, m1)"
    using queue_create_ok[OF len mem] by (simp add: m1_def)
  have cv: "cv_rep m1 (?bs ! 2) []" by (simp add: cv_rep_def m1_def)
  have "queue_blocks m1 (?b + 1) ?bs" by (simp add: queue_blocks_def m1_def)
  from queue_delete_ok[OF laws this cv, of cend c] obtain m2 c2 where
    del: "queue_delete P (?b + 1) cend m1 c = Some (Inr (m2, c2))"
      "heap m2 = (heap m1) |` (- set ?bs)" "inbox c2 = inbox c"
    by (auto simp: fun_eq_iff)
  moreover have "(heap m1) |` (- set ?bs) = heap m"
    using ok by (auto simp: m1_def mem_ok_def fun_eq_iff restrict_map_def)
  ultimately show ?thesis using create queue_create_rep[OF len mem create] by auto
qed

theorem queue_create_delete_witness:
  "\<exists>queue m1 m2 c2. queue_create 0 3 empty_mem = Inr (queue, m1) \<and>
     queue_rep m1 queue 3 [] \<and>
     queue_delete list_chans queue 9 m1 (\<lambda>_. 0, \<lambda>_. []) = Some (Inr (m2, c2)) \<and>
     heap m2 = Map.empty"
  using queue_create_delete[of empty_mem 3 list_chans snd 0 9 "(\<lambda>_. 0, \<lambda>_. [])"]
  by (auto simp: list_chans_laws)

end
