(* ===== verification/Queue_Threads.thy ===== *)
theory Queue_Threads
  imports Queue_Metal
begin

text \<open>
  Threads that call \<open>queue_send\<close>, \<open>queue_receive\<close>, \<open>queue_size\<close> and \<open>queue_delete\<close> on one queue, any
  number of times each and interleaved in any way. A thread's program counter names the
  statement it executes next, through the calls into \<open>condition_variable_wait\<close>,
  \<open>condition_variable_broadcast\<close> and \<open>condition_variable_terminate\<close>; every access to shared state
  that another thread can come between is a step of its own. A thread that cannot proceed (a
  mutex or spinlock that is taken, a channel end with no byte) has no step.

  The hardware lock behind \<open>dispatch_mutex_t\<close> is not part of the library: its operations are the
  fields of \<open>lock_ops\<close> and \<open>lock_laws\<close> is what the library relies on. The spinlock of the
  condition variable is taken in one step, which theory \<open>Spinlock\<close> justifies. Channel output
  does not wait for the receiver here; the blocking output of the hardware has fewer
  interleavings.
\<close>

section \<open>The hardware lock\<close>

record 'l lock_ops =
  lk_acquire :: "'l \<Rightarrow> nat \<Rightarrow> nat \<Rightarrow> 'l option"
  lk_release :: "'l \<Rightarrow> nat \<Rightarrow> nat \<Rightarrow> 'l"
  lk_free :: "'l \<Rightarrow> nat \<Rightarrow> 'l"

text \<open>
  \<open>owner l k\<close> is the thread that holds the lock \<open>k\<close>: acquiring waits while there is one and makes
  the caller the owner; releasing by the owner leaves none; other locks are not concerned.
\<close>

definition lock_laws :: "'l lock_ops \<Rightarrow> ('l \<Rightarrow> nat \<Rightarrow> nat option) \<Rightarrow> bool" where
  "lock_laws L owner \<longleftrightarrow>
     (\<forall>l k t. lk_acquire L l k t = None \<longleftrightarrow> owner l k \<noteq> None) \<and>
     (\<forall>l k t l'. lk_acquire L l k t = Some l' \<longrightarrow> owner l' = (owner l)(k := Some t)) \<and>
     (\<forall>l k t. owner l k = Some t \<longrightarrow> owner (lk_release L l k t) = (owner l)(k := None))"

text \<open>Locks that keep the laws: a table of owners.\<close>

definition table_locks :: "(nat \<Rightarrow> nat option) lock_ops" where
  "table_locks =
     \<lparr>lk_acquire = (\<lambda>l k t. if l k = None then Some (l(k := Some t)) else None),
      lk_release = (\<lambda>l k t. l(k := None)),
      lk_free = (\<lambda>l k. l(k := None))\<rparr>"

section \<open>Threads\<close>

text \<open>What a thread calls, and what the call gives back: \<open>Refused\<close> is the result \<open>false\<close>.\<close>

datatype queue_call = Send ptr | Receive | Size | Delete

datatype queue_ret = Sent | Got ptr | Sized size_t | Refused | Deleted

text \<open>Inside \<open>condition_variable_wait\<close>; the argument is the address of the local \<open>waiter\<close>.\<close>

datatype wait_pc =
    W_Spin
  | W_Link
  | W_Unspin ptr
  | W_Unlock ptr
  | W_Block ptr
  | W_Relock ptr

text \<open>Inside \<open>condition_variable_broadcast\<close> or \<open>condition_variable_terminate\<close>.\<close>

datatype bcast_pc = B_Spin | B_Send | B_Next | B_Unspin

datatype queue_pc =
    Outside
  | Enter queue_call
  | Lock queue_call
  | Check queue_call
  | Wait queue_call ptr nat wait_pc
  | Act queue_call
  | Bcast queue_ret ptr bcast_pc
  | Release queue_ret
  | Destroy
  | Returned queue_ret
  | Faulted error

text \<open>
  The state: the store, the channels, the locks, the program counters, and two histories, of
  the items put into the ring buffer and of those taken out of it, each with the thread that
  did so.
\<close>

record ('c, 'l) queue_sys =
  s_mem :: mem
  s_chan :: 'c
  s_lock :: 'l
  s_pc :: "nat \<Rightarrow> queue_pc"
  s_in :: "(nat \<times> ptr) list"
  s_out :: "(nat \<times> ptr) list"

definition goto :: "nat \<Rightarrow> queue_pc \<Rightarrow> ('c, 'l) queue_sys \<Rightarrow> ('c, 'l) queue_sys" where
  "goto t c s = s\<lparr>s_pc := (s_pc s)(t := c)\<rparr>"

text \<open>A step that fails leaves the thread \<open>Faulted\<close>; \<open>None\<close> is a thread that waits.\<close>

definition attempt :: "nat \<Rightarrow> ('c, 'l) queue_sys \<Rightarrow> 'a result \<Rightarrow>
    ('a \<Rightarrow> ('c, 'l) queue_sys option) \<Rightarrow> ('c, 'l) queue_sys option" where
  "attempt t s r f = (case r of Inl e \<Rightarrow> Some (goto t (Faulted e) s) | Inr x \<Rightarrow> f x)"

lemma attempt_simps [simp]:
  "attempt t s (Inl e) f = Some (goto t (Faulted e) s)"
  "attempt t s (Inr x) f = f x"
  by (simp_all add: attempt_def)

text \<open>\<open>dispatch_spinlock_get(cv->lock)\<close> and \<open>dispatch_spinlock_put(cv->lock)\<close>.\<close>

definition spin_get :: "nat \<Rightarrow> ptr \<Rightarrow> mem \<Rightarrow> mem option result" where
  "spin_get t cv m =
     bindE (assertE (cv \<noteq> NULL)) (\<lambda>_.
     bindE (load_cond_var cv m) (\<lambda>v.
     bindE (load_spinlock (cv_lock v) m) (\<lambda>w.
     if w = SPINLOCK_INITIAL_VALUE
     then bindE (store (cv_lock v) (Spinlock (core_value t)) m) (\<lambda>m. Inr (Some m))
     else Inr None)))"

definition spin_put :: "ptr \<Rightarrow> mem \<Rightarrow> mem result" where
  "spin_put cv m =
     bindE (load_cond_var cv m) (\<lambda>v. spinlock_release (cv_lock v) m)"

text \<open>\<open>condition_variable_wait\<close>, called by \<open>op\<close> with the mutex \<open>lk\<close> and the caller's channel end.\<close>

fun wait_step :: "'l lock_ops \<Rightarrow> 'c chan_ops \<Rightarrow> (nat \<Rightarrow> chanend) \<Rightarrow> nat \<Rightarrow> queue_call \<Rightarrow> ptr \<Rightarrow> nat \<Rightarrow>
    wait_pc \<Rightarrow> ('c, 'l) queue_sys \<Rightarrow> ('c, 'l) queue_sys option" where
  "wait_step L P cend t op cv lk W_Spin s =
     attempt t s (spin_get t cv (s_mem s)) (\<lambda>r. case r of
        None \<Rightarrow> None
      | Some m \<Rightarrow> Some (goto t (Wait op cv lk W_Link) (s\<lparr>s_mem := m\<rparr>)))"
| "wait_step L P cend t op cv lk W_Link s =
     attempt t s (wait_enqueue cv (cend t) (s_mem s)) (\<lambda>(w, m).
        Some (goto t (Wait op cv lk (W_Unspin w)) (s\<lparr>s_mem := m\<rparr>)))"
| "wait_step L P cend t op cv lk (W_Unspin w) s =
     attempt t s (spin_put cv (s_mem s)) (\<lambda>m.
        Some (goto t (Wait op cv lk (W_Unlock w)) (s\<lparr>s_mem := m\<rparr>)))"
| "wait_step L P cend t op cv lk (W_Unlock w) s =
     Some (goto t (Wait op cv lk (W_Block w)) (s\<lparr>s_lock := lk_release L (s_lock s) lk t\<rparr>))"
| "wait_step L P cend t op cv lk (W_Block w) s =
     (case in_byte P (s_chan s) (cend t) of
        None \<Rightarrow> None
      | Some (evt, c) \<Rightarrow>
          let s = s\<lparr>s_chan := c\<rparr> in
          if evt = CONDITION_SIGNAL_EVT then Some (goto t (Wait op cv lk (W_Relock w)) s)
          else attempt t s (wait_leave w (s_mem s)) (\<lambda>m.
                 Some (goto t (Returned Refused) (s\<lparr>s_mem := m\<rparr>))))"
| "wait_step L P cend t op cv lk (W_Relock w) s =
     (case lk_acquire L (s_lock s) lk t of
        None \<Rightarrow> None
      | Some l \<Rightarrow>
          let s = s\<lparr>s_lock := l\<rparr> in
          attempt t s (wait_leave w (s_mem s)) (\<lambda>m. Some (goto t (Check op) (s\<lparr>s_mem := m\<rparr>))))"

text \<open>
  \<open>condition_variable_broadcast\<close> and, for a deletion, \<open>condition_variable_terminate\<close>: the same
  loop, with another event byte.
\<close>

definition event_of :: "queue_ret \<Rightarrow> 8 word" where
  "event_of r = (if r = Deleted then CONDITION_TERMINATE_EVT else CONDITION_SIGNAL_EVT)"

fun bcast_step :: "'c chan_ops \<Rightarrow> (nat \<Rightarrow> chanend) \<Rightarrow> nat \<Rightarrow> queue_ret \<Rightarrow> ptr \<Rightarrow> bcast_pc \<Rightarrow>
    ('c, 'l) queue_sys \<Rightarrow> ('c, 'l) queue_sys option" where
  "bcast_step P cend t r cv B_Spin s =
     attempt t s (spin_get t cv (s_mem s)) (\<lambda>r'. case r' of
        None \<Rightarrow> None
      | Some m \<Rightarrow> Some (goto t (Bcast r cv B_Send) (s\<lparr>s_mem := m\<rparr>)))"
| "bcast_step P cend t r cv B_Send s =
     attempt t s (load_cond_var cv (s_mem s)) (\<lambda>v.
       if cv_waiters v \<noteq> NULL then
         attempt t s (send_first P cv (cend t) (event_of r) (s_mem s) (s_chan s)) (\<lambda>c.
           Some (goto t (Bcast r cv B_Next) (s\<lparr>s_chan := c\<rparr>)))
       else Some (goto t (Bcast r cv B_Unspin) s))"
| "bcast_step P cend t r cv B_Next s =
     attempt t s (drop_first cv (s_mem s)) (\<lambda>m.
       Some (goto t (Bcast r cv B_Send) (s\<lparr>s_mem := m\<rparr>)))"
| "bcast_step P cend t r cv B_Unspin s =
     attempt t s (spin_put cv (s_mem s)) (\<lambda>m.
       Some (goto t (if r = Deleted then Destroy else Release r) (s\<lparr>s_mem := m\<rparr>)))"

text \<open>The assertions at the head of each function, and where it goes from there.\<close>

definition queue_enter :: "ptr \<Rightarrow> queue_call \<Rightarrow> mem \<Rightarrow> queue_pc result" where
  "queue_enter queue op m =
     bindE (assertE (queue \<noteq> NULL)) (\<lambda>_.
     bindE (assertE (op \<noteq> Send NULL)) (\<lambda>_.
     bindE (load_queue queue m) (\<lambda>q.
     bindE (assertE (op \<noteq> Size \<longrightarrow> q_ring_buffer q \<noteq> NULL)) (\<lambda>_.
     Inr (if op = Delete then Bcast Deleted (q_cv q) B_Spin else Lock op)))))"

text \<open>The predicate of the wait loop: must the caller wait?\<close>

fun must_wait :: "ptr \<Rightarrow> queue_call \<Rightarrow> mem \<Rightarrow> bool result" where
  "must_wait queue (Send item) m = queue_full queue m"
| "must_wait queue Receive m = queue_empty queue m"
| "must_wait queue op m = Inr False"

text \<open>The critical section of each function.\<close>

fun act_step :: "ptr \<Rightarrow> nat \<Rightarrow> queue_call \<Rightarrow> ('c, 'l) queue_sys \<Rightarrow> ('c, 'l) queue_sys option" where
  "act_step queue t (Send item) s =
     attempt t s (bindE (queue_put queue item (s_mem s)) (\<lambda>m.
                  bindE (load_queue queue m) (\<lambda>q. Inr (m, q_cv q)))) (\<lambda>(m, cv).
       Some (goto t (Bcast Sent cv B_Spin) (s\<lparr>s_mem := m, s_in := s_in s @ [(t, item)]\<rparr>)))"
| "act_step queue t Receive s =
     attempt t s (bindE (queue_get queue (s_mem s)) (\<lambda>(item, m).
                  bindE (load_queue queue m) (\<lambda>q. Inr (item, m, q_cv q)))) (\<lambda>(item, m, cv).
       Some (goto t (Bcast (Got item) cv B_Spin)
         (s\<lparr>s_mem := m, s_out := s_out s @ [(t, item)]\<rparr>)))"
| "act_step queue t Size s =
     attempt t s (queue_size queue (s_mem s)) (\<lambda>n. Some (goto t (Release (Sized n)) s))"
| "act_step queue t Delete s = None"

text \<open>The end of \<open>queue_delete\<close>, after \<open>condition_variable_terminate\<close>.\<close>

definition destroy :: "'l lock_ops \<Rightarrow> ptr \<Rightarrow> mem \<Rightarrow> 'l \<Rightarrow> (mem \<times> 'l) result" where
  "destroy L queue m l =
     bindE (load_queue queue m) (\<lambda>q.
     bindE (condition_variable_delete (q_cv q) m) (\<lambda>m.
     bindE (free (q_ring_buffer q) m) (\<lambda>m.
     bindE (free queue m) (\<lambda>m.
     Inr (m, lk_free L l (q_mutex q))))))"

definition thread_step :: "'l lock_ops \<Rightarrow> 'c chan_ops \<Rightarrow> (nat \<Rightarrow> chanend) \<Rightarrow> ptr \<Rightarrow> nat \<Rightarrow>
    ('c, 'l) queue_sys \<Rightarrow> ('c, 'l) queue_sys option" where
  "thread_step L P cend queue t s =
     (case s_pc s t of
        Outside \<Rightarrow> None
      | Enter op \<Rightarrow> attempt t s (queue_enter queue op (s_mem s)) (\<lambda>c. Some (goto t c s))
      | Lock op \<Rightarrow>
          attempt t s (load_queue queue (s_mem s)) (\<lambda>q.
            map_option (\<lambda>l. goto t (Check op) (s\<lparr>s_lock := l\<rparr>))
              (lk_acquire L (s_lock s) (q_mutex q) t))
      | Check op \<Rightarrow>
          attempt t s (must_wait queue op (s_mem s)) (\<lambda>b.
            if b then attempt t s (load_queue queue (s_mem s)) (\<lambda>q.
              Some (goto t (Wait op (q_cv q) (q_mutex q) W_Spin) s))
            else Some (goto t (Act op) s))
      | Wait op cv lk p \<Rightarrow> wait_step L P cend t op cv lk p s
      | Act op \<Rightarrow> act_step queue t op s
      | Bcast r cv p \<Rightarrow> bcast_step P cend t r cv p s
      | Release r \<Rightarrow>
          attempt t s (load_queue queue (s_mem s)) (\<lambda>q.
            Some (goto t (Returned r) (s\<lparr>s_lock := lk_release L (s_lock s) (q_mutex q) t\<rparr>)))
      | Destroy \<Rightarrow>
          attempt t s (destroy L queue (s_mem s) (s_lock s)) (\<lambda>(m, l).
            Some (goto t (Returned Deleted) (s\<lparr>s_mem := m, s_lock := l\<rparr>)))
      | Returned r \<Rightarrow> None
      | Faulted e \<Rightarrow> None)"

text \<open>
  Steps of the system: a thread executes its next statement, or one that is outside the
  queue's functions calls one of those that \<open>allowed\<close> admits.
\<close>

fun at_rest :: "queue_pc \<Rightarrow> bool" where
  "at_rest Outside = True"
| "at_rest (Returned r) = True"
| "at_rest c = False"

inductive queue_step :: "'l lock_ops \<Rightarrow> 'c chan_ops \<Rightarrow> (nat \<Rightarrow> chanend) \<Rightarrow> ptr \<Rightarrow>
    (queue_call \<Rightarrow> bool) \<Rightarrow> ('c, 'l) queue_sys \<Rightarrow> ('c, 'l) queue_sys \<Rightarrow> bool"
  for L P cend queue allowed where
  run: "thread_step L P cend queue t s = Some s' \<Longrightarrow> queue_step L P cend queue allowed s s'"
| call: "at_rest (s_pc s t) \<Longrightarrow> allowed op \<Longrightarrow>
    queue_step L P cend queue allowed s (goto t (Enter op) s)"

text \<open>The calls of clients that keep to the interface: no null item, and no deletion.\<close>

fun client_call :: "queue_call \<Rightarrow> bool" where
  "client_call (Send item) = (item \<noteq> NULL)"
| "client_call Receive = True"
| "client_call Size = True"
| "client_call Delete = False"

text \<open>
  The store of a queue with items \<open>xs\<close> and waiters \<open>ns\<close>, whose parts are \<open>cv\<close>, its spinlock \<open>sl\<close>
  (with the word \<open>w\<close> in it) and the mutex \<open>mx\<close>.
\<close>

definition queue_store ::
  "ptr \<Rightarrow> nat \<Rightarrow> ptr \<Rightarrow> ptr \<Rightarrow> nat \<Rightarrow> ptr list \<Rightarrow> (ptr \<times> chanend) list \<Rightarrow> 32 word \<Rightarrow> mem \<Rightarrow> bool" where
  "queue_store queue mx cv sl n xs ns w m \<longleftrightarrow>
     mem_ok m \<and> queue_rep m queue n xs \<and> cv_rep m cv ns \<and>
     (\<exists>q. heap m queue = Some (Queue q) \<and> q_cv q = cv \<and> q_mutex q = mx) \<and>
     (\<exists>v. heap m cv = Some (Cond_Var v) \<and> cv_lock v = sl) \<and>
     sl \<noteq> NULL \<and> heap m sl = Some (Spinlock w)"

text \<open>At the start the queue is empty, nobody waits or holds a lock, nothing is in a channel.\<close>

definition queue_init :: "('l \<Rightarrow> nat \<Rightarrow> nat option) \<Rightarrow> ('c \<Rightarrow> chanend \<Rightarrow> 8 word list) \<Rightarrow> ptr \<Rightarrow> nat \<Rightarrow>
    ('c, 'l) queue_sys \<Rightarrow> bool" where
  "queue_init owner inbox queue n s \<longleftrightarrow>
     (\<exists>mx cv sl. queue_store queue mx cv sl n [] [] SPINLOCK_INITIAL_VALUE (s_mem s) \<and>
        owner (s_lock s) mx = None) \<and>
     (\<forall>e. inbox (s_chan s) e = []) \<and> (\<forall>t. s_pc s t = Outside) \<and> s_in s = [] \<and> s_out s = []"

section \<open>The store under every statement\<close>

text \<open>The nodes that are alive.\<close>

definition live :: "mem \<Rightarrow> ptr set" where
  "live m = {w. \<exists>nd. heap m w = Some (Cond_Node nd)}"

lemma queue_storeE:
  assumes "queue_store queue mx cv sl n xs ns w m"
  obtains q v where "mem_ok m" "queue_rep m queue n xs" "cv_rep m cv ns"
    "heap m queue = Some (Queue q)" "q_cv q = cv" "q_mutex q = mx"
    "heap m cv = Some (Cond_Var v)" "cv_lock v = sl" "sl \<noteq> NULL" "heap m sl = Some (Spinlock w)"
    "queue \<noteq> NULL" "cv \<noteq> NULL"
  using assms by (auto simp: queue_store_def cv_rep_def elim: queue_repE)

lemma queue_store_bounds:
  "queue_store queue mx cv sl n xs ns w m \<Longrightarrow> length xs \<le> n \<and> 0 < n \<and> distinct (map fst ns)"
  by (auto simp: queue_store_def elim: queue_repE dest: cv_rep_distinct)

lemma queue_store_load:
  assumes "queue_store queue mx cv sl n xs ns w m"
  obtains q where "queue \<noteq> NULL" "load_queue queue m = Inr q" "q_cv q = cv" "q_mutex q = mx"
    "q_ring_buffer q \<noteq> NULL"
  using assms
  by (auto simp: mem_simps queue_rep_def elim!: queue_storeE)

lemma queue_store_must_wait:
  assumes "queue_store queue mx cv sl n xs ns w m"
  shows "must_wait queue op m =
     Inr (case op of Send x \<Rightarrow> length xs = n | Receive \<Rightarrow> xs = [] | _ \<Rightarrow> False)"
  using assms queue_full_rep queue_empty_rep by (cases op) (auto simp: queue_store_def)

lemma queue_store_ring_change:
  assumes st: "queue_store queue mx cv sl n xs ns w m" and ch: "ring_change m m'"
    and rep: "queue_rep m' queue n ys"
  shows "queue_store queue mx cv sl n ys ns w m' \<and> live m' = live m"
  using st
proof (rule queue_storeE)
  fix q v
  assume a: "mem_ok m" "cv_rep m cv ns" "heap m queue = Some (Queue q)"
    "q_cv q = cv" "q_mutex q = mx" "heap m cv = Some (Cond_Var v)" "cv_lock v = sl" "sl \<noteq> NULL"
    "heap m sl = Some (Spinlock w)"
  note keep = ring_change_keeps[OF ch]
  have "heap m' p = None \<longleftrightarrow> heap m p = None" for p using keep(3) by (metis domIff)
  then have "mem_ok m'" using a(1) keep(1) by (simp add: mem_ok_def)
  moreover have "cv_rep m' cv ns"
    using a(2) by (rule cv_rep_frame) (use keep(4) cv_rep_live[OF a(2)] a(6) in force)+
  moreover have "heap m' cv = Some (Cond_Var v)" "heap m' sl = Some (Spinlock w)"
    using keep(4) a by auto
  moreover have "heap m' p = Some (Cond_Node nd) \<longleftrightarrow> heap m p = Some (Cond_Node nd)" for p nd
    by (rule iffI) (erule keep(4) keep(5), simp, simp)+
  then have "live m' = live m" by (simp add: live_def)
  ultimately show ?thesis using rep keep(6)[OF a(3)] a by (auto simp: queue_store_def)
qed

lemma queue_store_put:
  assumes st: "queue_store queue mx cv sl n xs ns w m" and room: "length xs < n"
  obtains m' where "queue_put queue item m = Inr m'"
    "queue_store queue mx cv sl n (xs @ [item]) ns w m'" "live m' = live m"
  using queue_put_rep[of m queue n xs item] queue_store_ring_change[OF st] assms
  by (auto simp: queue_store_def)

lemma queue_store_get:
  assumes st: "queue_store queue mx cv sl n (x # xs) ns w m"
  obtains m' where "queue_get queue m = Inr (x, m')"
    "queue_store queue mx cv sl n xs ns w m'" "live m' = live m"
  using queue_get_rep[of m queue n x xs] queue_store_ring_change[OF st] assms
  by (auto simp: queue_store_def)

lemma queue_store_size:
  assumes "queue_store queue mx cv sl n xs ns w m"
  obtains sz where "queue_size queue m = Inr sz" "unat sz = length xs"
  using assms queue_size_rep[of m queue n xs] by (auto simp: queue_store_def)

text \<open>Changes outside the ring keep the queue and its buffer.\<close>

lemma queue_rep_upd:
  assumes "queue_rep m queue n xs" and "\<And>p. heap m' p = heap m p \<or>
      (\<forall>q. heap m p \<noteq> Some (Queue q)) \<and> (\<forall>a. heap m p \<noteq> Some (Ptr_Array a))"
  shows "queue_rep m' queue n xs"
  using assms(1) by (rule queue_rep_frame) (use assms(2) in metis)

lemma queue_store_spin:
  assumes st: "queue_store queue mx cv sl n xs ns w m"
  shows "queue_store queue mx cv sl n xs ns w' (m\<lparr>heap := (heap m)(sl \<mapsto> Spinlock w')\<rparr>)"
    "live (m\<lparr>heap := (heap m)(sl \<mapsto> Spinlock w')\<rparr>) = live m"
proof -
  from st obtain q v where a: "mem_ok m" "queue_rep m queue n xs" "cv_rep m cv ns"
    "heap m queue = Some (Queue q)" "q_cv q = cv" "q_mutex q = mx"
    "heap m cv = Some (Cond_Var v)" "cv_lock v = sl" "sl \<noteq> NULL" "heap m sl = Some (Spinlock w)"
    by (rule queue_storeE)
  let ?m = "m\<lparr>heap := (heap m)(sl \<mapsto> Spinlock w')\<rparr>"
  have "queue_rep ?m queue n xs" using a(2) by (rule queue_rep_upd) (use a in auto)
  moreover have "cv_rep ?m cv ns"
    using a(3) by (rule cv_rep_frame) (use a cv_rep_live[OF a(3)] in force)+
  moreover have "mem_ok ?m" using a(1,10) by (rule mem_ok_upd)
  ultimately show "queue_store queue mx cv sl n xs ns w' ?m"
    using a by (auto simp: queue_store_def)
  show "live ?m = live m" using a by (auto simp: live_def)
qed

lemma queue_store_spin_get:
  assumes st: "queue_store queue mx cv sl n xs ns SPINLOCK_INITIAL_VALUE m"
  obtains m' where "spin_get t cv m = Inr (Some m')"
    "queue_store queue mx cv sl n xs ns (core_value t) m'" "live m' = live m"
proof
  from st obtain v where "heap m cv = Some (Cond_Var v)" "cv_lock v = sl" "sl \<noteq> NULL"
    "heap m sl = Some (Spinlock SPINLOCK_INITIAL_VALUE)" "cv \<noteq> NULL" by (rule queue_storeE)
  then show "spin_get t cv m = Inr (Some (m\<lparr>heap := (heap m)(sl \<mapsto> Spinlock (core_value t))\<rparr>))"
    by (simp add: spin_get_def load_cond_var_def load_spinlock_def load_def store_def)
qed (rule queue_store_spin[OF st])+

lemma queue_store_spin_put:
  assumes st: "queue_store queue mx cv sl n xs ns w m"
  obtains m' where "spin_put cv m = Inr m'"
    "queue_store queue mx cv sl n xs ns SPINLOCK_INITIAL_VALUE m'" "live m' = live m"
proof
  from st obtain v where "heap m cv = Some (Cond_Var v)" "cv_lock v = sl" "sl \<noteq> NULL"
    "heap m sl = Some (Spinlock w)" "cv \<noteq> NULL" by (rule queue_storeE)
  then show "spin_put cv m =
      Inr (m\<lparr>heap := (heap m)(sl \<mapsto> Spinlock SPINLOCK_INITIAL_VALUE)\<rparr>)"
    by (simp add: spin_put_def load_cond_var_def spinlock_release_def load_def store_def)
qed (rule queue_store_spin[OF st])+

lemma queue_store_enqueue:
  assumes st: "queue_store queue mx cv sl n xs ns w m"
  obtains wt m' where "wait_enqueue cv e m = Inr (wt, m')" "wt \<notin> live m"
    "live m' = insert wt (live m)" "queue_store queue mx cv sl n xs ((wt, e) # ns) w m'"
  using st
proof (rule queue_storeE)
  fix q v
  assume a: "mem_ok m" "queue_rep m queue n xs" "cv_rep m cv ns" "heap m queue = Some (Queue q)"
    "q_cv q = cv" "q_mutex q = mx" "heap m cv = Some (Cond_Var v)" "cv_lock v = sl" "sl \<noteq> NULL"
    "heap m sl = Some (Spinlock w)" "cv \<noteq> NULL"
  let ?w = "Suc (brk m)"
  from wait_enqueue_rep[OF a(1,3), of e] obtain m' where m': "wait_enqueue cv e m = Inr (?w, m')"
    "mem_ok m'" "cv_rep m' cv ((?w, e) # ns)" "heap m ?w = None"
    "\<And>p. p \<noteq> cv \<Longrightarrow> p \<noteq> ?w \<Longrightarrow> heap m' p = heap m p" by metis
  have cv': "heap m' cv = Some (Cond_Var (v\<lparr>cv_waiters := ?w\<rparr>))"
    "\<exists>nd. heap m' ?w = Some (Cond_Node nd)"
    using m'(1,4) a(7,11)
    by (auto simp: wait_enqueue_def result_simps mem_simps alloca_def)
  have "heap m' p = heap m p \<or> heap m p = Some (Cond_Var v) \<or> heap m p = None" for p
    using m'(4,5) a(7) by metis
  then have "queue_rep m' queue n xs"
    using a(2) by (intro queue_rep_upd[OF a(2)]) fastforce
  moreover have "queue \<noteq> cv" "queue \<noteq> ?w" "sl \<noteq> cv" "sl \<noteq> ?w"
    using m'(4) a(4,7,10) by auto
  then have "heap m' queue = heap m queue" "heap m' sl = heap m sl"
    by (simp_all add: m'(5))
  ultimately have "queue_store queue mx cv sl n xs ((?w, e) # ns) w m'"
    using m'(2,3) a cv' by (simp add: queue_store_def)
  moreover have "live m' = insert ?w (live m)"
    using m'(5) cv' a(7) by (auto simp: live_def) (metis obj.distinct option.inject)+
  moreover have "?w \<notin> live m" using m'(4) by (simp add: live_def)
  ultimately show thesis using that m'(1) by blast
qed

lemma queue_store_send:
  assumes st: "queue_store queue mx cv sl n xs ns w m"
  obtains v where "load_cond_var cv m = Inr v" "cv_waiters v = NULL \<longleftrightarrow> ns = []"
    "\<forall>wt e ns'. ns = (wt, e) # ns' \<longrightarrow>
       send_first P cv src b m c = Inr (condition_variable_send P src e b c)"
proof -
  from st obtain v where v: "heap m cv = Some (Cond_Var v)" "cv \<noteq> NULL" "cv_rep m cv ns"
    by (rule queue_storeE)
  show thesis
  proof
    show "load_cond_var cv m = Inr v" using v by (simp add: mem_simps)
    show "cv_waiters v = NULL \<longleftrightarrow> ns = []" using v by (simp add: cv_rep_null)
    show "\<forall>wt e ns'. ns = (wt, e) # ns' \<longrightarrow>
        send_first P cv src b m c = Inr (condition_variable_send P src e b c)"
      using v(3) by (auto simp: send_first_rep)
  qed
qed

lemma queue_store_drop:
  assumes st: "queue_store queue mx cv sl n xs (nd # ns) w m"
  obtains m' where "drop_first cv m = Inr m'" "queue_store queue mx cv sl n xs ns w m'"
    "live m' = live m"
  using st
proof (rule queue_storeE)
  fix q v
  assume a: "mem_ok m" "queue_rep m queue n xs" "cv_rep m cv (nd # ns)"
    "heap m queue = Some (Queue q)"
    "q_cv q = cv" "q_mutex q = mx" "heap m cv = Some (Cond_Var v)" "cv_lock v = sl" "sl \<noteq> NULL"
    "heap m sl = Some (Spinlock w)" "cv \<noteq> NULL"
  obtain wt e where "nd = (wt, e)" by (cases nd)
  with drop_first_rep a(3) obtain m' where m': "drop_first cv m = Inr m'" "cv_rep m' cv ns"
    "\<And>p. p \<noteq> cv \<Longrightarrow> heap m' p = heap m p" "brk m' = brk m" by metis
  have v': "\<exists>v'. heap m' cv = Some (Cond_Var v') \<and> cv_lock v' = sl"
    using m'(1) a(7,8) by (auto simp: drop_first_def result_simps mem_simps)
  have "heap m' p = heap m p \<or> heap m p = Some (Cond_Var v)" for p
    using m'(3) a(7) by metis
  then have "queue_rep m' queue n xs" by (intro queue_rep_upd[OF a(2)]) fastforce
  moreover have "mem_ok m'"
    using a(1,7,11) m'(3,4) by (metis mem_ok_def mem_ok_live not_le)
  moreover have "live m' = live m"
  proof -
    have "p \<in> live m' \<longleftrightarrow> p \<in> live m" for p
      using m'(3)[of p] v' a(7) by (cases "p = cv") (auto simp: live_def)
    then show ?thesis by blast
  qed
  moreover have "queue \<noteq> cv" "sl \<noteq> cv" using a(4,7,10) by auto
  then have "heap m' queue = heap m queue" "heap m' sl = heap m sl"
    by (simp_all add: m'(3))
  ultimately have "queue_store queue mx cv sl n xs ns w m' \<and> live m' = live m"
    using m'(2) a v' by (simp add: queue_store_def)
  then show thesis using that m'(1) by blast
qed

lemma queue_store_leave:
  assumes st: "queue_store queue mx cv sl n xs ns w m" and wt: "wt \<in> live m" "wt \<notin> fst ` set ns"
  obtains m' where "wait_leave wt m = Inr m'" "queue_store queue mx cv sl n xs ns w m'"
    "live m' = live m - {wt}"
proof
  from st obtain q v where a: "mem_ok m" "queue_rep m queue n xs" "cv_rep m cv ns"
    "heap m queue = Some (Queue q)" "q_cv q = cv" "q_mutex q = mx"
    "heap m cv = Some (Cond_Var v)" "cv_lock v = sl" "sl \<noteq> NULL" "heap m sl = Some (Spinlock w)"
    by (rule queue_storeE)
  from wt(1) obtain nd where nd: "heap m wt = Some (Cond_Node nd)" by (auto simp: live_def)
  let ?m = "m\<lparr>heap := (heap m)(wt := None)\<rparr>"
  show "wait_leave wt m = Inr ?m"
    using nd mem_ok_live[OF a(1) nd] by (simp add: wait_leave_def free_def)
  have "queue_rep ?m queue n xs" using a(2) by (rule queue_rep_upd) (use nd in auto)
  moreover have "cv_rep ?m cv ns"
    using a(3) by (rule cv_rep_frame) (use wt(2) nd a(7) in auto)
  moreover have "mem_ok ?m" using a(1) nd by (rule mem_ok_upd)
  ultimately show "queue_store queue mx cv sl n xs ns w ?m"
    using a nd by (auto simp: queue_store_def)
  show "live ?m = live m - {wt}" by (auto simp: live_def)
qed

end
