(* ===== verification/Queue_Invariant.thy ===== *)
theory Queue_Invariant
  imports Queue_Threads
begin

text \<open>
  The threads of theory \<open>Queue_Threads\<close> never fault, lose an item or miss a wake-up. The
  invariant \<open>queue_inv\<close> joins the store of the queue with an assertion at every statement of
  every thread (\<open>pc_ok\<close>, \<open>thread_inv\<close>); each kind of transition has a lemma on \<open>thread_inv\<close> alone,
  and each statement of the model is one of them together with a lemma on the store. The
  properties follow from the invariant; the last one shows what a deletion in the presence of
  waiters does.
\<close>

section \<open>The invariant\<close>

text \<open>
  What a program counter says about its thread: does it hold the mutex, or the spinlock; which
  node on its stack is in use; is it on its way to wake the waiters; has it sent to the first
  waiter and not yet taken it off the list.
\<close>

fun holds :: "queue_pc \<Rightarrow> bool" where
  "holds (Check op) = True"
| "holds (Wait op cv lk (W_Block w)) = False"
| "holds (Wait op cv lk (W_Relock w)) = False"
| "holds (Wait op cv lk p) = True"
| "holds (Act op) = True"
| "holds (Bcast r cv p) = (r \<noteq> Deleted)"
| "holds (Release r) = True"
| "holds c = False"

fun spins :: "queue_pc \<Rightarrow> bool" where
  "spins (Wait op cv lk W_Link) = True"
| "spins (Wait op cv lk (W_Unspin w)) = True"
| "spins (Bcast r cv p) = (p \<noteq> B_Spin)"
| "spins c = False"

fun node_of :: "queue_pc \<Rightarrow> ptr option" where
  "node_of (Wait op cv lk (W_Unspin w)) = Some w"
| "node_of (Wait op cv lk (W_Unlock w)) = Some w"
| "node_of (Wait op cv lk (W_Block w)) = Some w"
| "node_of (Wait op cv lk (W_Relock w)) = Some w"
| "node_of c = None"

fun waking :: "queue_pc \<Rightarrow> bool" where
  "waking (Bcast r cv p) = (p \<noteq> B_Unspin)"
| "waking c = False"

fun at_next :: "queue_pc \<Rightarrow> bool" where
  "at_next (Bcast r cv p) = (p = B_Next)"
| "at_next c = False"

text \<open>A call that has to wait on a queue with the items \<open>xs\<close>.\<close>

fun starving :: "nat \<Rightarrow> ptr list \<Rightarrow> queue_call \<Rightarrow> bool" where
  "starving n xs (Send item) = (length xs = n)"
| "starving n xs Receive = (xs = [])"
| "starving n xs op = False"

text \<open>
  The assertion at each statement. \<open>ps\<close> are the waiters nobody has sent to yet, \<open>wk\<close> says that
  somebody is waking them, \<open>e\<close> is the thread's channel end and \<open>bs\<close> what has arrived there.
\<close>

fun pc_ok :: "ptr \<Rightarrow> nat \<Rightarrow> nat \<Rightarrow> ptr list \<Rightarrow> (ptr \<times> chanend) list \<Rightarrow> bool \<Rightarrow> chanend \<Rightarrow> 8 word list \<Rightarrow>
    queue_pc \<Rightarrow> bool" where
  "pc_ok cv mx n xs ps wk e bs (Wait op cv' lk p) =
     (cv' = cv \<and> lk = mx \<and> client_call op \<and> op \<noteq> Size \<and>
      (case p of
         W_Spin \<Rightarrow> bs = [] \<and> starving n xs op
       | W_Link \<Rightarrow> bs = [] \<and> starving n xs op
       | W_Unspin w \<Rightarrow> bs = [] \<and> (w, e) \<in> set ps \<and> starving n xs op
       | W_Unlock w \<Rightarrow> bs = [] \<and> (w, e) \<in> set ps \<and> starving n xs op
       | W_Block w \<Rightarrow> (if (w, e) \<in> set ps then bs = [] \<and> (wk \<or> starving n xs op)
                     else bs = [CONDITION_SIGNAL_EVT])
       | W_Relock w \<Rightarrow> (w, e) \<notin> set ps \<and> bs = []))"
| "pc_ok cv mx n xs ps wk e bs (Bcast r cv' p) =
     (cv' = cv \<and> r \<noteq> Deleted \<and> bs = [] \<and> (p = B_Unspin \<longrightarrow> ps = []))"
| "pc_ok cv mx n xs ps wk e bs (Act op) =
     (client_call op \<and> bs = [] \<and>
      (case op of Send item \<Rightarrow> length xs < n | Receive \<Rightarrow> xs \<noteq> [] | _ \<Rightarrow> True))"
| "pc_ok cv mx n xs ps wk e bs (Enter op) = (client_call op \<and> bs = [])"
| "pc_ok cv mx n xs ps wk e bs (Lock op) = (client_call op \<and> bs = [])"
| "pc_ok cv mx n xs ps wk e bs (Check op) = (client_call op \<and> bs = [])"
| "pc_ok cv mx n xs ps wk e bs Destroy = False"
| "pc_ok cv mx n xs ps wk e bs (Faulted err) = False"
| "pc_ok cv mx n xs ps wk e bs c = (bs = [])"

definition owner_pc :: "nat option \<Rightarrow> (nat \<Rightarrow> queue_pc) \<Rightarrow> queue_pc" where
  "owner_pc own pcs = (case own of None \<Rightarrow> Outside | Some t \<Rightarrow> pcs t)"

definition unsignalled :: "queue_pc \<Rightarrow> (ptr \<times> chanend) list \<Rightarrow> (ptr \<times> chanend) list" where
  "unsignalled c ns = (if at_next c then tl ns else ns)"

text \<open>
  The threads together: the mutex has the owner that the program counters say; every thread's
  assertion holds; nodes in use are alive and belong to one thread; the list of waiters holds
  nodes in use only, each with its thread's channel end.
\<close>

definition thread_inv :: "ptr \<Rightarrow> nat \<Rightarrow> nat \<Rightarrow> (nat \<Rightarrow> chanend) \<Rightarrow> nat option \<Rightarrow> (nat \<Rightarrow> queue_pc) \<Rightarrow>
    (chanend \<Rightarrow> 8 word list) \<Rightarrow> ptr set \<Rightarrow> ptr list \<Rightarrow> (ptr \<times> chanend) list \<Rightarrow> bool" where
  "thread_inv cv mx n cend own pcs ib lv xs ns \<longleftrightarrow>
     (\<forall>u. holds (pcs u) \<longleftrightarrow> own = Some u) \<and>
     (\<forall>u. pc_ok cv mx n xs (unsignalled (owner_pc own pcs) ns) (waking (owner_pc own pcs))
        (cend u) (ib (cend u)) (pcs u)) \<and>
     (\<forall>u w. node_of (pcs u) = Some w \<longrightarrow> w \<in> lv) \<and>
     (\<forall>u u' w. node_of (pcs u) = Some w \<longrightarrow> node_of (pcs u') = Some w \<longrightarrow> u = u') \<and>
     (\<forall>w e. (w, e) \<in> set ns \<longrightarrow> (\<exists>u. node_of (pcs u) = Some w \<and> e = cend u)) \<and>
     (at_next (owner_pc own pcs) \<longrightarrow> ns \<noteq> []) \<and> distinct (map fst ns)"

definition queue_inv :: "('l \<Rightarrow> nat \<Rightarrow> nat option) \<Rightarrow> ('c \<Rightarrow> chanend \<Rightarrow> 8 word list) \<Rightarrow> (nat \<Rightarrow> chanend) \<Rightarrow>
    ptr \<Rightarrow> nat \<Rightarrow> nat \<Rightarrow> ptr \<Rightarrow> ptr \<Rightarrow> ptr list \<Rightarrow> (ptr \<times> chanend) list \<Rightarrow> ('c, 'l) queue_sys \<Rightarrow> bool" where
  "queue_inv owner inbox cend queue n mx cv sl xs ns s \<longleftrightarrow>
     (\<exists>w. queue_store queue mx cv sl n xs ns w (s_mem s) \<and>
        (w = SPINLOCK_INITIAL_VALUE \<or> spins (owner_pc (owner (s_lock s) mx) (s_pc s)))) \<and>
     map snd (s_in s) = map snd (s_out s) @ xs \<and>
     thread_inv cv mx n cend (owner (s_lock s) mx) (s_pc s) (inbox (s_chan s)) (live (s_mem s)) xs ns"

subsection \<open>Transitions of the threads\<close>

lemma owner_pc_upd [simp]:
  "owner_pc (Some t) (pcs(t := c)) = c"
  "owner_pc None pcs = Outside"
  "own \<noteq> Some t \<Longrightarrow> owner_pc own (pcs(t := c)) = owner_pc own pcs"
  by (auto simp: owner_pc_def split: option.splits)

lemma owner_pc_Some: "owner_pc (Some t) pcs = pcs t"
  by (simp add: owner_pc_def)

text \<open>The assertion of a thread without the mutex survives what the owner does.\<close>

lemma pc_ok_stable:
  assumes "pc_ok cv mx n xs ps wk e bs c" and "\<not> holds c"
    and "ps' = ps" and "ps = [] \<or> wk' \<or> wk' = wk \<and> xs' = xs"
  shows "pc_ok cv mx n xs' ps' wk' e bs c"
  using assms by (cases c rule: holds.cases) (auto split: if_splits)

lemma pc_ok_node:
  assumes "pc_ok cv mx n xs ps wk e bs c" and "(w, e) \<in> set ps" and "node_of c = Some w"
  shows "\<exists>op. c = Wait op cv mx (W_Unspin w) \<or> c = Wait op cv mx (W_Unlock w) \<or>
     c = Wait op cv mx (W_Block w)"
  using assms by (cases c rule: node_of.cases) auto

text \<open>A statement that changes neither the list of waiters nor the owner of the mutex.\<close>

lemma thread_inv_local:
  assumes inv: "thread_inv cv mx n cend own pcs ib lv xs ns" and c: "pcs t = c"
    and pc: "holds c' = holds c" "node_of c' = node_of c" "\<not> at_next c" "\<not> at_next c'"
    and wake: "holds c \<Longrightarrow> waking c \<Longrightarrow> waking c' \<or> ns = []"
    and xs: "xs' = xs \<or> holds c \<and> waking c'"
    and ok: "pc_ok cv mx n xs' (unsignalled (owner_pc own pcs) ns) (waking (owner_pc own (pcs(t := c'))))
        (cend t) (ib (cend t)) c'"
  shows "thread_inv cv mx n cend own (pcs(t := c')) ib lv xs' ns"
proof -
  note inv = inv[unfolded thread_inv_def]
  have own: "holds c \<longleftrightarrow> own = Some t" using inv c by auto
  let ?o = "owner_pc own pcs" and ?o' = "owner_pc own (pcs(t := c'))"
  have un: "unsignalled ?o' ns = unsignalled ?o ns" "at_next ?o' = at_next ?o"
    using own c pc by (cases "own = Some t"; simp add: unsignalled_def owner_pc_Some)+
  have st: "unsignalled ?o ns = [] \<or> waking ?o' \<or> waking ?o' = waking ?o \<and> xs' = xs"
    using own c wake xs pc by (cases "own = Some t") (auto simp: unsignalled_def owner_pc_Some)
  have "pc_ok cv mx n xs' (unsignalled ?o' ns) (waking ?o') (cend u) (ib (cend u)) ((pcs(t := c')) u)"
    for u
  proof (cases "u = t")
    case True
    then show ?thesis using ok un by simp
  next
    case False
    have old: "pc_ok cv mx n xs (unsignalled ?o ns) (waking ?o) (cend u) (ib (cend u)) (pcs u)"
      using inv by blast
    show ?thesis
    proof (cases "own = Some t")
      case True
      with False have "\<not> holds (pcs u)" using inv by auto
      then show ?thesis using pc_ok_stable[OF old _ un(1) st] False by simp
    next
      case other: False
      with own xs have "xs' = xs" by simp
      with other old False show ?thesis by simp
    qed
  qed
  moreover have "\<forall>u. holds ((pcs(t := c')) u) \<longleftrightarrow> own = Some u"
    using inv pc(1) c by auto
  moreover have "node_of ((pcs(t := c')) u) = node_of (pcs u)" for u
    using pc(2) c by simp
  ultimately show ?thesis
    using inv un(2) unfolding thread_inv_def by simp
qed

text \<open>Taking the mutex; a thread that comes back from waiting ends the life of its node.\<close>

lemma thread_inv_acquire:
  assumes inv: "thread_inv cv mx n cend None pcs ib lv xs ns" and c: "pcs t = c"
    and pc: "holds c'" "node_of c' = None" "\<not> at_next c'"
    and lv: "\<And>w. w \<in> lv \<Longrightarrow> node_of c \<noteq> Some w \<Longrightarrow> w \<in> lv'"
    and gone: "\<And>w. node_of c = Some w \<Longrightarrow> w \<notin> fst ` set ns"
    and ok: "pc_ok cv mx n xs ns (waking c') (cend t) (ib (cend t)) c'"
    and wake: "\<not> waking c'"
  shows "thread_inv cv mx n cend (Some t) (pcs(t := c')) ib lv' xs ns"
proof -
  note inv = inv[unfolded thread_inv_def]
  have free: "\<not> holds (pcs u)" for u using inv by simp
  have "pc_ok cv mx n xs ns False (cend u) (ib (cend u)) (pcs u)" for u
    using inv by (simp add: unsignalled_def)
  then have "\<forall>u. pc_ok cv mx n xs (unsignalled c' ns) (waking c') (cend u) (ib (cend u))
      ((pcs(t := c')) u)"
    using ok wake pc(3) by (simp add: unsignalled_def)
  moreover have "\<forall>u. holds ((pcs(t := c')) u) \<longleftrightarrow> Some t = Some u"
    using free pc(1) by simp
  moreover have "\<forall>u w. node_of ((pcs(t := c')) u) = Some w \<longrightarrow> w \<in> lv'"
    using inv lv c pc(2) by (metis fun_upd_apply option.distinct(1))
  moreover have "\<forall>u u' w. node_of ((pcs(t := c')) u) = Some w \<longrightarrow>
      node_of ((pcs(t := c')) u') = Some w \<longrightarrow> u = u'"
    using inv pc(2) by (auto split: if_splits)
  moreover have "\<forall>w e. (w, e) \<in> set ns \<longrightarrow> (\<exists>u. node_of ((pcs(t := c')) u) = Some w \<and> e = cend u)"
  proof (intro allI impI)
    fix w e
    assume w: "(w, e) \<in> set ns"
    then obtain u where u: "node_of (pcs u) = Some w" "e = cend u" using inv by blast
    then have "u \<noteq> t" using gone c w by force
    with u show "\<exists>u. node_of ((pcs(t := c')) u) = Some w \<and> e = cend u"
      by (intro exI[of _ u]) simp
  qed
  ultimately show ?thesis
    unfolding thread_inv_def owner_pc_upd(1) using inv pc(3) by blast
qed

lemma thread_inv_release:
  assumes inv: "thread_inv cv mx n cend (Some t) pcs ib lv xs ns" and c: "pcs t = c"
    and pc: "\<not> holds c'" "node_of c' = node_of c" "\<not> at_next c" "\<not> waking c"
    and ok: "pc_ok cv mx n xs ns False (cend t) (ib (cend t)) c'"
  shows "thread_inv cv mx n cend None (pcs(t := c')) ib lv xs ns"
proof -
  note inv = inv[unfolded thread_inv_def owner_pc_Some c]
  have "pc_ok cv mx n xs ns False (cend u) (ib (cend u)) (pcs u)" for u
    using inv pc(3,4) by (simp add: unsignalled_def)
  then have "\<forall>u. pc_ok cv mx n xs (unsignalled Outside ns) (waking Outside) (cend u)
      (ib (cend u)) ((pcs(t := c')) u)"
    using ok by (simp add: unsignalled_def)
  moreover have "\<not> holds ((pcs(t := c')) u)" for u
    using inv pc(1) by simp
  moreover have "node_of ((pcs(t := c')) u) = node_of (pcs u)" for u
    using pc(2) c by simp
  ultimately show ?thesis using inv unfolding thread_inv_def by simp
qed

text \<open>A new waiter at the front of the list.\<close>

lemma thread_inv_link:
  assumes inv: "thread_inv cv mx n cend (Some t) pcs ib lv xs ns"
    and c: "pcs t = Wait op cv mx W_Link" and w: "w \<notin> lv"
  shows "thread_inv cv mx n cend (Some t) (pcs(t := Wait op cv mx (W_Unspin w))) ib (insert w lv)
     xs ((w, cend t) # ns)"
proof -
  let ?c = "Wait op cv mx (W_Unspin w)" and ?ns = "(w, cend t) # ns"
  note inv = inv[unfolded thread_inv_def owner_pc_Some c]
  have nodes: "node_of (pcs u) \<noteq> Some w" for u using inv w by blast
  have fresh: "w \<notin> fst ` set ns"
  proof
    assume "w \<in> fst ` set ns"
    then obtain e where "(w, e) \<in> set ns" by force
    with inv nodes show False by blast
  qed
  have old: "pc_ok cv mx n xs ns False (cend u) (ib (cend u)) (pcs u)" for u
    using inv by (simp add: unsignalled_def)
  have "pc_ok cv mx n xs ?ns False (cend u) (ib (cend u)) ((pcs(t := ?c)) u)" for u
  proof (cases "u = t")
    case True
    then show ?thesis using old[of t] c by simp
  next
    case False
    moreover have "\<not> holds (pcs u)" using inv False by auto
    ultimately show ?thesis
      using old[of u] nodes[of u] by (cases "pcs u" rule: holds.cases) auto
  qed
  moreover have "\<forall>u. holds ((pcs(t := ?c)) u) \<longleftrightarrow> Some t = Some u" using inv by auto
  moreover have "\<forall>u v. node_of ((pcs(t := ?c)) u) = Some v \<longrightarrow> v \<in> insert w lv"
    using inv by auto
  moreover have "\<forall>u u' v. node_of ((pcs(t := ?c)) u) = Some v \<longrightarrow>
      node_of ((pcs(t := ?c)) u') = Some v \<longrightarrow> u = u'"
    using inv nodes by (auto split: if_splits)
  moreover have "\<forall>v e. (v, e) \<in> set ?ns \<longrightarrow> (\<exists>u. node_of ((pcs(t := ?c)) u) = Some v \<and> e = cend u)"
  proof (intro allI impI)
    fix v e
    assume v: "(v, e) \<in> set ?ns"
    show "\<exists>u. node_of ((pcs(t := ?c)) u) = Some v \<and> e = cend u"
    proof (cases "(v, e) = (w, cend t)")
      case True
      then show ?thesis by (intro exI[of _ t]) simp
    next
      case False
      with v have "(v, e) \<in> set ns" by auto
      with inv obtain u where "node_of (pcs u) = Some v" "e = cend u" by blast
      then show ?thesis using c by (intro exI[of _ u]) auto
    qed
  qed
  moreover have "unsignalled ?c ?ns = ?ns" "waking ?c = False" "\<not> at_next ?c"
    "distinct (map fst ?ns)"
    using inv fresh by (simp_all add: unsignalled_def)
  ultimately show ?thesis unfolding thread_inv_def owner_pc_upd(1) by presburger
qed

text \<open>
  The byte for the first waiter \<open>(w, e)\<close>: its thread is blocked on \<open>e\<close>, and nobody else is
  concerned.
\<close>

lemma thread_inv_send:
  assumes inv: "thread_inv cv mx n cend (Some t) pcs ib lv xs ((w, e) # ns)" and cend: "inj cend"
    and c: "pcs t = Bcast r cv B_Send"
  shows "thread_inv cv mx n cend (Some t) (pcs(t := Bcast r cv B_Next))
     (ib(e := ib e @ [CONDITION_SIGNAL_EVT])) lv xs ((w, e) # ns)"
proof -
  let ?c = "Bcast r cv B_Next" and ?ib = "ib(e := ib e @ [CONDITION_SIGNAL_EVT])"
  note inv = inv[unfolded thread_inv_def owner_pc_Some c]
  have old: "pc_ok cv mx n xs ((w, e) # ns) True (cend u) (ib (cend u)) (pcs u)" for u
    using inv by (simp add: unsignalled_def)
  have noh: "u \<noteq> t \<Longrightarrow> \<not> holds (pcs u)" for u using inv by auto
  obtain u0 where u0: "node_of (pcs u0) = Some w" "e = cend u0"
    using inv by (meson list.set_intros(1))
  have "u0 \<noteq> t" using u0 c by auto
  have fresh: "w \<notin> fst ` set ns" using inv by simp
  have "pc_ok cv mx n xs ns True (cend u) (?ib (cend u)) ((pcs(t := ?c)) u)" for u
  proof (cases "u = t")
    case True
    with \<open>u0 \<noteq> t\<close> u0(2) cend have "cend t \<noteq> e" by (auto dest: injD)
    with True show ?thesis using old[of t] c by simp
  next
    case ut: False
    show ?thesis
    proof (cases "u = u0")
      case True
      obtain op where "pcs u0 = Wait op cv mx (W_Block w)"
        using pc_ok_node[OF old[of u0]] u0 noh[OF \<open>u0 \<noteq> t\<close>] by fastforce
      with old[of u0] True ut u0(2) fresh show ?thesis by force
    next
      case False
      with u0(2) cend have ne: "cend u \<noteq> e" by (auto dest: injD)
      then have "(v, cend u) \<in> set ((w, e) # ns) \<longleftrightarrow> (v, cend u) \<in> set ns" for v by simp
      with old[of u] noh[OF ut] ut ne show ?thesis
        by (cases "pcs u" rule: holds.cases) (auto split: if_splits)
    qed
  qed
  moreover have "r \<noteq> Deleted" using old[of t] c by simp
  then have "\<forall>u. holds ((pcs(t := ?c)) u) \<longleftrightarrow> Some t = Some u" using inv by auto
  moreover have "node_of ((pcs(t := ?c)) u) = node_of (pcs u)" for u using c by simp
  moreover have "unsignalled ?c ((w, e) # ns) = ns" "waking ?c = True" "(w, e) # ns \<noteq> []"
    by (simp_all add: unsignalled_def)
  ultimately show ?thesis unfolding thread_inv_def owner_pc_upd(1) using inv by presburger
qed

lemma thread_inv_next:
  assumes inv: "thread_inv cv mx n cend (Some t) pcs ib lv xs (nd # ns)"
    and c: "pcs t = Bcast r cv B_Next"
  shows "thread_inv cv mx n cend (Some t) (pcs(t := Bcast r cv B_Send)) ib lv xs ns"
proof -
  let ?c = "Bcast r cv B_Send"
  note inv = inv[unfolded thread_inv_def owner_pc_Some c]
  have old: "pc_ok cv mx n xs ns True (cend u) (ib (cend u)) (pcs u)" for u
    using inv by (simp add: unsignalled_def)
  then have "pc_ok cv mx n xs ns True (cend u) (ib (cend u)) ((pcs(t := ?c)) u)" for u
    using c by (metis fun_upd_apply pc_ok.simps(2) bcast_pc.distinct(9))
  moreover have "r \<noteq> Deleted" using old[of t] c by simp
  then have "\<forall>u. holds ((pcs(t := ?c)) u) \<longleftrightarrow> Some t = Some u" using inv by auto
  moreover have "node_of ((pcs(t := ?c)) u) = node_of (pcs u)" for u using c by simp
  moreover have "unsignalled ?c ns = ns" "waking ?c = True" "\<not> at_next ?c"
    by (simp_all add: unsignalled_def)
  moreover have "\<forall>w e. (w, e) \<in> set ns \<longrightarrow> (\<exists>u. node_of (pcs u) = Some w \<and> e = cend u)"
    "distinct (map fst ns)"
    using inv by simp_all
  ultimately show ?thesis unfolding thread_inv_def owner_pc_upd(1) using inv by presburger
qed

lemma thread_inv_input:
  assumes inv: "thread_inv cv mx n cend own pcs ib lv xs ns" and cend: "inj cend"
    and c: "pcs t = Wait op cv mx (W_Block w)" and ib: "ib = ib'(cend t := b # ib' (cend t))"
  shows "b = CONDITION_SIGNAL_EVT \<and>
     thread_inv cv mx n cend own (pcs(t := Wait op cv mx (W_Relock w))) ib' lv xs ns"
proof -
  let ?c = "Wait op cv mx (W_Relock w)" and ?o = "owner_pc own pcs"
  note inv = inv[unfolded thread_inv_def]
  have old: "pc_ok cv mx n xs (unsignalled ?o ns) (waking ?o) (cend u) (ib (cend u)) (pcs u)" for u
    using inv by blast
  have own: "own \<noteq> Some t" using inv c by (metis holds.simps(2))
  have ib_t: "ib (cend t) = b # ib' (cend t)" using ib by (simp add: fun_eq_iff)
  have b: "b = CONDITION_SIGNAL_EVT" "ib' (cend t) = []" "(w, cend t) \<notin> set (unsignalled ?o ns)"
    using old[of t] c ib_t by (auto split: if_splits)
  have same: "u \<noteq> t \<Longrightarrow> ib (cend u) = ib' (cend u)" for u
    using ib cend by (auto dest: injD)
  have "pc_ok cv mx n xs (unsignalled ?o ns) (waking ?o) (cend u) (ib' (cend u)) ((pcs(t := ?c)) u)"
    for u
    using old[of u] same[of u] b old[of t] c by (cases "u = t") auto
  moreover have "\<forall>u. holds ((pcs(t := ?c)) u) \<longleftrightarrow> own = Some u" using inv own by auto
  moreover have "node_of ((pcs(t := ?c)) u) = node_of (pcs u)" for u using c by simp
  ultimately show ?thesis
    unfolding thread_inv_def owner_pc_upd(3)[OF own] using inv b(1) by presburger
qed

subsection \<open>Every step keeps the invariant\<close>

lemma thread_inv_owner:
  "thread_inv cv mx n cend own pcs ib lv xs ns \<Longrightarrow> pcs t = c \<Longrightarrow> holds c \<longleftrightarrow> own = Some t"
  by (auto simp: thread_inv_def)

lemma thread_inv_ok:
  "thread_inv cv mx n cend own pcs ib lv xs ns \<Longrightarrow> pcs t = c \<Longrightarrow>
   pc_ok cv mx n xs (unsignalled (owner_pc own pcs) ns) (waking (owner_pc own pcs))
     (cend t) (ib (cend t)) c"
  by (auto simp: thread_inv_def)

lemma thread_inv_node:
  "thread_inv cv mx n cend own pcs ib lv xs ns \<Longrightarrow> pcs t = c \<Longrightarrow> node_of c = Some w \<Longrightarrow>
   w \<in> lv \<and> (\<forall>u. node_of (pcs u) = Some w \<longrightarrow> u = t)"
  unfolding thread_inv_def by blast

lemma queue_invE:
  assumes "queue_inv owner inbox cend queue n mx cv sl xs ns s"
  obtains w where "queue_store queue mx cv sl n xs ns w (s_mem s)"
    "w = SPINLOCK_INITIAL_VALUE \<or> spins (owner_pc (owner (s_lock s) mx) (s_pc s))"
    "map snd (s_in s) = map snd (s_out s) @ xs"
    "thread_inv cv mx n cend (owner (s_lock s) mx) (s_pc s) (inbox (s_chan s)) (live (s_mem s)) xs ns"
  using assms by (auto simp: queue_inv_def)

text \<open>A step of the owner, or of a thread that leaves store and lock alone.\<close>

lemma queue_inv_holder:
  assumes "queue_store queue mx cv sl n xs ns w (s_mem s)"
    and "w = SPINLOCK_INITIAL_VALUE \<or> spins c"
    and "map snd (s_in s) = map snd (s_out s) @ xs"
    and "owner (s_lock s) mx = Some t"
    and "thread_inv cv mx n cend (Some t) ((s_pc s)(t := c)) (inbox (s_chan s)) (live (s_mem s)) xs ns"
  shows "queue_inv owner inbox cend queue n mx cv sl xs ns (goto t c s)"
  using assms by (auto simp: queue_inv_def goto_def)

lemma queue_inv_goto:
  assumes inv: "queue_inv owner inbox cend queue n mx cv sl xs ns s"
    and pc: "s_pc s t = c" "holds c' = holds c" "spins c' = spins c" "node_of c' = node_of c"
      "\<not> at_next c" "\<not> at_next c'" "waking c' = waking c"
    and ok: "pc_ok cv mx n xs (unsignalled (owner_pc (owner (s_lock s) mx) (s_pc s)) ns)
        (waking (owner_pc (owner (s_lock s) mx) (s_pc s))) (cend t) (inbox (s_chan s) (cend t)) c'"
  shows "queue_inv owner inbox cend queue n mx cv sl xs ns (goto t c' s)"
  using inv
proof (rule queue_invE)
  fix w
  let ?own = "owner (s_lock s) mx"
  assume a: "queue_store queue mx cv sl n xs ns w (s_mem s)"
    "w = SPINLOCK_INITIAL_VALUE \<or> spins (owner_pc ?own (s_pc s))"
    "map snd (s_in s) = map snd (s_out s) @ xs"
    and ti: "thread_inv cv mx n cend ?own (s_pc s) (inbox (s_chan s)) (live (s_mem s)) xs ns"
  have same: "spins (owner_pc ?own ((s_pc s)(t := c'))) = spins (owner_pc ?own (s_pc s))"
    "waking (owner_pc ?own ((s_pc s)(t := c'))) = waking (owner_pc ?own (s_pc s))"
    using pc by (cases "?own = Some t"; simp add: owner_pc_Some)+
  have "thread_inv cv mx n cend ?own ((s_pc s)(t := c')) (inbox (s_chan s)) (live (s_mem s)) xs ns"
    using ti pc(1,2,4-6) by (rule thread_inv_local) (use pc ok same in auto)
  with a same show ?thesis by (auto simp: queue_inv_def goto_def)
qed

lemma bcast_step_inv:
  assumes laws: "chan_laws P inbox" "inj cend"
    and inv: "queue_inv owner inbox cend queue n mx cv sl xs ns s"
    and pc: "s_pc s t = Bcast r cv' p" and step: "bcast_step P cend t r cv' p s = Some s'"
  shows "\<exists>ns'. queue_inv owner inbox cend queue n mx cv sl xs ns' s'"
  using inv
proof (rule queue_invE)
  fix w
  let ?own = "owner (s_lock s) mx" and ?ib = "inbox (s_chan s)"
  assume st: "queue_store queue mx cv sl n xs ns w (s_mem s)"
    and word: "w = SPINLOCK_INITIAL_VALUE \<or> spins (owner_pc ?own (s_pc s))"
    and hist: "map snd (s_in s) = map snd (s_out s) @ xs"
    and ti: "thread_inv cv mx n cend ?own (s_pc s) ?ib (live (s_mem s)) xs ns"
  note ok = thread_inv_ok[OF ti pc]
  have cv: "cv' = cv" "r \<noteq> Deleted" "?ib (cend t) = []" using ok by simp_all
  then have own: "?own = Some t" using thread_inv_owner[OF ti pc] by simp
  note ti = ti[unfolded own] and word = word[unfolded own owner_pc_Some pc]
    and pc = pc[unfolded cv] and ok = ok[unfolded own owner_pc_Some pc]
  show ?thesis
  proof (cases p)
    case B_Spin
    with word have "w = SPINLOCK_INITIAL_VALUE" by simp
    note st = st[unfolded this]
    obtain m' where m': "spin_get t cv (s_mem s) = Inr (Some m')"
      "queue_store queue mx cv sl n xs ns (core_value t) m'" "live m' = live (s_mem s)"
      using st by (rule queue_store_spin_get)
    have "thread_inv cv mx n cend (Some t) ((s_pc s)(t := Bcast r cv B_Send)) ?ib (live m') xs ns"
      unfolding m'(3) using ti pc by (rule thread_inv_local) (use cv B_Spin in auto)
    with m' st hist own step cv B_Spin show ?thesis
      by (auto intro!: exI[of _ ns] queue_inv_holder)
  next
    case B_Send
    obtain v where v: "load_cond_var cv (s_mem s) = Inr v" "cv_waiters v = NULL \<longleftrightarrow> ns = []"
      "\<forall>wt e ns'. ns = (wt, e) # ns' \<longrightarrow> send_first P cv (cend t) (event_of r) (s_mem s) (s_chan s) =
         Inr (condition_variable_send P (cend t) e (event_of r) (s_chan s))"
      using st
      by (rule queue_store_send[where P = P and src = "cend t" and b = "event_of r" and
            c = "s_chan s"])
    show ?thesis
    proof (cases ns)
      case Nil
      have "thread_inv cv mx n cend (Some t) ((s_pc s)(t := Bcast r cv B_Unspin)) ?ib
          (live (s_mem s)) xs ns"
        using ti pc by (rule thread_inv_local)
          (use cv B_Send Nil pc in \<open>auto simp: owner_pc_Some unsignalled_def\<close>)
      with st hist own step cv B_Send v Nil show ?thesis
        by (auto intro!: exI[of _ ns] queue_inv_holder)
    next
      case (Cons nd ms)
      obtain wt e where nd: "nd = (wt, e)" by (cases nd)
      have "thread_inv cv mx n cend (Some t) ((s_pc s)(t := Bcast r cv B_Next))
          (?ib(e := ?ib e @ [CONDITION_SIGNAL_EVT])) (live (s_mem s)) xs ns"
        using thread_inv_send[OF ti[unfolded Cons nd] laws(2)] pc B_Send Cons nd by simp
      with st hist own step cv B_Send v Cons nd show ?thesis
        by (auto intro!: exI[of _ ns] queue_inv_holder simp: chan_send[OF laws(1)] event_of_def)
    qed
  next
    case B_Next
    have "ns \<noteq> []" using ti pc B_Next by (auto simp: thread_inv_def owner_pc_Some)
    then obtain nd ms where ns: "ns = nd # ms" by (cases ns) auto
    with st obtain m' where m': "drop_first cv (s_mem s) = Inr m'"
      "queue_store queue mx cv sl n xs ms w m'" "live m' = live (s_mem s)"
      by (auto elim: queue_store_drop)
    have "thread_inv cv mx n cend (Some t) ((s_pc s)(t := Bcast r cv B_Send)) ?ib (live m') xs ms"
      using thread_inv_next[OF ti[unfolded ns]] pc B_Next m'(3) by simp
    with m' hist own step cv B_Next show ?thesis
      by (auto intro!: exI[of _ ms] queue_inv_holder)
  next
    case B_Unspin
    obtain m' where m': "spin_put cv (s_mem s) = Inr m'"
      "queue_store queue mx cv sl n xs ns SPINLOCK_INITIAL_VALUE m'" "live m' = live (s_mem s)"
      using st by (rule queue_store_spin_put)
    have "thread_inv cv mx n cend (Some t) ((s_pc s)(t := Release r)) ?ib (live m') xs ns"
      unfolding m'(3) using ti pc by (rule thread_inv_local) (use cv B_Unspin in auto)
    with m' hist own step cv B_Unspin show ?thesis
      by (auto intro!: exI[of _ ns] queue_inv_holder)
  qed
qed

lemma wait_step_inv:
  assumes laws: "chan_laws P inbox" "lock_laws L owner" "inj cend"
    and inv: "queue_inv owner inbox cend queue n mx cv sl xs ns s"
    and pc: "s_pc s t = Wait op cv' lk p" and step: "wait_step L P cend t op cv' lk p s = Some s'"
  shows "\<exists>ns'. queue_inv owner inbox cend queue n mx cv sl xs ns' s'"
  using inv
proof (rule queue_invE)
  fix w
  let ?own = "owner (s_lock s) mx" and ?ib = "inbox (s_chan s)"
  assume st: "queue_store queue mx cv sl n xs ns w (s_mem s)"
    and word: "w = SPINLOCK_INITIAL_VALUE \<or> spins (owner_pc ?own (s_pc s))"
    and hist: "map snd (s_in s) = map snd (s_out s) @ xs"
    and ti: "thread_inv cv mx n cend ?own (s_pc s) ?ib (live (s_mem s)) xs ns"
  note ok = thread_inv_ok[OF ti pc] and own = thread_inv_owner[OF ti pc]
  have cv: "cv' = cv" "lk = mx" using ok by simp_all
  note pc = pc[unfolded cv] and step = step[unfolded cv]
  show ?thesis
  proof (cases p)
    case W_Spin
    then have own: "?own = Some t" using own by simp
    with word pc W_Spin have "w = SPINLOCK_INITIAL_VALUE" by (simp add: owner_pc_Some)
    note st = st[unfolded this]
    obtain m' where m': "spin_get t cv (s_mem s) = Inr (Some m')"
      "queue_store queue mx cv sl n xs ns (core_value t) m'" "live m' = live (s_mem s)"
      using st by (rule queue_store_spin_get)
    have "thread_inv cv mx n cend (Some t) ((s_pc s)(t := Wait op cv mx W_Link)) ?ib (live m') xs ns"
      unfolding m'(3) using ti[unfolded own] pc by (rule thread_inv_local)
        (use ok W_Spin in auto)
    with m' hist own step W_Spin show ?thesis
      by (auto intro!: exI[of _ ns] queue_inv_holder)
  next
    case W_Link
    then have own: "?own = Some t" using own by simp
    obtain wt m' where m': "wait_enqueue cv (cend t) (s_mem s) = Inr (wt, m')"
      "wt \<notin> live (s_mem s)" "live m' = insert wt (live (s_mem s))"
      "queue_store queue mx cv sl n xs ((wt, cend t) # ns) w m'"
      using st by (rule queue_store_enqueue)
    have "thread_inv cv mx n cend (Some t) ((s_pc s)(t := Wait op cv mx (W_Unspin wt))) ?ib
        (live m') xs ((wt, cend t) # ns)"
      using thread_inv_link[OF ti[unfolded own] pc[unfolded W_Link] m'(2)] m'(3) by simp
    with m' hist own step W_Link show ?thesis
      by (auto intro!: exI[of _ "(wt, cend t) # ns"] queue_inv_holder)
  next
    case (W_Unspin wt)
    then have own: "?own = Some t" using own by simp
    obtain m' where m': "spin_put cv (s_mem s) = Inr m'"
      "queue_store queue mx cv sl n xs ns SPINLOCK_INITIAL_VALUE m'" "live m' = live (s_mem s)"
      using st by (rule queue_store_spin_put)
    have "thread_inv cv mx n cend (Some t) ((s_pc s)(t := Wait op cv mx (W_Unlock wt))) ?ib
        (live m') xs ns"
      unfolding m'(3) using ti[unfolded own] pc by (rule thread_inv_local)
        (use ok own W_Unspin in auto)
    with m' hist own step W_Unspin show ?thesis
      by (auto intro!: exI[of _ ns] queue_inv_holder)
  next
    case (W_Unlock wt)
    then have own: "?own = Some t" using own by simp
    have rel: "owner (lk_release L (s_lock s) mx t) mx = None"
      using laws(2) own by (simp add: lock_laws_def)
    have "w = SPINLOCK_INITIAL_VALUE" using word own pc W_Unlock by (simp add: owner_pc_Some)
    moreover have "thread_inv cv mx n cend None ((s_pc s)(t := Wait op cv mx (W_Block wt))) ?ib
        (live (s_mem s)) xs ns"
      using ti[unfolded own] pc by (rule thread_inv_release)
        (use ok own pc W_Unlock in \<open>auto simp: owner_pc_Some unsignalled_def\<close>)
    ultimately show ?thesis
      using st hist step W_Unlock rel by (auto simp: queue_inv_def goto_def intro!: exI[of _ ns])
  next
    case (W_Block wt)
    from step W_Block obtain b c where b: "in_byte P (s_chan s) (cend t) = Some (b, c)"
      by (auto split: option.splits)
    then have ib: "?ib = (inbox c)(cend t := b # inbox c (cend t))"
      using laws(1) by (auto simp: chan_laws_def)
    from thread_inv_input[OF ti laws(3) pc[unfolded W_Block] ib] have
      "b = CONDITION_SIGNAL_EVT"
      and ti': "thread_inv cv mx n cend ?own ((s_pc s)(t := Wait op cv mx (W_Relock wt))) (inbox c)
        (live (s_mem s)) xs ns" by auto
    then have "s' = goto t (Wait op cv mx (W_Relock wt)) (s\<lparr>s_chan := c\<rparr>)"
      using step b W_Block by simp
    moreover have "?own \<noteq> Some t" using own W_Block by simp
    ultimately show ?thesis
      using st hist word ti' by (auto simp: queue_inv_def goto_def intro!: exI[of _ ns])
  next
    case (W_Relock wt)
    from step W_Relock obtain l where l: "lk_acquire L (s_lock s) mx t = Some l"
      by (auto split: option.splits)
    then have free: "?own = None" and l': "owner l mx = Some t"
      using laws(2) unfolding lock_laws_def by (metis option.distinct(1), metis fun_upd_same)
    note ti = ti[unfolded free]
    have wt: "wt \<in> live (s_mem s)" "\<And>u. node_of (s_pc s u) = Some wt \<Longrightarrow> u = t"
      using thread_inv_node[OF ti pc] W_Relock by auto
    have gone: "wt \<notin> fst ` set ns"
    proof
      assume "wt \<in> fst ` set ns"
      then obtain e where e: "(wt, e) \<in> set ns" by force
      then obtain u where "node_of (s_pc s u) = Some wt" "e = cend u"
        using ti unfolding thread_inv_def by blast
      moreover from this have "u = t" using wt(2) by blast
      ultimately show False using ok e free W_Relock by (simp add: unsignalled_def)
    qed
    obtain m' where m': "wait_leave wt (s_mem s) = Inr m'" "queue_store queue mx cv sl n xs ns w m'"
      "live m' = live (s_mem s) - {wt}"
      using st wt(1) gone by (rule queue_store_leave)
    have "thread_inv cv mx n cend (Some t) ((s_pc s)(t := Check op)) ?ib (live m') xs ns"
      using ti pc by (rule thread_inv_acquire) (use ok W_Relock m'(3) gone in auto)
    then have "queue_inv owner inbox cend queue n mx cv sl xs ns
        (goto t (Check op) (s\<lparr>s_lock := l, s_mem := m'\<rparr>))"
      using m'(2) word free hist l' by (intro queue_inv_holder) auto
    moreover have "s' = goto t (Check op) (s\<lparr>s_lock := l, s_mem := m'\<rparr>)"
      using step W_Relock l m'(1) by simp
    ultimately show ?thesis by blast
  qed
qed

lemma act_step_inv:
  assumes inv: "queue_inv owner inbox cend queue n mx cv sl xs ns s"
    and pc: "s_pc s t = Act op" and step: "act_step queue t op s = Some s'"
  shows "\<exists>xs'. queue_inv owner inbox cend queue n mx cv sl xs' ns s'"
  using inv
proof (rule queue_invE)
  fix w
  let ?own = "owner (s_lock s) mx" and ?ib = "inbox (s_chan s)"
  assume st: "queue_store queue mx cv sl n xs ns w (s_mem s)"
    and word: "w = SPINLOCK_INITIAL_VALUE \<or> spins (owner_pc ?own (s_pc s))"
    and hist: "map snd (s_in s) = map snd (s_out s) @ xs"
    and ti: "thread_inv cv mx n cend ?own (s_pc s) ?ib (live (s_mem s)) xs ns"
  note ok = thread_inv_ok[OF ti pc]
  have own: "?own = Some t" using thread_inv_owner[OF ti pc] by simp
  note ti = ti[unfolded own]
  have w: "w = SPINLOCK_INITIAL_VALUE" using word own pc by (simp add: owner_pc_Some)
  show ?thesis
  proof (cases op)
    case (Send item)
    then have room: "length xs < n" using ok by simp
    obtain m' where m': "queue_put queue item (s_mem s) = Inr m'"
      "queue_store queue mx cv sl n (xs @ [item]) ns w m'" "live m' = live (s_mem s)"
      using st room by (rule queue_store_put)
    obtain q where q: "load_queue queue m' = Inr q" "q_cv q = cv"
      using m'(2) by (rule queue_store_load)
    have "thread_inv cv mx n cend (Some t) ((s_pc s)(t := Bcast Sent cv B_Spin)) ?ib (live m')
        (xs @ [item]) ns"
      unfolding m'(3) using ti pc by (rule thread_inv_local) (use ok in auto)
    with m' q hist own step Send w show ?thesis
      by (auto intro!: exI[of _ "xs @ [item]"] queue_inv_holder)
  next
    case Receive
    then obtain x ys where xs: "xs = x # ys" using ok by (cases xs) auto
    obtain m' where m': "queue_get queue (s_mem s) = Inr (x, m')"
      "queue_store queue mx cv sl n ys ns w m'" "live m' = live (s_mem s)"
      using st[unfolded xs] by (rule queue_store_get)
    obtain q where q: "load_queue queue m' = Inr q" "q_cv q = cv"
      using m'(2) by (rule queue_store_load)
    have "thread_inv cv mx n cend (Some t) ((s_pc s)(t := Bcast (Got x) cv B_Spin)) ?ib (live m')
        ys ns"
      unfolding m'(3) using ti pc by (rule thread_inv_local) (use ok in auto)
    with m' q hist own step Receive w xs show ?thesis
      by (auto intro!: exI[of _ ys] queue_inv_holder)
  next
    case Size
    obtain sz where sz: "queue_size queue (s_mem s) = Inr sz" using st by (rule queue_store_size)
    have "queue_inv owner inbox cend queue n mx cv sl xs ns (goto t (Release (Sized sz)) s)"
      using inv pc by (rule queue_inv_goto) (use ok in auto)
    with sz step Size show ?thesis by auto
  next
    case Delete
    with ok show ?thesis by simp
  qed
qed

lemma thread_step_inv:
  assumes laws: "chan_laws P inbox" "lock_laws L owner" "inj cend"
    and inv: "queue_inv owner inbox cend queue n mx cv sl xs ns s"
    and step: "thread_step L P cend queue t s = Some s'"
  shows "\<exists>xs' ns'. queue_inv owner inbox cend queue n mx cv sl xs' ns' s'"
  using inv
proof (rule queue_invE)
  fix w
  let ?own = "owner (s_lock s) mx" and ?ib = "inbox (s_chan s)"
  assume st: "queue_store queue mx cv sl n xs ns w (s_mem s)"
    and word: "w = SPINLOCK_INITIAL_VALUE \<or> spins (owner_pc ?own (s_pc s))"
    and hist: "map snd (s_in s) = map snd (s_out s) @ xs"
    and ti: "thread_inv cv mx n cend ?own (s_pc s) ?ib (live (s_mem s)) xs ns"
  note ok = thread_inv_ok[OF ti] and own = thread_inv_owner[OF ti]
  obtain q where q: "queue \<noteq> NULL" "load_queue queue (s_mem s) = Inr q" "q_cv q = cv"
    "q_mutex q = mx" "q_ring_buffer q \<noteq> NULL"
    using st by (rule queue_store_load)
  show ?thesis
  proof (cases "s_pc s t")
    case (Enter op)
    note ok = ok[OF Enter]
    have "queue_inv owner inbox cend queue n mx cv sl xs ns (goto t (Lock op) s)"
      using inv Enter by (rule queue_inv_goto) (use ok in auto)
    moreover have "queue_enter queue op (s_mem s) = Inr (Lock op)"
      using q ok by (cases op) (auto simp: queue_enter_def)
    ultimately show ?thesis using step Enter by (auto simp: thread_step_def)
  next
    case (Lock op)
    note ok = ok[OF Lock]
    from step Lock q obtain l where l: "lk_acquire L (s_lock s) mx t = Some l"
      "s' = goto t (Check op) (s\<lparr>s_lock := l\<rparr>)"
      by (auto simp: thread_step_def)
    then have free: "?own = None" and l': "owner l mx = Some t"
      using laws(2) unfolding lock_laws_def by (metis option.distinct(1), metis fun_upd_same)
    have "thread_inv cv mx n cend (Some t) ((s_pc s)(t := Check op)) ?ib (live (s_mem s)) xs ns"
      using ti[unfolded free] Lock by (rule thread_inv_acquire) (use ok in auto)
    with st hist l l' word free show ?thesis
      by (auto intro!: exI[of _ xs] exI[of _ ns] queue_inv_holder)
  next
    case (Check op)
    note ok = ok[OF Check] and own = own[OF Check, simplified]
    have bound: "length xs \<le> n" using queue_store_bounds[OF st] by simp
    let ?b = "case op of Send x \<Rightarrow> length xs = n | Receive \<Rightarrow> xs = [] | _ \<Rightarrow> False"
    let ?c = "if ?b then Wait op cv mx W_Spin else Act op"
    have "queue_inv owner inbox cend queue n mx cv sl xs ns (goto t ?c s)"
      using inv Check by (rule queue_inv_goto)
        (use ok bound in \<open>auto split: queue_call.splits\<close>)
    moreover have "s' = goto t ?c s"
      using step Check q queue_store_must_wait[OF st, of op] by (auto simp: thread_step_def)
    ultimately show ?thesis by blast
  next
    case (Wait op cv' lk p)
    then show ?thesis
      using wait_step_inv[OF laws inv Wait] step by (auto simp: thread_step_def)
  next
    case (Act op)
    then show ?thesis using act_step_inv[OF inv Act] step by (auto simp: thread_step_def)
  next
    case (Bcast r cv' p)
    then show ?thesis
      using bcast_step_inv[OF laws(1,3) inv Bcast] step by (auto simp: thread_step_def)
  next
    case (Release r)
    note ok = ok[OF Release] and own = own[OF Release, simplified]
    have rel: "owner (lk_release L (s_lock s) mx t) mx = None"
      using laws(2) own by (simp add: lock_laws_def)
    have "w = SPINLOCK_INITIAL_VALUE" using word own Release by (simp add: owner_pc_Some)
    moreover have "thread_inv cv mx n cend None ((s_pc s)(t := Returned r)) ?ib (live (s_mem s)) xs ns"
      using ti[unfolded own] Release by (rule thread_inv_release) (use ok in auto)
    ultimately show ?thesis
      using st hist step Release rel q
      by (auto simp: thread_step_def queue_inv_def goto_def intro!: exI[of _ xs] exI[of _ ns])
  next
    case Destroy
    then show ?thesis using ok[OF Destroy] by simp
  qed (use step in \<open>auto simp: thread_step_def\<close>)
qed

lemma queue_call_inv:
  assumes inv: "queue_inv owner inbox cend queue n mx cv sl xs ns s"
    and "at_rest (s_pc s t)" and "client_call op"
  shows "queue_inv owner inbox cend queue n mx cv sl xs ns (goto t (Enter op) s)"
proof -
  have ti: "thread_inv cv mx n cend (owner (s_lock s) mx) (s_pc s) (inbox (s_chan s))
      (live (s_mem s)) xs ns" using inv by (rule queue_invE)
  show ?thesis
    using inv refl by (rule queue_inv_goto)
      (use assms thread_inv_ok[OF ti refl, of t] in \<open>cases "s_pc s t"; simp\<close>)+
qed

lemma queue_init_inv:
  assumes "queue_init owner inbox queue n s"
  shows "\<exists>mx cv sl. queue_inv owner inbox cend queue n mx cv sl [] [] s"
proof -
  from assms obtain mx cv sl where a:
    "queue_store queue mx cv sl n [] [] SPINLOCK_INITIAL_VALUE (s_mem s)" "owner (s_lock s) mx = None"
    "\<And>e. inbox (s_chan s) e = []" "\<And>t. s_pc s t = Outside" "s_in s = []" "s_out s = []"
    by (auto simp: queue_init_def)
  then have "queue_inv owner inbox cend queue n mx cv sl [] [] s"
    by (auto simp: queue_inv_def thread_inv_def)
  then show ?thesis by blast
qed

text \<open>
  The system of clients of the queue, with the laws of the hardware as the premise of its
  invariant.
\<close>

definition client_laws :: "'l lock_ops \<Rightarrow> 'c chan_ops \<Rightarrow> ('l \<Rightarrow> nat \<Rightarrow> nat option) \<Rightarrow>
    ('c \<Rightarrow> chanend \<Rightarrow> 8 word list) \<Rightarrow> (nat \<Rightarrow> chanend) \<Rightarrow> bool" where
  "client_laws L P owner inbox cend \<longleftrightarrow> lock_laws L owner \<and> chan_laws P inbox \<and> inj cend"

interpretation clients: invariant_system
  "queue_init owner inbox queue n" "queue_step L P cend queue client_call"
  "\<lambda>s. client_laws L P owner inbox cend \<longrightarrow>
     (\<exists>mx cv sl xs ns. queue_inv owner inbox cend queue n mx cv sl xs ns s)"
  for L P owner inbox cend queue n
proof
  show "client_laws L P owner inbox cend \<longrightarrow>
      (\<exists>mx cv sl xs ns. queue_inv owner inbox cend queue n mx cv sl xs ns s)"
    if "queue_init owner inbox queue n s" for s
    using queue_init_inv[OF that] by blast
next
  fix s s'
  assume inv: "client_laws L P owner inbox cend \<longrightarrow>
      (\<exists>mx cv sl xs ns. queue_inv owner inbox cend queue n mx cv sl xs ns s)"
    and step: "queue_step L P cend queue client_call s s'"
  show "client_laws L P owner inbox cend \<longrightarrow>
      (\<exists>mx cv sl xs ns. queue_inv owner inbox cend queue n mx cv sl xs ns s')"
  proof
    assume laws: "client_laws L P owner inbox cend"
    with inv obtain mx cv sl xs ns where
      "queue_inv owner inbox cend queue n mx cv sl xs ns s" by blast
    with step laws show "\<exists>mx cv sl xs ns. queue_inv owner inbox cend queue n mx cv sl xs ns s'"
      by (cases rule: queue_step.cases)
        (metis client_laws_def thread_step_inv, metis queue_call_inv)
  qed
qed

lemma client_inv:
  assumes "client_laws L P owner inbox cend"
    and "reach (queue_init owner inbox queue n) (queue_step L P cend queue client_call) s"
  obtains mx cv sl xs ns where "queue_inv owner inbox cend queue n mx cv sl xs ns s"
  using clients.reach_inv[OF assms(2)] assms(1) by blast

section \<open>Schedules\<close>

text \<open>
  A run given by its schedule: which thread calls what (\<open>Inl\<close>), and which thread moves (\<open>Inr\<close>).
\<close>

fun queue_run :: "'l lock_ops \<Rightarrow> 'c chan_ops \<Rightarrow> (nat \<Rightarrow> chanend) \<Rightarrow> ptr \<Rightarrow>
    (nat \<times> queue_call + nat) list \<Rightarrow> ('c, 'l) queue_sys \<Rightarrow> ('c, 'l) queue_sys option" where
  "queue_run L P cend queue [] s = Some s"
| "queue_run L P cend queue (Inl (t, op) # es) s =
     (if at_rest (s_pc s t) then queue_run L P cend queue es (goto t (Enter op) s) else None)"
| "queue_run L P cend queue (Inr t # es) s =
     (case thread_step L P cend queue t s of
        None \<Rightarrow> None
      | Some s' \<Rightarrow> queue_run L P cend queue es s')"

lemma queue_run_reach:
  assumes "reach init (queue_step L P cend queue allowed) s"
    and "queue_run L P cend queue es s = Some s'" 
    and "\<forall>t op. Inl (t, op) \<in> set es \<longrightarrow> allowed op"
  shows "reach init (queue_step L P cend queue allowed) s'"
  using assms
  by (induction L P cend queue es s rule: queue_run.induct)
    (fastforce split: if_splits option.splits intro: reach_step queue_step.intros)+

lemma table_locks_laws: "lock_laws table_locks (\<lambda>l. l)"
  by (auto simp: lock_laws_def table_locks_def)

text \<open>An empty queue of length 1 at address 1, every thread's channel end being its number.\<close>

definition small_sys :: "((chanend \<Rightarrow> chanend) \<times> (chanend \<Rightarrow> 8 word list), nat \<Rightarrow> nat option) queue_sys"
  where
  "small_sys =
     \<lparr>s_mem = empty_mem\<lparr>brk := 4, heap := [1 \<mapsto> Queue \<lparr>q_ring_buffer = 2, q_cv = 3, q_head = 0,
          q_tail = 0, q_length = 1, q_mutex = 0, q_full = False\<rparr>, 2 \<mapsto> Ptr_Array [None],
          3 \<mapsto> Cond_Var \<lparr>cv_lock = 4, cv_waiters = NULL\<rparr>, 4 \<mapsto> Spinlock SPINLOCK_INITIAL_VALUE]\<rparr>,
      s_chan = (\<lambda>_. 0, \<lambda>_. []), s_lock = (\<lambda>_. None), s_pc = (\<lambda>_. Outside), s_in = [], s_out = []\<rparr>"

lemma small_sys_init: "queue_init (\<lambda>l. l) snd 1 1 small_sys"
proof -
  let ?m = "s_mem small_sys"
  have "mem_ok ?m" by (auto simp: mem_ok_def small_sys_def)
  moreover have "queue_rep ?m 1 1 []" by (simp add: queue_rep_def small_sys_def)
  moreover have "cv_rep ?m 3 []" by (simp add: cv_rep_def small_sys_def)
  ultimately have "queue_store 1 0 3 4 1 [] [] SPINLOCK_INITIAL_VALUE ?m"
    unfolding queue_store_def by (simp add: small_sys_def)
  then show ?thesis unfolding queue_init_def by (auto simp: small_sys_def)
qed

lemma small_laws: "client_laws table_locks list_chans (\<lambda>l. l) snd (\<lambda>t. t)"
  by (simp add: client_laws_def table_locks_laws list_chans_laws)

lemmas run_simps = thread_step_def goto_def queue_enter_def load_queue_def load_cond_var_def
  load_spinlock_def load_cond_node_def load_def store_def free_def queue_full_def queue_empty_def
  queue_put_def queue_get_def write_ptr_def read_ptr_def load_ptr_array_def write_slot_def
  read_slot_def advance_def spin_get_def spin_put_def spinlock_release_def wait_enqueue_def
  alloca_def wait_leave_def send_first_def drop_first_def condition_variable_send_def event_of_def
  table_locks_def list_chans_def SPINLOCK_INITIAL_VALUE_def core_value_def
  CONDITION_SIGNAL_EVT_def CONDITION_TERMINATE_EVT_def

text \<open>
  A receiver finds the queue empty and waits; a sender comes, puts an item and is about to
  take the woken receiver off the list.
\<close>

definition blocked_receive :: "(nat \<times> queue_call + nat) list" where
  "blocked_receive = Inl (0, Receive) # replicate 7 (Inr 0)"

definition waking_send :: "(nat \<times> queue_call + nat) list" where
  "waking_send = blocked_receive @ Inl (1, Send 9) # replicate 6 (Inr 1)"

lemma blocked_receive_run:
  "\<exists>s. queue_run table_locks list_chans (\<lambda>t. t) 1 blocked_receive small_sys = Some s \<and>
     (\<forall>t. s_pc s t = (if t = 0 then Wait Receive 3 0 (W_Block 5) else Outside)) \<and>
     (\<forall>t. thread_step table_locks list_chans (\<lambda>t. t) 1 t s = None)"
  by (simp add: blocked_receive_def numeral_eq_Suc small_sys_def run_simps)

lemma waking_send_run:
  "\<exists>s. queue_run table_locks list_chans (\<lambda>t. t) 1 waking_send small_sys = Some s \<and>
     s_pc s 0 = Wait Receive 3 0 (W_Block 5) \<and> s_pc s 1 = Bcast Sent 3 B_Next \<and>
     s_in s = [(1, 9)] \<and> s_out s = []"
  by (simp add: waking_send_def blocked_receive_def numeral_eq_Suc small_sys_def run_simps)

lemma small_reach:
  assumes "queue_run table_locks list_chans (\<lambda>t. t) 1 es small_sys = Some s"
    and "\<forall>t op. Inl (t, op) \<in> set es \<longrightarrow> client_call op"
  shows "reach (queue_init (\<lambda>l. l) snd 1 1) (queue_step table_locks list_chans (\<lambda>t. t) 1 client_call) s"
  using queue_run_reach[OF reach_init[of "queue_init (\<lambda>l. l) snd 1 1", OF small_sys_init] assms] .

lemma schedule_calls:
  "\<forall>t op. Inl (t, op) \<in> set blocked_receive \<longrightarrow> client_call op"
  "\<forall>t op. Inl (t, op) \<in> set waking_send \<longrightarrow> client_call op"
  by (auto simp: blocked_receive_def waking_send_def)

section \<open>Properties\<close>

text \<open>C32: memory safety of the queue under every interleaving. Whatever threads call
  \<open>queue_send\<close>, \<open>queue_receive\<close> and \<open>queue_size\<close>, in whatever order and however their statements
  interleave, no assertion fails and no thread ever reads or writes through a null or dangling
  pointer or outside the ring buffer. In particular \<open>condition_variable_broadcast\<close> may read
  \<open>cv->waiters->next\<close> from the stack of a thread it has just woken: that thread cannot return
  before it has the mutex, which the broadcaster holds.\<close>

theorem queue_threads_safe:
  assumes "client_laws L P owner inbox cend"
    and "reach (queue_init owner inbox queue n) (queue_step L P cend queue client_call) s"
  shows "s_pc s t \<noteq> Faulted e"
proof
  assume f: "s_pc s t = Faulted e"
  obtain mx cv sl xs ns where "queue_inv owner inbox cend queue n mx cv sl xs ns s"
    using assms by (rule client_inv)
  then have "thread_inv cv mx n cend (owner (s_lock s) mx) (s_pc s) (inbox (s_chan s))
      (live (s_mem s)) xs ns" by (rule queue_invE)
  from thread_inv_ok[OF this f] show False by simp
qed

theorem queue_threads_safe_witness:
  "\<exists>s. queue_run table_locks list_chans (\<lambda>t. t) 1 waking_send small_sys = Some s \<and>
     s_pc s 1 = Bcast Sent 3 B_Next \<and>
     (\<forall>s' e. queue_run table_locks list_chans (\<lambda>t. t) 1 (waking_send @ [Inr 1]) small_sys =
        Some s' \<longrightarrow> s_pc s' 1 \<noteq> Faulted e)"
proof -
  obtain s where s: "queue_run table_locks list_chans (\<lambda>t. t) 1 waking_send small_sys = Some s"
    "s_pc s 1 = Bcast Sent 3 B_Next" using waking_send_run by blast
  have "s_pc s' 1 \<noteq> Faulted e"
    if "queue_run table_locks list_chans (\<lambda>t. t) 1 (waking_send @ [Inr 1]) small_sys = Some s'"
    for s' e
    using queue_threads_safe[OF small_laws small_reach[OF that]] schedule_calls by auto
  with s show ?thesis by blast
qed

text \<open>Mutual exclusion. At most one thread is between taking and giving back the mutex of
  the queue, on every path through the wait loop.\<close>

theorem queue_threads_exclusion:
  assumes "client_laws L P owner inbox cend"
    and "reach (queue_init owner inbox queue n) (queue_step L P cend queue client_call) s"
    and "holds (s_pc s t)" and "holds (s_pc s u)"
  shows "t = u"
proof -
  obtain mx cv sl xs ns where "queue_inv owner inbox cend queue n mx cv sl xs ns s"
    using assms(1,2) by (rule client_inv)
  then have ti: "thread_inv cv mx n cend (owner (s_lock s) mx) (s_pc s) (inbox (s_chan s))
      (live (s_mem s)) xs ns" by (rule queue_invE)
  show ?thesis using thread_inv_owner[OF ti refl] assms(3,4) by (metis option.inject)
qed

theorem queue_threads_exclusion_witness:
  "\<exists>s. queue_run table_locks list_chans (\<lambda>t. t) 1 waking_send small_sys = Some s \<and>
     holds (s_pc s 1) \<and> (\<forall>u. holds (s_pc s u) \<longrightarrow> 1 = u)"
proof -
  obtain s where s: "queue_run table_locks list_chans (\<lambda>t. t) 1 waking_send small_sys = Some s"
    "s_pc s 1 = Bcast Sent 3 B_Next" using waking_send_run by blast
  then have h: "holds (s_pc s 1)" by simp
  with s(1) queue_threads_exclusion[OF small_laws small_reach[OF s(1) schedule_calls(2)] h]
  show ?thesis by blast
qed

text \<open>C33: the queue is first-in first-out for all threads together. In every reachable state
  the ring buffer is well formed and holds at most \<open>n\<close> items, and the items sent so far, in the
  order of their critical sections, are the items received so far followed by those in the
  buffer: nothing is lost, duplicated, overwritten or reordered.\<close>

theorem queue_threads_fifo:
  assumes "client_laws L P owner inbox cend"
    and "reach (queue_init owner inbox queue n) (queue_step L P cend queue client_call) s"
  shows "\<exists>xs. queue_rep (s_mem s) queue n xs \<and> length xs \<le> n \<and>
     map snd (s_in s) = map snd (s_out s) @ xs"
proof -
  obtain mx cv sl xs ns where "queue_inv owner inbox cend queue n mx cv sl xs ns s"
    using assms by (rule client_inv)
  then show ?thesis
    by (rule queue_invE) (auto simp: queue_store_def elim: queue_repE)
qed

theorem queue_threads_fifo_witness:
  "\<exists>s. queue_run table_locks list_chans (\<lambda>t. t) 1 waking_send small_sys = Some s \<and>
     queue_rep (s_mem s) 1 1 [9]"
proof -
  obtain s where s: "queue_run table_locks list_chans (\<lambda>t. t) 1 waking_send small_sys = Some s"
    "s_in s = [(1, 9)]" "s_out s = []" using waking_send_run by blast
  with queue_threads_fifo[OF small_laws small_reach[OF s(1) schedule_calls(2)]]
  show ?thesis by auto
qed

text \<open>C34: no wake-up is lost. Whenever nobody holds the mutex, a thread that is blocked in
  \<open>condition_variable_wait\<close> either has its signal waiting in its channel, or is right to wait: it
  wants to send and the queue is full, or to receive and the queue is empty.\<close>

theorem queue_threads_no_lost_wakeup:
  assumes "client_laws L P owner inbox cend"
    and "reach (queue_init owner inbox queue n) (queue_step L P cend queue client_call) s"
    and "\<And>u. \<not> holds (s_pc s u)" and "s_pc s t = Wait op cv' lk (W_Block w)"
  shows "\<exists>xs. queue_rep (s_mem s) queue n xs \<and>
     (inbox (s_chan s) (cend t) = [CONDITION_SIGNAL_EVT] \<or>
      inbox (s_chan s) (cend t) = [] \<and> starving n xs op)"
proof -
  obtain mx cv sl xs ns where "queue_inv owner inbox cend queue n mx cv sl xs ns s"
    using assms(1,2) by (rule client_inv)
  then obtain wd where st: "queue_store queue mx cv sl n xs ns wd (s_mem s)"
    and ti: "thread_inv cv mx n cend (owner (s_lock s) mx) (s_pc s) (inbox (s_chan s))
      (live (s_mem s)) xs ns" by (rule queue_invE)
  have "owner (s_lock s) mx = None"
    using thread_inv_owner[OF ti refl] assms(3) by (metis not_None_eq)
  with thread_inv_ok[OF ti assms(4)] have
    "if (w, cend t) \<in> set (unsignalled Outside ns)
     then inbox (s_chan s) (cend t) = [] \<and> starving n xs op
     else inbox (s_chan s) (cend t) = [CONDITION_SIGNAL_EVT]" by (auto split: if_splits)
  with st show ?thesis by (auto simp: queue_store_def split: if_splits)
qed

theorem queue_threads_no_lost_wakeup_witness:
  "\<exists>s. queue_run table_locks list_chans (\<lambda>t. t) 1 blocked_receive small_sys = Some s \<and>
     (\<exists>xs. queue_rep (s_mem s) 1 1 xs \<and>
       (snd (s_chan s) 0 = [CONDITION_SIGNAL_EVT] \<or> snd (s_chan s) 0 = [] \<and> starving 1 xs Receive))"
proof -
  obtain s where s: "queue_run table_locks list_chans (\<lambda>t. t) 1 blocked_receive small_sys = Some s"
    "\<And>t. s_pc s t = (if t = 0 then Wait Receive 3 0 (W_Block 5) else Outside)"
    using blocked_receive_run by blast
  have "\<not> holds (s_pc s u)" for u by (simp add: s(2))
  from queue_threads_no_lost_wakeup[OF small_laws small_reach[OF s(1) schedule_calls(1)] this, of 0]
  show ?thesis using s by auto
qed

lemma attempt_None: "attempt t s r f = None \<longleftrightarrow> (\<exists>x. r = Inr x \<and> f x = None)"
  by (cases r) auto

text \<open>The owner of the mutex can always move.\<close>

lemma holder_moves:
  assumes inv: "queue_inv owner inbox cend queue n mx cv sl xs ns s" and h: "holds (s_pc s t)"
  shows "thread_step L P cend queue t s \<noteq> None"
  using inv
proof (rule queue_invE)
  fix w
  let ?own = "owner (s_lock s) mx"
  assume st: "queue_store queue mx cv sl n xs ns w (s_mem s)"
    and word: "w = SPINLOCK_INITIAL_VALUE \<or> spins (owner_pc ?own (s_pc s))"
    and ti: "thread_inv cv mx n cend ?own (s_pc s) (inbox (s_chan s)) (live (s_mem s)) xs ns"
  note ok = thread_inv_ok[OF ti refl, of t] and own = thread_inv_owner[OF ti refl, of t]
  have spin: "\<exists>m. spin_get t cv (s_mem s) = Inr (Some m)" if "\<not> spins (s_pc s t)"
    using st word that own h by (metis owner_pc_Some queue_store_spin_get)
  show ?thesis
  proof (cases "s_pc s t")
    case (Wait op cv' lk p)
    then show ?thesis using h ok spin by (cases p) (auto simp: thread_step_def attempt_None simp del: not_None_eq)
  next
    case (Act op)
    then show ?thesis using ok by (cases op) (auto simp: thread_step_def attempt_None simp del: not_None_eq)
  next
    case (Bcast r cv' p)
    then show ?thesis using ok spin by (cases p) (auto simp: thread_step_def attempt_None simp del: not_None_eq)
  qed (use h in \<open>auto simp: thread_step_def attempt_None simp del: not_None_eq\<close>)
qed

lemma stuck_thread:
  assumes laws: "lock_laws L owner" "chan_laws P inbox"
    and st: "queue_store queue mx cv sl n xs ns w (s_mem s)"
    and ti: "thread_inv cv mx n cend None (s_pc s) (inbox (s_chan s)) lv xs ns"
    and free: "owner (s_lock s) mx = None" and stuck: "thread_step L P cend queue t s = None"
  shows "at_rest (s_pc s t) \<or>
     (\<exists>op w. s_pc s t = Wait op cv mx (W_Block w) \<and> starving n xs op)"
proof -
  note ok = thread_inv_ok[OF ti refl, of t]
  have h: "\<not> holds (s_pc s t)" using thread_inv_owner[OF ti refl] by simp
  have acq: "\<exists>l. lk_acquire L (s_lock s) mx t = Some l"
    using laws(1) free unfolding lock_laws_def by (metis not_None_eq)
  obtain q where q: "load_queue queue (s_mem s) = Inr q" "q_mutex q = mx"
    using st by (rule queue_store_load)
  show ?thesis
  proof (cases "s_pc s t")
    case (Lock op)
    with stuck acq q show ?thesis by (auto simp: thread_step_def)
  next
    case (Wait op cv' lk p)
    note ok = ok[unfolded Wait] and h = h[unfolded Wait] and stuck = stuck[unfolded thread_step_def Wait]
    show ?thesis
    proof (cases p)
      case (W_Block w)
      have "in_byte P (s_chan s) (cend t) = None"
        using stuck W_Block
        by (auto simp: attempt_None Let_def split: option.splits if_splits)
      then have "inbox (s_chan s) (cend t) = []" using laws(2) by (simp add: chan_laws_def)
      then show ?thesis using Wait ok W_Block by (auto split: if_splits)
    next
      case (W_Relock w)
      then show ?thesis using ok acq stuck by (auto simp: Let_def attempt_None)
    qed (use h in auto)
  qed (use h ok stuck in \<open>auto simp: thread_step_def attempt_None\<close>)
qed

text \<open>C35: the only deadlocks are those of the clients. When no thread can move, every thread is
  outside the queue's functions, or blocked in \<open>condition_variable_wait\<close> with its condition
  really false: a sender because the queue is full, a receiver because it is empty. As the
  length is positive, senders and receivers are never blocked together.\<close>

theorem queue_threads_stuck:
  assumes "client_laws L P owner inbox cend"
    and "reach (queue_init owner inbox queue n) (queue_step L P cend queue client_call) s"
    and stuck: "\<And>t. thread_step L P cend queue t s = None"
  shows "\<exists>xs. queue_rep (s_mem s) queue n xs \<and> 0 < n \<and>
     (\<forall>t. at_rest (s_pc s t) \<or>
        (\<exists>op cv lk w. s_pc s t = Wait op cv lk (W_Block w) \<and> starving n xs op))"
proof -
  obtain mx cv sl xs ns where inv: "queue_inv owner inbox cend queue n mx cv sl xs ns s"
    using assms(1,2) by (rule client_inv)
  then obtain wd where st: "queue_store queue mx cv sl n xs ns wd (s_mem s)"
    and ti: "thread_inv cv mx n cend (owner (s_lock s) mx) (s_pc s) (inbox (s_chan s))
      (live (s_mem s)) xs ns" by (rule queue_invE)
  have free: "owner (s_lock s) mx = None"
    using thread_inv_owner[OF ti refl] holder_moves[OF inv] stuck by (metis not_None_eq)
  have laws: "lock_laws L owner" "chan_laws P inbox" using assms(1) by (simp_all add: client_laws_def)
  have "at_rest (s_pc s t) \<or> (\<exists>op w. s_pc s t = Wait op cv mx (W_Block w) \<and> starving n xs op)" for t
    using laws st ti[unfolded free] free stuck by (rule stuck_thread)
  moreover have "0 < n" using queue_store_bounds[OF st] by simp
  moreover have "queue_rep (s_mem s) queue n xs" using st by (simp add: queue_store_def)
  ultimately show ?thesis by blast
qed

theorem queue_threads_stuck_witness:
  "\<exists>s xs. queue_run table_locks list_chans (\<lambda>t. t) 1 blocked_receive small_sys = Some s \<and>
     queue_rep (s_mem s) 1 1 xs \<and> s_pc s 0 = Wait Receive 3 0 (W_Block 5) \<and> xs = []"
proof -
  obtain s where s: "queue_run table_locks list_chans (\<lambda>t. t) 1 blocked_receive small_sys = Some s"
    "\<And>t. s_pc s t = (if t = 0 then Wait Receive 3 0 (W_Block 5) else Outside)"
    "\<And>t. thread_step table_locks list_chans (\<lambda>t. t) 1 t s = None"
    using blocked_receive_run by blast
  obtain xs where "queue_rep (s_mem s) 1 1 xs" and w: "\<And>t. at_rest (s_pc s t) \<or>
        (\<exists>op cv lk w. s_pc s t = Wait op cv lk (W_Block w) \<and> starving 1 xs op)"
    using queue_threads_stuck[OF small_laws small_reach[OF s(1) schedule_calls(1)] s(3)] by blast
  then show ?thesis using s w[of 0] by auto
qed

text \<open>C40: \<open>queue_delete\<close> is not safe while a thread waits. \<open>condition_variable_terminate\<close> runs without
  the mutex, and a thread that it wakes returns at once, which ends the life of its node;
  \<open>cv->waiters = cv->waiters->next\<close> then reads the dead node. There is a run of one receiver and
  one deleter in which it does.\<close>

theorem queue_delete_use_after_return:
  "\<exists>s. reach (queue_init (\<lambda>l. l) snd 1 1)
        (queue_step table_locks list_chans (\<lambda>t. t) 1 (\<lambda>_. True)) s \<and>
     s_pc s 0 = Returned Refused \<and> s_pc s 1 = Faulted Invalid_Pointer"
proof -
  let ?es = "blocked_receive @ [Inl (1, Delete), Inr 1, Inr 1, Inr 1, Inr 0, Inr 1]"
  have "\<exists>s. queue_run table_locks list_chans (\<lambda>t. t) 1 ?es small_sys = Some s \<and>
     s_pc s 0 = Returned Refused \<and> s_pc s 1 = Faulted Invalid_Pointer"
    by (simp add: blocked_receive_def numeral_eq_Suc small_sys_def run_simps)
  then obtain s where s: "queue_run table_locks list_chans (\<lambda>t. t) 1 ?es small_sys = Some s"
    "s_pc s 0 = Returned Refused" "s_pc s 1 = Faulted Invalid_Pointer" by blast
  have "reach (queue_init (\<lambda>l. l) snd 1 1)
        (queue_step table_locks list_chans (\<lambda>t. t) 1 (\<lambda>_. True)) s"
    by (rule queue_run_reach[OF reach_init[of "queue_init (\<lambda>l. l) snd 1 1", OF small_sys_init] s(1)]) simp
  with s(2,3) show ?thesis by blast
qed

end
