(* ===== verification/Task.thy ===== *)
theory Task
  imports Memory
begin

text \<open>
  Tasks, after \<open>dispatch_task.c\<close>: creation, initialisation, execution and deletion of a
  \<open>dispatch_task_t\<close> in the store. What a task's function does belongs to the application:
  \<open>call f a u\<close> is the application state after \<open>f(a)\<close> ran in state \<open>u\<close>, an argument of the
  definitions that run tasks. The debug output of \<open>dispatch_printf\<close> is left out.
\<close>

section \<open>Operations\<close>

text \<open>Three words and a flag, padded to the 4-byte alignment of the target.\<close>

definition sizeof_dispatch_task :: size_t where
  "sizeof_dispatch_task = 16"

definition dispatch_task_init ::
  "ptr \<Rightarrow> fptr \<Rightarrow> ptr \<Rightarrow> bool \<Rightarrow> mem \<Rightarrow> mem result" where
  "dispatch_task_init task function argument waitable m =
     bindE (assertE (task \<noteq> NULL)) (\<lambda>_.
     bindE (assertE (function \<noteq> NULL)) (\<lambda>_.
     store task (Task \<lparr>task_function = function, task_argument = argument,
                       task_waitable = waitable, task_private_data = NULL\<rparr>) m))"

definition dispatch_task_create ::
  "fptr \<Rightarrow> ptr \<Rightarrow> bool \<Rightarrow> mem \<Rightarrow> (ptr \<times> mem) result" where
  "dispatch_task_create function argument waitable m =
     bindE (assertE (function \<noteq> NULL)) (\<lambda>_.
     let (task, m) = malloc sizeof_dispatch_task m in
     bindE (dispatch_task_init task function argument waitable m) (\<lambda>m.
     Inr (task, m)))"

definition dispatch_task_perform ::
  "(fptr \<Rightarrow> ptr \<Rightarrow> 'u \<Rightarrow> 'u) \<Rightarrow> ptr \<Rightarrow> mem \<Rightarrow> 'u \<Rightarrow> 'u result" where
  "dispatch_task_perform call task m u =
     bindE (assertE (task \<noteq> NULL)) (\<lambda>_.
     bindE (load_task task m) (\<lambda>t.
     if task_function t = NULL then Inl Null_Pointer
     else Inr (call (task_function t) (task_argument t) u)))"

definition dispatch_task_delete :: "ptr \<Rightarrow> mem \<Rightarrow> mem result" where
  "dispatch_task_delete task m =
     bindE (assertE (task \<noteq> NULL)) (\<lambda>_. free task m)"

section \<open>Behaviour\<close>

lemma dispatch_task_init_iff [mem_simps]:
  "dispatch_task_init task f a w m = Inr m' \<longleftrightarrow>
     task \<noteq> NULL \<and> f \<noteq> NULL \<and> heap m task \<noteq> None \<and>
     m' = m\<lparr>heap := (heap m)(task \<mapsto> Task \<lparr>task_function = f, task_argument = a,
                task_waitable = w, task_private_data = NULL\<rparr>)\<rparr>"
  by (auto simp: dispatch_task_init_def result_simps mem_simps)

lemma dispatch_task_create_ok:
  assumes "f \<noteq> NULL" and "\<not> oom m (brk m)"
  shows "dispatch_task_create f a w m =
    Inr (Suc (brk m), m\<lparr>brk := Suc (brk m), heap := (heap m)(Suc (brk m) \<mapsto>
      Task \<lparr>task_function = f, task_argument = a, task_waitable = w,
            task_private_data = NULL\<rparr>)\<rparr>)"
  using assms
  by (simp add: dispatch_task_create_def malloc_ok dispatch_task_init_def store_def)

lemma dispatch_task_create_error:
  assumes "f = NULL \<or> oom m (brk m)"
  shows "dispatch_task_create f a w m = Inl Assertion_Failed"
  using assms
  by (cases "f = NULL")
    (simp_all add: dispatch_task_create_def malloc_null dispatch_task_init_def)

lemma task_create_new:
  assumes "dispatch_task_create f a w m = Inr (p, m')"
  shows "f \<noteq> NULL" "p = Suc (brk m)" "m' = m\<lparr>brk := Suc (brk m), heap := (heap m)(Suc (brk m) \<mapsto>
      Task \<lparr>task_function = f, task_argument = a, task_waitable = w, task_private_data = NULL\<rparr>)\<rparr>"
  using assms dispatch_task_create_ok[of f m a w] dispatch_task_create_error[of f m a w]
  by (cases "f = NULL \<or> oom m (brk m)"; auto)+

lemma dispatch_task_perform_ok:
  "p \<noteq> NULL \<Longrightarrow> heap m p = Some (Task t) \<Longrightarrow> task_function t \<noteq> NULL \<Longrightarrow>
   dispatch_task_perform call p m u = Inr (call (task_function t) (task_argument t) u)"
  by (simp add: dispatch_task_perform_def load_task_def load_def)

lemma dispatch_task_delete_iff [mem_simps]:
  "dispatch_task_delete p m = Inr m' \<longleftrightarrow>
     p \<noteq> NULL \<and> heap m p \<noteq> None \<and> m' = m\<lparr>heap := (heap m)(p := None)\<rparr>"
  by (auto simp: dispatch_task_delete_def result_simps mem_simps)

text \<open>
  \<open>calls_at m p (f, a)\<close>: at \<open>p\<close> there is a live task, and performing it calls \<open>f\<close> on \<open>a\<close>.
  \<open>run_calls\<close> is what a sequence of such calls does to the application.
\<close>

definition calls_at :: "mem \<Rightarrow> ptr \<Rightarrow> fptr \<times> ptr \<Rightarrow> bool" where
  "calls_at m p c \<longleftrightarrow>
     p \<noteq> NULL \<and> fst c \<noteq> NULL \<and>
     (\<exists>t. heap m p = Some (Task t) \<and> (task_function t, task_argument t) = c)"

definition run_calls :: "(fptr \<Rightarrow> ptr \<Rightarrow> 'u \<Rightarrow> 'u) \<Rightarrow> (fptr \<times> ptr) list \<Rightarrow> 'u \<Rightarrow> 'u" where
  "run_calls call cs u = fold (\<lambda>(f, a). call f a) cs u"

lemma run_calls_simps [simp]:
  "run_calls call [] u = u"
  "run_calls call (c # cs) u = run_calls call cs (call (fst c) (snd c) u)"
  "run_calls call (cs @ ds) u = run_calls call ds (run_calls call cs u)"
  by (simp_all add: run_calls_def split_beta)

lemma perform_calls_at:
  "calls_at m p c \<Longrightarrow> dispatch_task_perform call p m u = Inr (call (fst c) (snd c) u)"
  by (auto simp: calls_at_def dispatch_task_perform_ok)

text \<open>A dead pointer is refused by every operation on tasks.\<close>

lemma task_dead:
  assumes "p \<noteq> NULL" and "heap m p = None"
  shows "dispatch_task_perform call p m u = Inl Invalid_Pointer"
    and "dispatch_task_delete p m = Inl Invalid_Pointer"
    and "f \<noteq> NULL \<Longrightarrow> dispatch_task_init p f a w m = Inl Invalid_Pointer"
  using assms
  by (simp_all add: dispatch_task_perform_def dispatch_task_delete_def dispatch_task_init_def
      load_task_def load_def free_def store_def)

section \<open>Properties\<close>

text \<open>\<open>dispatch_task_create\<close> decided completely. It succeeds exactly when the function
  is not null and memory is there; then the result is a fresh non-null pointer to a task with
  the given function, argument and waitable flag and no private data, nothing else in the store
  changes, and performing that task calls the function once on the argument. Otherwise it
  ends in a failed assertion, never in a wild write.\<close>

theorem task_create_complete:
  assumes "mem_ok m"
  shows "case dispatch_task_create f a w m of
      Inl e \<Rightarrow> e = Assertion_Failed \<and> (f = NULL \<or> oom m (brk m))
    | Inr (task, m') \<Rightarrow>
        f \<noteq> NULL \<and> \<not> oom m (brk m) \<and> mem_ok m' \<and> task \<noteq> NULL \<and> heap m task = None \<and>
        heap m' = (heap m)(task \<mapsto> Task \<lparr>task_function = f, task_argument = a,
                     task_waitable = w, task_private_data = NULL\<rparr>) \<and>
        (\<forall>call (u :: 'u). dispatch_task_perform call task m' u = Inr (call f a u))"
proof (cases "f = NULL \<or> oom m (brk m)")
  case True
  then show ?thesis by (simp add: dispatch_task_create_error)
next
  case False
  then have ok: "f \<noteq> NULL" "\<not> oom m (brk m)" by auto
  show ?thesis
    using assms ok
    by (simp add: dispatch_task_create_ok[OF ok] dispatch_task_perform_ok mem_ok_fresh)
      (auto simp: mem_ok_def)
qed

theorem task_create_complete_witness:
  "mem_ok empty_mem \<and>
   (case dispatch_task_create 7 9 True empty_mem of
      Inl e \<Rightarrow> False
    | Inr (task, m') \<Rightarrow> task \<noteq> NULL \<and>
        dispatch_task_perform (\<lambda>f a u. u @ [(f, a)]) task m' [] = Inr [(7, 9)])"
  using task_create_complete[of empty_mem 7 9 True, where 'u = "(nat \<times> nat) list"]
  by (auto split: sum.splits)

text \<open>The life cycle of a task. Deleting a task that was created gives back exactly the
  store from before the creation; after that, performing, deleting or re-initialising it is
  an access to a dead object, so nothing of a deleted task can be used.\<close>

theorem task_delete_roundtrip:
  assumes "mem_ok m" and "dispatch_task_create f a w m = Inr (task, m1)"
  shows "\<exists>m2. dispatch_task_delete task m1 = Inr m2 \<and> mem_ok m2 \<and> heap m2 = heap m \<and>
      dispatch_task_delete task m2 = Inl Invalid_Pointer \<and>
      dispatch_task_perform call task m2 u = Inl Invalid_Pointer \<and>
      dispatch_task_init task f a w m2 = Inl Invalid_Pointer"
proof -
  have ok: "f \<noteq> NULL" "\<not> oom m (brk m)"
    using assms(2) dispatch_task_create_error[of f m a w] by fastforce+
  note created = assms(2)[unfolded dispatch_task_create_ok[OF ok]]
  define m2 where "m2 = m1\<lparr>heap := (heap m1)(task := None)\<rparr>"
  have "heap m2 = heap m" "task \<noteq> NULL"
    using created mem_ok_fresh[OF assms(1)] by (auto simp: m2_def fun_eq_iff)
  moreover have "mem_ok m2"
    using assms(1) created by (auto simp: m2_def mem_ok_def)
  moreover have "dispatch_task_delete task m1 = Inr m2"
    using created by (auto simp: mem_simps m2_def)
  moreover have "heap m2 task = None" by (simp add: m2_def)
  ultimately show ?thesis using ok task_dead[of task m2] by auto
qed

theorem task_delete_roundtrip_witness:
  "\<exists>task m1 m2. dispatch_task_create 7 9 True empty_mem = Inr (task, m1) \<and>
     dispatch_task_delete task m1 = Inr m2 \<and> heap m2 = heap empty_mem \<and>
     dispatch_task_delete task m2 = Inl Invalid_Pointer"
proof -
  obtain task m1 where c: "dispatch_task_create 7 9 True empty_mem = Inr (task, m1)"
    by (simp add: dispatch_task_create_ok)
  show ?thesis
    using c task_delete_roundtrip[OF mem_ok_empty c, where call = "\<lambda>_ _ u. u" and u = "()"]
    by blast
qed

end
