(* ===== verification/Group.thy ===== *)
theory Group
  imports Task
begin

text \<open>
  Task groups, after \<open>dispatch_group.c\<close>. A group is a struct with a capacity, a count and a
  separately allocated array of task pointers; \<open>group_rep\<close> abstracts it to the list of the
  tasks that were added, and every operation is shown to act on that list.
\<close>

section \<open>Operations\<close>

definition sizeof_dispatch_group :: size_t where
  "sizeof_dispatch_group = 16"

definition dispatch_group_init :: "ptr \<Rightarrow> bool \<Rightarrow> mem \<Rightarrow> mem result" where
  "dispatch_group_init grp waitable m =
     bindE (assertE (grp \<noteq> NULL)) (\<lambda>_.
     bindE (load_group grp m) (\<lambda>g.
     store grp (Group (g\<lparr>group_waitable := waitable, group_count := 0\<rparr>)) m))"

text \<open>
  The struct is written field by field: first \<open>length\<close>, through a pointer that may be null,
  then \<open>tasks\<close>. \<open>waitable\<close> and \<open>count\<close> hold whatever the block held (here \<open>False\<close> and \<open>0\<close>) until
  \<open>dispatch_group_init\<close> overwrites them.
\<close>

definition dispatch_group_create :: "size_t \<Rightarrow> bool \<Rightarrow> mem \<Rightarrow> (ptr \<times> mem) result" where
  "dispatch_group_create len waitable m =
     (let (grp, m) = malloc sizeof_dispatch_group m;
          g = \<lparr>group_length = len, group_count = 0, group_waitable = False,
               group_tasks = NULL\<rparr>
      in bindE (store grp (Group g) m) (\<lambda>m.
         let (tasks, m) = malloc_ptrs len m in
         bindE (store grp (Group (g\<lparr>group_tasks := tasks\<rparr>)) m) (\<lambda>m.
         bindE (dispatch_group_init grp waitable m) (\<lambda>m.
         Inr (grp, m)))))"

definition dispatch_group_task_add :: "ptr \<Rightarrow> ptr \<Rightarrow> mem \<Rightarrow> mem result" where
  "dispatch_group_task_add grp task m =
     bindE (assertE (grp \<noteq> NULL)) (\<lambda>_.
     bindE (load_group grp m) (\<lambda>g.
     bindE (assertE (group_count g < group_length g)) (\<lambda>_.
     bindE (load_task task m) (\<lambda>t.
     bindE (store task (Task (t\<lparr>task_waitable := group_waitable g\<rparr>)) m) (\<lambda>m.
     bindE (write_ptr (group_tasks g) (unat (group_count g)) task m) (\<lambda>m.
     store grp (Group (g\<lparr>group_count := group_count g + 1\<rparr>)) m))))))"

definition dispatch_group_function_add ::
  "ptr \<Rightarrow> fptr \<Rightarrow> ptr \<Rightarrow> mem \<Rightarrow> (ptr \<times> mem) result" where
  "dispatch_group_function_add grp function argument m =
     bindE (load_group grp m) (\<lambda>g.
     bindE (dispatch_task_create function argument (group_waitable g) m) (\<lambda>(task, m).
     bindE (dispatch_group_task_add grp task m) (\<lambda>m.
     Inr (task, m))))"

definition dispatch_group_perform ::
  "(fptr \<Rightarrow> ptr \<Rightarrow> 'u \<Rightarrow> 'u) \<Rightarrow> ptr \<Rightarrow> mem \<Rightarrow> 'u \<Rightarrow> 'u result" where
  "dispatch_group_perform call grp m u =
     bindE (assertE (grp \<noteq> NULL)) (\<lambda>_.
     bindE (load_group grp m) (\<lambda>g.
     for_range 0 (unat (group_count g)) (\<lambda>i u.
       bindE (read_ptr (group_tasks g) i m) (\<lambda>task.
       dispatch_task_perform call task m u)) u))"

definition dispatch_group_delete :: "ptr \<Rightarrow> mem \<Rightarrow> mem result" where
  "dispatch_group_delete grp m =
     bindE (assertE (grp \<noteq> NULL)) (\<lambda>_.
     bindE (load_group grp m) (\<lambda>g.
     bindE (assertE (group_tasks g \<noteq> NULL)) (\<lambda>_.
     bindE (free (group_tasks g) m) (\<lambda>m.
     free grp m))))"

section \<open>The abstraction: a bounded list of tasks\<close>

text \<open>
  \<open>group_rep m grp n w ts\<close>: at \<open>grp\<close> the store holds a group of capacity \<open>n\<close>, waitable flag
  \<open>w\<close>, to which the tasks \<open>ts\<close> were added in this order.
\<close>

definition group_rep :: "mem \<Rightarrow> ptr \<Rightarrow> nat \<Rightarrow> bool \<Rightarrow> ptr list \<Rightarrow> bool" where
  "group_rep m grp n w ts \<longleftrightarrow>
     (\<exists>g xs. grp \<noteq> NULL \<and> heap m grp = Some (Group g) \<and>
        group_tasks g \<noteq> NULL \<and> heap m (group_tasks g) = Some (Ptr_Array xs) \<and>
        unat (group_length g) = n \<and> length xs = n \<and> group_waitable g = w \<and>
        unat (group_count g) = length ts \<and> length ts \<le> n \<and>
        (\<forall>i < length ts. xs ! i = Some (ts ! i)))"

lemma group_repE:
  assumes "group_rep m grp n w ts"
  obtains g xs where "grp \<noteq> NULL" "heap m grp = Some (Group g)"
    "group_tasks g \<noteq> NULL" "heap m (group_tasks g) = Some (Ptr_Array xs)"
    "unat (group_length g) = n" "length xs = n" "group_waitable g = w"
    "unat (group_count g) = length ts" "length ts \<le> n"
    "\<And>i. i < length ts \<Longrightarrow> xs ! i = Some (ts ! i)"
  using assms unfolding group_rep_def by blast

text \<open>Whatever leaves the two blocks of the group alone leaves the group alone.\<close>

lemma group_rep_frame:
  assumes "group_rep m grp n w ts"
    and "\<And>p ob. heap m p = Some ob \<Longrightarrow> (\<exists>g. ob = Group g) \<or> (\<exists>xs. ob = Ptr_Array xs)
      \<Longrightarrow> heap m' p = Some ob"
  shows "group_rep m' grp n w ts"
  using assms(1)
  by (rule group_repE) (use assms(2) in \<open>fastforce simp: group_rep_def\<close>)

lemma group_count_less:
  assumes "group_rep m grp n w ts" and "heap m grp = Some (Group g)"
  shows "group_count g < group_length g \<longleftrightarrow> length ts < n"
  using assms by (auto elim!: group_repE simp: word_less_nat_alt)

lemma unat_inc_less: "(c :: size_t) < l \<Longrightarrow> unat (c + 1) = unat c + 1"
  using unsigned_less[of l, where 'a = nat]
  by (simp add: word_less_nat_alt unat_word_ariths)

section \<open>Every operation on the abstraction\<close>

lemma dispatch_group_init_rep:
  assumes "group_rep m grp n w ts"
  shows "\<exists>m'. dispatch_group_init grp w' m = Inr m' \<and> group_rep m' grp n w' [] \<and>
     brk m' = brk m \<and> oom m' = oom m \<and> (\<forall>p. p \<noteq> grp \<longrightarrow> heap m' p = heap m p)"
  using assms
proof (rule group_repE)
  fix g xs
  assume g: "grp \<noteq> NULL" "heap m grp = Some (Group g)" "group_tasks g \<noteq> NULL"
    "heap m (group_tasks g) = Some (Ptr_Array xs)" "unat (group_length g) = n" "length xs = n"
  let ?m = "m\<lparr>heap := (heap m)(grp \<mapsto> Group (g\<lparr>group_waitable := w', group_count := 0\<rparr>))\<rparr>"
  have "dispatch_group_init grp w' m = Inr ?m"
    using g by (auto simp: dispatch_group_init_def result_simps mem_simps)
  moreover have "group_rep ?m grp n w' []"
    using g by (auto simp: group_rep_def)
  ultimately show ?thesis by simp
qed

lemma dispatch_group_create_rep:
  assumes ok: "mem_ok m" and n: "unat n < 2 ^ 30"
    and mem: "\<not> oom m (brk m)" "\<not> oom m (Suc (brk m))"
  shows "\<exists>grp m'. dispatch_group_create n w m = Inr (grp, m') \<and> mem_ok m' \<and>
     group_rep m' grp (unat n) w [] \<and> heap m grp = None \<and>
     (\<forall>p. heap m p \<noteq> None \<longrightarrow> heap m' p = heap m p)"
proof -
  let ?a = "Suc (brk m)" and ?b = "Suc (Suc (brk m))"
  let ?m' = "m\<lparr>brk := ?b, heap := (heap m)
     (?a \<mapsto> Group \<lparr>group_length = n, group_count = 0, group_waitable = w, group_tasks = ?b\<rparr>,
      ?b \<mapsto> Ptr_Array (replicate (unat n) None))\<rparr>"
  have "dispatch_group_create n w m = Inr (?a, ?m')"
    using mem ptr_slots[OF n]
    by (simp add: dispatch_group_create_def malloc_ok malloc_ptrs_ok store_def
        dispatch_group_init_def load_group_def load_def fun_upd_twist)
  moreover have "mem_ok ?m'"
    using ok by (auto simp: mem_ok_def)
  moreover have "group_rep ?m' ?a (unat n) w []"
    by (auto simp: group_rep_def)
  moreover have "\<forall>p. heap m p \<noteq> None \<longrightarrow> heap ?m' p = heap m p"
    using ok by (auto simp: mem_ok_def)
  ultimately show ?thesis using mem_ok_fresh[OF ok] by blast
qed

lemma dispatch_group_task_add_rep:
  assumes rep: "group_rep m grp n w ts" and room: "length ts < n"
    and t: "task \<noteq> NULL" "heap m task = Some (Task t)"
  shows "\<exists>m'. dispatch_group_task_add grp task m = Inr m' \<and>
     group_rep m' grp n w (ts @ [task]) \<and> brk m' = brk m \<and> oom m' = oom m \<and>
     heap m' task = Some (Task (t\<lparr>task_waitable := w\<rparr>)) \<and>
     (\<forall>p t'. p \<noteq> task \<longrightarrow> heap m' p = Some (Task t') \<longleftrightarrow> heap m p = Some (Task t'))"
  using rep
proof (rule group_repE)
  fix g xs
  assume g: "grp \<noteq> NULL" "heap m grp = Some (Group g)" "group_tasks g \<noteq> NULL"
    "heap m (group_tasks g) = Some (Ptr_Array xs)" "unat (group_length g) = n" "length xs = n"
    "group_waitable g = w" "unat (group_count g) = length ts"
    and xs: "\<And>i. i < length ts \<Longrightarrow> xs ! i = Some (ts ! i)"
  have less: "group_count g < group_length g"
    using group_count_less[OF rep g(2)] room by simp
  have ne: "task \<noteq> grp" "task \<noteq> group_tasks g" "grp \<noteq> group_tasks g"
    using g t by auto
  let ?m' = "m\<lparr>heap := (heap m)(task \<mapsto> Task (t\<lparr>task_waitable := w\<rparr>),
     group_tasks g \<mapsto> Ptr_Array (xs[length ts := Some task]),
     grp \<mapsto> Group (g\<lparr>group_count := group_count g + 1\<rparr>))\<rparr>"
  have "dispatch_group_task_add grp task m = Inr ?m'"
    using g t ne room less
    by (auto simp: dispatch_group_task_add_def result_simps mem_simps)
  moreover have "group_rep ?m' grp n w (ts @ [task])"
    using g ne room xs unat_inc_less[OF less]
    by (auto simp: group_rep_def nth_append nth_list_update less_Suc_eq)
  ultimately show ?thesis using ne t g by auto
qed

lemma dispatch_group_task_add_full:
  assumes "group_rep m grp n w ts" and "length ts = n"
  shows "dispatch_group_task_add grp task m = Inl Assertion_Failed"
  using assms group_count_less[OF assms(1)]
  by (auto elim!: group_repE simp: dispatch_group_task_add_def load_group_def load_def)

lemma dispatch_group_perform_rep:
  assumes rep: "group_rep m grp n w ts" and run: "\<And>p. p \<in> set ts \<Longrightarrow> calls_at m p (C p)"
  shows "dispatch_group_perform call grp m u = Inr (run_calls call (map C ts) u)"
  using rep
proof (rule group_repE)
  fix g xs
  assume g: "grp \<noteq> NULL" "heap m grp = Some (Group g)" "group_tasks g \<noteq> NULL"
    "heap m (group_tasks g) = Some (Ptr_Array xs)" "length xs = n"
    "unat (group_count g) = length ts" "length ts \<le> n"
    and xs: "\<And>i. i < length ts \<Longrightarrow> xs ! i = Some (ts ! i)"
  let ?body = "\<lambda>i u. bindE (read_ptr (group_tasks g) i m) (\<lambda>task.
       dispatch_task_perform call task m u)"
  let ?run = "\<lambda>i. run_calls call (map C (take i ts)) u"
  have "\<exists>v. for_range 0 (length ts) ?body u = Inr v \<and> v = ?run (length ts)"
  proof (rule for_range_rule[where P = "\<lambda>i v. v = ?run i"])
    fix j v
    assume j: "j < length ts" and v: "v = ?run j"
    have "read_ptr (group_tasks g) j m = Inr (ts ! j)"
      using g j xs by (auto simp: mem_simps)
    moreover have "dispatch_task_perform call (ts ! j) m v =
        Inr (call (fst (C (ts ! j))) (snd (C (ts ! j))) v)"
      using j by (intro perform_calls_at run) simp
    ultimately show "\<exists>t'. ?body j v = Inr t' \<and> t' = ?run (Suc j)"
      using v j by (simp add: take_Suc_conv_app_nth)
  qed simp_all
  with g show ?thesis
    by (simp add: dispatch_group_perform_def load_group_def load_def)
qed

lemma dispatch_group_delete_rep:
  assumes "group_rep m grp n w ts"
  shows "\<exists>m' tasks. dispatch_group_delete grp m = Inr m' \<and> brk m' = brk m \<and>
     heap m grp \<noteq> None \<and> heap m tasks \<noteq> None \<and> tasks \<noteq> grp \<and>
     heap m' = (heap m)(grp := None, tasks := None)"
  using assms
  by (rule group_repE)
    (auto simp: dispatch_group_delete_def load_group_def load_def free_def fun_upd_twist)

text \<open>
  Groups are bounded stores of live tasks, whichever calls \<open>C\<close> those tasks make: adding never
  changes what any of them calls.
\<close>

interpretation grp_store: bounded_store "\<lambda>m n ts. group_rep m grp n w ts"
  "\<lambda>m p. calls_at m p (C p)" "dispatch_group_task_add grp"
  for grp w C
proof
  fix m n ts
  assume "group_rep m grp n w ts"
  then show "length ts \<le> n" by (rule group_repE)
next
  fix m n ts p
  assume rep: "group_rep m grp n w ts" and room: "length ts < n" and p: "calls_at m p (C p)"
  from p obtain t where t: "p \<noteq> NULL" "heap m p = Some (Task t)"
    by (auto simp: calls_at_def)
  from dispatch_group_task_add_rep[OF rep room t] obtain m' where m':
    "dispatch_group_task_add grp p m = Inr m'" "group_rep m' grp n w (ts @ [p])"
    "heap m' p = Some (Task (t\<lparr>task_waitable := w\<rparr>))"
    "\<forall>q t'. q \<noteq> p \<longrightarrow> heap m' q = Some (Task t') \<longleftrightarrow> heap m q = Some (Task t')"
    by auto
  have "calls_at m' q (C q)" if "calls_at m q (C q)" for q
    using that m'(3,4) t by (cases "q = p") (auto simp: calls_at_def)
  with m' show "\<exists>m'. dispatch_group_task_add grp p m = Inr m' \<and>
      group_rep m' grp n w (ts @ [p]) \<and> (\<forall>y. calls_at m y (C y) \<longrightarrow> calls_at m' y (C y))"
    by blast
qed

section \<open>Properties\<close>

text \<open>C39: a group runs its tasks in the order in which they were added. From any store with
  live tasks \<open>ts\<close>, a group created for \<open>n\<close> tasks accepts all of \<open>ts\<close> as long as they fit; performing
  it in the caller's thread then makes exactly the calls of \<open>ts\<close>, in order and each once per
  addition; and when the group is full, one more task is refused by an assertion before
  anything is written.\<close>

theorem group_add_perform:
  assumes "mem_ok m" and "unat n < 2 ^ 30" and "\<not> oom m (brk m)" "\<not> oom m (Suc (brk m))"
    and live: "\<And>p. p \<in> set ts \<Longrightarrow> calls_at m p (C p)" and fits: "length ts \<le> unat n"
  shows "\<exists>grp m1 m2. dispatch_group_create n w m = Inr (grp, m1) \<and>
     foldE (dispatch_group_task_add grp) ts m1 = Inr m2 \<and>
     group_rep m2 grp (unat n) w ts \<and>
     dispatch_group_perform call grp m2 u = Inr (run_calls call (map C ts) u) \<and>
     (length ts = unat n \<longrightarrow>
        (\<forall>p. dispatch_group_task_add grp p m2 = Inl Assertion_Failed))"
proof -
  from dispatch_group_create_rep[OF assms(1-4)] obtain grp m1 where m1:
    "dispatch_group_create n w m = Inr (grp, m1)" "group_rep m1 grp (unat n) w []"
    "\<forall>p. heap m p \<noteq> None \<longrightarrow> heap m1 p = heap m p"
    by blast
  have live1: "calls_at m1 p (C p)" if "p \<in> set ts" for p
    using live[OF that] m1(3) by (auto simp: calls_at_def)
  obtain m2 where m2: "foldE (dispatch_group_task_add grp) ts m1 = Inr m2"
    "group_rep m2 grp (unat n) w ts" "\<forall>p. calls_at m1 p (C p) \<longrightarrow> calls_at m2 p (C p)"
    using grp_store.add_all_rep[where C = C, OF m1(2), of ts] fits live1
    unfolding append_Nil list.size(3) add_0 by blast
  have "dispatch_group_perform call grp m2 u = Inr (run_calls call (map C ts) u)"
    by (rule dispatch_group_perform_rep[OF m2(2)]) (use m2(3) live1 in simp)
  with m1 m2 dispatch_group_task_add_full[OF m2(2)] show ?thesis by blast
qed

text \<open>A store with two tasks at the addresses 1 and 2, for the witnesses.\<close>

definition two_tasks :: mem where
  "two_tasks =
     empty_mem\<lparr>brk := 2, heap := [1 \<mapsto> Task \<lparr>task_function = 7, task_argument = 70,
         task_waitable = False, task_private_data = NULL\<rparr>,
       2 \<mapsto> Task \<lparr>task_function = 8, task_argument = 80,
         task_waitable = False, task_private_data = NULL\<rparr>]\<rparr>"

lemma two_tasks_ok: "mem_ok two_tasks"
  by (auto simp: mem_ok_def two_tasks_def)

theorem group_add_perform_witness:
  "\<exists>grp m1 m2. dispatch_group_create 2 True two_tasks = Inr (grp, m1) \<and>
     foldE (dispatch_group_task_add grp) [2, 1] m1 = Inr m2 \<and>
     dispatch_group_perform (\<lambda>f a u. u @ [(f, a)]) grp m2 [] = Inr [(8, 80), (7, 70)] \<and>
     dispatch_group_task_add grp 1 m2 = Inl Assertion_Failed"
proof -
  let ?C = "\<lambda>p :: ptr. if p = 1 then (7 :: fptr, 70 :: ptr) else (8, 80)"
  have "calls_at two_tasks p (?C p)" if "p \<in> set [2, 1]" for p
    using that by (auto simp: calls_at_def two_tasks_def)
  from group_add_perform[where C = ?C and w = True and n = 2 and u = "[]"
      and call = "\<lambda>f a u. u @ [(f, a)]", OF two_tasks_ok _ _ _ this]
  show ?thesis by (fastforce simp: two_tasks_def)
qed

text \<open>A group does not leak. Creating a group and deleting it again gives back the store
  from before, block for block, and a second deletion is refused as an access to a dead
  object.\<close>

theorem group_delete_roundtrip:
  assumes "mem_ok m" and "unat n < 2 ^ 30" and "\<not> oom m (brk m)" "\<not> oom m (Suc (brk m))"
  shows "\<exists>grp m1 m2. dispatch_group_create n w m = Inr (grp, m1) \<and>
     dispatch_group_delete grp m1 = Inr m2 \<and> heap m2 = heap m \<and>
     dispatch_group_delete grp m2 = Inl Invalid_Pointer"
  using assms mem_ok_fresh[OF assms(1)]
  by (simp add: dispatch_group_create_def malloc_ok malloc_ptrs_ok store_def free_def
      dispatch_group_init_def dispatch_group_delete_def load_group_def load_def)
    (auto simp: fun_eq_iff mem_ok_def)

theorem group_delete_roundtrip_witness:
  "\<exists>grp m1 m2. dispatch_group_create 3 False empty_mem = Inr (grp, m1) \<and>
     dispatch_group_delete grp m1 = Inr m2 \<and> heap m2 = heap empty_mem"
  using group_delete_roundtrip[OF mem_ok_empty, of 3 False] by fastforce

text \<open>\<open>dispatch_group_function_add\<close>. While there is room it creates one task, adds it at the
  end of the group and returns it; the task makes the given call and is waitable exactly if
  the group is. On a full group it ends in the assertion, after the task was allocated.\<close>

theorem group_function_add:
  assumes ok: "mem_ok m" and rep: "group_rep m grp n w ts" and "f \<noteq> NULL" "\<not> oom m (brk m)"
  shows "(length ts < n \<longrightarrow> (\<exists>task m'.
       dispatch_group_function_add grp f a m = Inr (task, m') \<and>
       group_rep m' grp n w (ts @ [task]) \<and> heap m task = None \<and>
       heap m' task = Some (Task \<lparr>task_function = f, task_argument = a,
          task_waitable = w, task_private_data = NULL\<rparr>))) \<and>
     (length ts = n \<longrightarrow> dispatch_group_function_add grp f a m = Inl Assertion_Failed)"
proof -
  define t where "t = \<lparr>task_function = f, task_argument = a, task_waitable = w,
     task_private_data = NULL\<rparr>"
  define m1 where "m1 = m\<lparr>brk := Suc (brk m), heap := (heap m)(Suc (brk m) \<mapsto> Task t)\<rparr>"
  have rep1: "group_rep m1 grp n w ts"
    by (rule group_rep_frame[OF rep])
      (use mem_ok_not_fresh[OF ok] in \<open>auto simp: m1_def\<close>)
  have add: "dispatch_group_function_add grp f a m =
      bindE (dispatch_group_task_add grp (Suc (brk m)) m1) (\<lambda>m'. Inr (Suc (brk m), m'))"
    using rep dispatch_task_create_ok[OF assms(3,4), of a w]
    by (auto elim!: group_repE simp: dispatch_group_function_add_def load_group_def load_def
        m1_def t_def)
  have "\<exists>m'. dispatch_group_task_add grp (Suc (brk m)) m1 = Inr m' \<and>
      group_rep m' grp n w (ts @ [Suc (brk m)]) \<and>
      heap m' (Suc (brk m)) = Some (Task (t\<lparr>task_waitable := w\<rparr>))" if "length ts < n"
    using dispatch_group_task_add_rep[OF rep1 that, of "Suc (brk m)" t] by (auto simp: m1_def)
  with add dispatch_group_task_add_full[OF rep1] mem_ok_fresh[OF ok] show ?thesis
    by (auto simp: t_def)
qed

theorem group_function_add_witness:
  "\<exists>grp m1 task m2. dispatch_group_create 1 True empty_mem = Inr (grp, m1) \<and>
     dispatch_group_function_add grp 7 9 m1 = Inr (task, m2) \<and>
     heap m2 task = Some (Task \<lparr>task_function = 7, task_argument = 9,
          task_waitable = True, task_private_data = NULL\<rparr>)"
proof -
  obtain grp m1 where m1: "dispatch_group_create 1 True empty_mem = Inr (grp, m1)"
    "mem_ok m1" "group_rep m1 grp 1 True []"
    using dispatch_group_create_rep[OF mem_ok_empty, of 1 True] by auto
  then have "\<not> oom m1 (brk m1)"
    by (auto simp: dispatch_group_create_def malloc_ok malloc_ptrs_ok store_def
        dispatch_group_init_def load_group_def load_def)
  with group_function_add[OF m1(2,3), of 7 9] m1(1) show ?thesis by auto
qed

end
