(* ===== verification/Event_Counter.thy ===== *)
theory Event_Counter
  imports Spinlock
begin

text \<open>
  The event counters of the two embedded implementations, after \<open>event_counter_metal.c\<close> and
  \<open>event_counter_rtos.c\<close>: a counter is created with the number of events to wait for, each event
  signals it, and the last one notifies the waiter. The notification is an end token on a
  streaming channel or a binary semaphore, neither of which is part of the library: their
  operations are the fields of \<open>note_ops\<close>, and \<open>note_laws\<close> is what both have in common. The body
  between taking and giving back the lock (a spinlock, or a critical section of the kernel) is
  one definition, \<open>event_counter_decrement\<close>.

  Both implementations interpret the contract \<open>countdown\<close>, from which it follows that a waiter is
  released by the last signal and by no other.
\<close>

section \<open>Notifications\<close>

record 'n note_ops =
  notify :: "'n \<Rightarrow> nat \<Rightarrow> 'n"
  await :: "'n \<Rightarrow> nat \<Rightarrow> 'n option"

text \<open>
  \<open>tokens n h\<close> is the number of notifications given on \<open>h\<close> and not yet taken. Where there is none,
  giving makes it one (a semaphore that is already given may ignore it); taking one waits
  while there is none.
\<close>

definition note_laws :: "'n note_ops \<Rightarrow> ('n \<Rightarrow> nat \<Rightarrow> nat) \<Rightarrow> bool" where
  "note_laws N tokens \<longleftrightarrow>
     (\<forall>n h. tokens n h = 0 \<longrightarrow> tokens (notify N n h) = (tokens n)(h := 1)) \<and>
     (\<forall>n h. await N n h = None \<longleftrightarrow> tokens n h = 0) \<and>
     (\<forall>n h n'. await N n h = Some n' \<longrightarrow> tokens n' = (tokens n)(h := tokens n h - 1))"

text \<open>Binary semaphores that keep the laws.\<close>

definition binary_notes :: "(nat \<Rightarrow> nat) note_ops" where
  "binary_notes =
     \<lparr>notify = (\<lambda>n h. n(h := 1)),
      await = (\<lambda>n h. if n h = 0 then None else Some (n(h := n h - 1)))\<rparr>"

lemma binary_notes_laws: "note_laws binary_notes (\<lambda>n. n)"
  by (auto simp: note_laws_def binary_notes_def)

section \<open>The bare-metal counter\<close>

definition event_counter_create_metal :: "nat \<Rightarrow> size_t \<Rightarrow> mem \<Rightarrow> (ptr \<times> mem) result" where
  "event_counter_create_metal chan count m =
     (let (counter, m) = malloc 16 m;
          c = \<lparr>ec_lock = NULL, ec_cend = 0, ec_count = count\<rparr>
      in bindE (store counter (Counter_Metal c) m) (\<lambda>m.
         bindE (spinlock_create m) (\<lambda>(lock, m).
         bindE (store counter (Counter_Metal (c\<lparr>ec_lock := lock, ec_cend := chan\<rparr>)) m) (\<lambda>m.
         Inr (counter, m)))))"

definition event_counter_decrement_metal :: "ptr \<Rightarrow> mem \<Rightarrow> (bool \<times> mem) result" where
  "event_counter_decrement_metal counter m =
     bindE (load_counter_metal counter m) (\<lambda>c.
     if ec_count c > 0 then
       bindE (store counter (Counter_Metal (c\<lparr>ec_count := ec_count c - 1\<rparr>)) m) (\<lambda>m.
       Inr (ec_count c - 1 = 0, m))
     else Inr (False, m))"

definition event_counter_signal_metal :: "'n note_ops \<Rightarrow> ptr \<Rightarrow> mem \<times> 'n \<Rightarrow> (mem \<times> 'n) result" where
  "event_counter_signal_metal N counter mn =
     (let (m, n) = mn in
      bindE (assertE (counter \<noteq> NULL)) (\<lambda>_.
      bindE (event_counter_decrement_metal counter m) (\<lambda>(signal, m).
      if signal then
        bindE (load_counter_metal counter m) (\<lambda>c. Inr (m, notify N n (ec_cend c)))
      else Inr (m, n))))"

text \<open>\<open>None\<close> inside the result: the caller stays blocked.\<close>

definition event_counter_wait_metal :: "'n note_ops \<Rightarrow> ptr \<Rightarrow> mem \<Rightarrow> 'n \<Rightarrow> 'n option result" where
  "event_counter_wait_metal N counter m n =
     bindE (assertE (counter \<noteq> NULL)) (\<lambda>_.
     bindE (load_counter_metal counter m) (\<lambda>c. Inr (await N n (ec_cend c))))"

definition event_counter_delete_metal :: "ptr \<Rightarrow> mem \<Rightarrow> mem result" where
  "event_counter_delete_metal counter m =
     bindE (assertE (counter \<noteq> NULL)) (\<lambda>_.
     bindE (load_counter_metal counter m) (\<lambda>c.
     bindE (spinlock_delete (ec_lock c) m) (\<lambda>m.
     free counter m)))"

section \<open>The FreeRTOS counter\<close>

definition event_counter_create_rtos :: "nat \<Rightarrow> size_t \<Rightarrow> mem \<Rightarrow> (ptr \<times> mem) result" where
  "event_counter_create_rtos semaphore count m =
     (let (counter, m) = malloc 8 m in
      bindE (store counter (Counter_Rtos \<lparr>es_semaphore = semaphore, es_count = count\<rparr>) m) (\<lambda>m.
      Inr (counter, m)))"

definition event_counter_decrement_rtos :: "ptr \<Rightarrow> mem \<Rightarrow> (bool \<times> mem) result" where
  "event_counter_decrement_rtos counter m =
     bindE (load_counter_rtos counter m) (\<lambda>c.
     if es_count c > 0 then
       bindE (store counter (Counter_Rtos (c\<lparr>es_count := es_count c - 1\<rparr>)) m) (\<lambda>m.
       Inr (es_count c - 1 = 0, m))
     else Inr (False, m))"

definition event_counter_signal_rtos :: "'n note_ops \<Rightarrow> ptr \<Rightarrow> mem \<times> 'n \<Rightarrow> (mem \<times> 'n) result" where
  "event_counter_signal_rtos N counter mn =
     (let (m, n) = mn in
      bindE (assertE (counter \<noteq> NULL)) (\<lambda>_.
      bindE (event_counter_decrement_rtos counter m) (\<lambda>(signal, m).
      if signal then
        bindE (load_counter_rtos counter m) (\<lambda>c. Inr (m, notify N n (es_semaphore c)))
      else Inr (m, n))))"

definition event_counter_wait_rtos :: "'n note_ops \<Rightarrow> ptr \<Rightarrow> mem \<Rightarrow> 'n \<Rightarrow> 'n option result" where
  "event_counter_wait_rtos N counter m n =
     bindE (assertE (counter \<noteq> NULL)) (\<lambda>_.
     bindE (load_counter_rtos counter m) (\<lambda>c. Inr (await N n (es_semaphore c))))"

definition event_counter_delete_rtos :: "ptr \<Rightarrow> mem \<Rightarrow> mem result" where
  "event_counter_delete_rtos counter m =
     bindE (assertE (counter \<noteq> NULL)) (\<lambda>_.
     bindE (load_counter_rtos counter m) (\<lambda>_. free counter m))"

section \<open>The contract\<close>

text \<open>
  \<open>rep m h k\<close>: the store holds a counter that waits for \<open>k\<close> more events and will notify on \<open>h\<close>.
\<close>

locale countdown =
  fixes rep :: "mem \<Rightarrow> nat \<Rightarrow> nat \<Rightarrow> bool"
    and signal :: "mem \<times> 'n \<Rightarrow> (mem \<times> 'n) result"
    and wait :: "mem \<Rightarrow> 'n \<Rightarrow> 'n option result"
    and N :: "'n note_ops"
  assumes signal_rep: "rep m h k \<Longrightarrow>
      \<exists>m'. signal (m, n) = Inr (m', if k = 1 then notify N n h else n) \<and> rep m' h (k - 1)"
    and wait_rep: "rep m h k \<Longrightarrow> wait m n = Inr (await N n h)"
begin

text \<open>Any number of signals: one notification, if the count was reached.\<close>

lemma signals_rep:
  assumes "rep m h k"
  shows "\<exists>m'. foldE (\<lambda>_. signal) [0..<j] (m, n) =
      Inr (m', if 0 < k \<and> k \<le> j then notify N n h else n) \<and> rep m' h (k - j)"
proof (induction j)
  case 0
  then show ?case using assms by auto
next
  case (Suc j)
  then obtain m' where m': "foldE (\<lambda>_. signal) [0..<j] (m, n) =
      Inr (m', if 0 < k \<and> k \<le> j then notify N n h else n)" "rep m' h (k - j)" by blast
  obtain m'' where "signal (m', if 0 < k \<and> k \<le> j then notify N n h else n) = Inr (m'',
      if k - j = 1 then notify N (if 0 < k \<and> k \<le> j then notify N n h else n) h
      else if 0 < k \<and> k \<le> j then notify N n h else n)" "rep m'' h (k - j - 1)"
    using signal_rep[OF m'(2)] by blast
  with m'(1) show ?case by auto
qed

text \<open>A waiter is released after the last signal and not before; and by it alone.\<close>

lemma wait_after_signals:
  assumes "rep m h k" and laws: "note_laws N tokens" and "tokens n h = 0"
  shows "\<exists>m' n'. foldE (\<lambda>_. signal) [0..<j] (m, n) = Inr (m', n') \<and> rep m' h (k - j) \<and>
     (if 0 < k \<and> k \<le> j then \<exists>n''. wait m' n' = Inr (Some n'') \<and> wait m' n'' = Inr None
      else wait m' n' = Inr None)"
proof -
  obtain m' where m': "foldE (\<lambda>_. signal) [0..<j] (m, n) =
      Inr (m', if 0 < k \<and> k \<le> j then notify N n h else n)" "rep m' h (k - j)"
    using signals_rep[OF assms(1)] by blast
  show ?thesis
  proof (cases "0 < k \<and> k \<le> j")
    case True
    have one: "tokens (notify N n h) h = 1" using laws assms(3) by (simp add: note_laws_def)
    then obtain n'' where n'': "await N (notify N n h) h = Some n''"
      using laws by (metis note_laws_def not_None_eq zero_neq_one)
    then have "tokens n'' h = 0" using laws one by (simp add: note_laws_def)
    then have "await N n'' h = None" using laws by (simp add: note_laws_def)
    with m' True n'' wait_rep[OF m'(2)] show ?thesis by auto
  next
    case False
    then have "await N n h = None" using laws assms(3) by (simp add: note_laws_def)
    with m' False wait_rep[OF m'(2)] show ?thesis by auto
  qed
qed

end

definition counter_rep_metal :: "ptr \<Rightarrow> mem \<Rightarrow> nat \<Rightarrow> nat \<Rightarrow> bool" where
  "counter_rep_metal p m h k \<longleftrightarrow> p \<noteq> NULL \<and>
     (\<exists>c. heap m p = Some (Counter_Metal c) \<and> ec_cend c = h \<and> unat (ec_count c) = k)"

definition counter_rep_rtos :: "ptr \<Rightarrow> mem \<Rightarrow> nat \<Rightarrow> nat \<Rightarrow> bool" where
  "counter_rep_rtos p m h k \<longleftrightarrow> p \<noteq> NULL \<and>
     (\<exists>c. heap m p = Some (Counter_Rtos c) \<and> es_semaphore c = h \<and> unat (es_count c) = k)"

text \<open>The decrement does not wrap: it is taken only from a count that is not zero.\<close>

lemma count_down:
  fixes c :: size_t
  assumes "c > 0"
  shows "unat (c - 1) = unat c - 1" "c - 1 = 0 \<longleftrightarrow> unat c = 1"
proof -
  show minus: "unat (c - 1) = unat c - 1"
    using assms by (metis unat_minus_one word_neq_0_conv)
  have "0 < unat c" using assms by (simp add: word_less_nat_alt)
  moreover have "c - 1 = 0 \<longleftrightarrow> unat (c - 1) = 0" by (simp only: unat_eq_0)
  ultimately show "c - 1 = 0 \<longleftrightarrow> unat c = 1" using minus by auto
qed

lemma decrement_metal_rep:
  assumes "counter_rep_metal p m h k"
  shows "\<exists>m'. event_counter_decrement_metal p m = Inr (k = 1, m') \<and> counter_rep_metal p m' h (k - 1) \<and>
     brk m' = brk m \<and> oom m' = oom m \<and> (\<forall>q. q \<noteq> p \<longrightarrow> heap m' q = heap m q)"
proof -
  from assms obtain c where c: "p \<noteq> NULL" "heap m p = Some (Counter_Metal c)" "ec_cend c = h"
    "unat (ec_count c) = k" by (auto simp: counter_rep_metal_def)
  show ?thesis
  proof (cases "ec_count c > 0")
    case True
    with c count_down[OF True] show ?thesis
      by (simp add: event_counter_decrement_metal_def load_counter_metal_def load_def store_def
          counter_rep_metal_def)
  next
    case False
    then have "k = 0" using c(4) by (simp add: word_less_nat_alt)
    with False c show ?thesis
      by (simp add: event_counter_decrement_metal_def load_counter_metal_def load_def
          counter_rep_metal_def)
  qed
qed

lemma decrement_rtos_rep:
  assumes "counter_rep_rtos p m h k"
  shows "\<exists>m'. event_counter_decrement_rtos p m = Inr (k = 1, m') \<and> counter_rep_rtos p m' h (k - 1) \<and>
     brk m' = brk m \<and> oom m' = oom m \<and> (\<forall>q. q \<noteq> p \<longrightarrow> heap m' q = heap m q)"
proof -
  from assms obtain c where c: "p \<noteq> NULL" "heap m p = Some (Counter_Rtos c)" "es_semaphore c = h"
    "unat (es_count c) = k" by (auto simp: counter_rep_rtos_def)
  show ?thesis
  proof (cases "es_count c > 0")
    case True
    with c count_down[OF True] show ?thesis
      by (simp add: event_counter_decrement_rtos_def load_counter_rtos_def load_def store_def
          counter_rep_rtos_def)
  next
    case False
    then have "k = 0" using c(4) by (simp add: word_less_nat_alt)
    with False c show ?thesis
      by (simp add: event_counter_decrement_rtos_def load_counter_rtos_def load_def
          counter_rep_rtos_def)
  qed
qed

lemma counter_load_metal:
  "counter_rep_metal p m h k \<Longrightarrow> p \<noteq> NULL \<and> (\<exists>c. load_counter_metal p m = Inr c \<and> ec_cend c = h)"
  by (auto simp: counter_rep_metal_def mem_simps)

lemma counter_load_rtos:
  "counter_rep_rtos p m h k \<Longrightarrow> p \<noteq> NULL \<and> (\<exists>c. load_counter_rtos p m = Inr c \<and> es_semaphore c = h)"
  by (auto simp: counter_rep_rtos_def mem_simps)

interpretation ec_metal: countdown "counter_rep_metal p" "event_counter_signal_metal N p"
  "event_counter_wait_metal N p" N for p N
proof
  fix m h k n
  assume rep: "counter_rep_metal p m h k"
  obtain m' where m': "event_counter_decrement_metal p m = Inr (k = 1, m')"
    "counter_rep_metal p m' h (k - 1)" using decrement_metal_rep[OF rep] by blast
  show "\<exists>m'. event_counter_signal_metal N p (m, n) = Inr (m', if k = 1 then notify N n h else n) \<and>
      counter_rep_metal p m' h (k - 1)"
    using m' counter_load_metal[OF rep] counter_load_metal[OF m'(2)]
    by (auto simp: event_counter_signal_metal_def)
  show "event_counter_wait_metal N p m n = Inr (await N n h)"
    using counter_load_metal[OF rep] by (auto simp: event_counter_wait_metal_def)
qed

interpretation ec_rtos: countdown "counter_rep_rtos p" "event_counter_signal_rtos N p"
  "event_counter_wait_rtos N p" N for p N
proof
  fix m h k n
  assume rep: "counter_rep_rtos p m h k"
  obtain m' where m': "event_counter_decrement_rtos p m = Inr (k = 1, m')"
    "counter_rep_rtos p m' h (k - 1)" using decrement_rtos_rep[OF rep] by blast
  show "\<exists>m'. event_counter_signal_rtos N p (m, n) = Inr (m', if k = 1 then notify N n h else n) \<and>
      counter_rep_rtos p m' h (k - 1)"
    using m' counter_load_rtos[OF rep] counter_load_rtos[OF m'(2)]
    by (auto simp: event_counter_signal_rtos_def)
  show "event_counter_wait_rtos N p m n = Inr (await N n h)"
    using counter_load_rtos[OF rep] by (auto simp: event_counter_wait_rtos_def)
qed

section \<open>Creation and deletion\<close>

lemma event_counter_create_metal_ok:
  assumes "\<not> oom m (brk m)" "\<not> oom m (Suc (brk m))"
  shows "event_counter_create_metal chan count m = Inr (Suc (brk m),
     m\<lparr>brk := Suc (Suc (brk m)), heap := (heap m)
       (Suc (brk m) \<mapsto> Counter_Metal \<lparr>ec_lock = Suc (Suc (brk m)), ec_cend = chan, ec_count = count\<rparr>,
        Suc (Suc (brk m)) \<mapsto> Spinlock SPINLOCK_INITIAL_VALUE)\<rparr>)"
  using assms
  by (simp add: event_counter_create_metal_def spinlock_create_def malloc_ok store_def fun_upd_twist)

lemma event_counter_create_rtos_ok:
  assumes "\<not> oom m (brk m)"
  shows "event_counter_create_rtos semaphore count m = Inr (Suc (brk m),
     m\<lparr>brk := Suc (brk m), heap := (heap m)
       (Suc (brk m) \<mapsto> Counter_Rtos \<lparr>es_semaphore = semaphore, es_count = count\<rparr>)\<rparr>)"
  using assms by (simp add: event_counter_create_rtos_def malloc_ok store_def)

section \<open>Properties\<close>

text \<open>C38: the bare-metal event counter counts. After creation with \<open>count\<close> events and any number
  \<open>j\<close> of signals, none of which faults, a wait returns exactly if at least \<open>count\<close> signals came
  and \<open>count\<close> is positive; only one waiter is released, however many more signals come; and a
  counter created with zero events never releases anybody.\<close>

theorem event_counter_metal_counts:
  assumes "\<not> oom m (brk m)" "\<not> oom m (Suc (brk m))"
    and "note_laws N tokens" and "tokens n chan = 0"
  shows "\<exists>p m1. event_counter_create_metal chan count m = Inr (p, m1) \<and>
     (\<forall>j. \<exists>m2 n2. foldE (\<lambda>_. event_counter_signal_metal N p) [0..<j] (m1, n) = Inr (m2, n2) \<and>
        (if 0 < count \<and> unat count \<le> j
         then \<exists>n3. event_counter_wait_metal N p m2 n2 = Inr (Some n3) \<and>
                event_counter_wait_metal N p m2 n3 = Inr None
         else event_counter_wait_metal N p m2 n2 = Inr None))"
proof -
  let ?p = "Suc (brk m)"
  obtain m1 where m1: "event_counter_create_metal chan count m = Inr (?p, m1)"
    "counter_rep_metal ?p m1 chan (unat count)"
    using event_counter_create_metal_ok[OF assms(1,2)] by (simp add: counter_rep_metal_def)
  have pos: "0 < unat count \<longleftrightarrow> 0 < count" by (simp add: word_less_nat_alt)
  show ?thesis
    using m1(1) ec_metal.wait_after_signals[OF m1(2) assms(3,4)] unfolding pos by metis
qed

theorem event_counter_metal_counts_witness:
  "\<exists>p m1 m2 n2 n3. event_counter_create_metal 6 2 empty_mem = Inr (p, m1) \<and>
     foldE (\<lambda>_. event_counter_signal_metal binary_notes p) [0..<2] (m1, \<lambda>_. 0) = Inr (m2, n2) \<and>
     event_counter_wait_metal binary_notes p m2 n2 = Inr (Some n3)"
proof -
  obtain p m1 where p: "event_counter_create_metal 6 2 empty_mem = Inr (p, m1)"
    and w: "\<And>j. \<exists>m2 n2. foldE (\<lambda>_. event_counter_signal_metal binary_notes p) [0..<j] (m1, \<lambda>_. 0) =
        Inr (m2, n2) \<and>
        (if 0 < (2 :: size_t) \<and> unat (2 :: size_t) \<le> j
         then \<exists>n3. event_counter_wait_metal binary_notes p m2 n2 = Inr (Some n3) \<and>
                event_counter_wait_metal binary_notes p m2 n3 = Inr None
         else event_counter_wait_metal binary_notes p m2 n2 = Inr None)"
    using event_counter_metal_counts[of empty_mem binary_notes "\<lambda>n. n" "\<lambda>_. 0" 6 2]
    by (auto simp: binary_notes_laws)
  show ?thesis using p w[of 2] by auto
qed

text \<open>The same holds of the FreeRTOS event counter, with a binary semaphore in place of the
  channel and a critical section in place of the spinlock.\<close>

theorem event_counter_rtos_counts:
  assumes "\<not> oom m (brk m)" and "note_laws N tokens" and "tokens n semaphore = 0"
  shows "\<exists>p m1. event_counter_create_rtos semaphore count m = Inr (p, m1) \<and>
     (\<forall>j. \<exists>m2 n2. foldE (\<lambda>_. event_counter_signal_rtos N p) [0..<j] (m1, n) = Inr (m2, n2) \<and>
        (if 0 < count \<and> unat count \<le> j
         then \<exists>n3. event_counter_wait_rtos N p m2 n2 = Inr (Some n3) \<and>
                event_counter_wait_rtos N p m2 n3 = Inr None
         else event_counter_wait_rtos N p m2 n2 = Inr None))"
proof -
  let ?p = "Suc (brk m)"
  obtain m1 where m1: "event_counter_create_rtos semaphore count m = Inr (?p, m1)"
    "counter_rep_rtos ?p m1 semaphore (unat count)"
    using event_counter_create_rtos_ok[OF assms(1)] by (simp add: counter_rep_rtos_def)
  have pos: "0 < unat count \<longleftrightarrow> 0 < count" by (simp add: word_less_nat_alt)
  show ?thesis
    using m1(1) ec_rtos.wait_after_signals[OF m1(2) assms(2,3)] unfolding pos by metis
qed

theorem event_counter_rtos_counts_witness:
  "\<exists>p m1 m2 n2 n3. event_counter_create_rtos 6 1 empty_mem = Inr (p, m1) \<and>
     foldE (\<lambda>_. event_counter_signal_rtos binary_notes p) [0..<5] (m1, \<lambda>_. 0) = Inr (m2, n2) \<and>
     event_counter_wait_rtos binary_notes p m2 n2 = Inr (Some n3)"
proof -
  obtain p m1 where p: "event_counter_create_rtos 6 1 empty_mem = Inr (p, m1)"
    and w: "\<And>j. \<exists>m2 n2. foldE (\<lambda>_. event_counter_signal_rtos binary_notes p) [0..<j] (m1, \<lambda>_. 0) =
        Inr (m2, n2) \<and>
        (if 0 < (1 :: size_t) \<and> unat (1 :: size_t) \<le> j
         then \<exists>n3. event_counter_wait_rtos binary_notes p m2 n2 = Inr (Some n3) \<and>
                event_counter_wait_rtos binary_notes p m2 n3 = Inr None
         else event_counter_wait_rtos binary_notes p m2 n2 = Inr None)"
    using event_counter_rtos_counts[of empty_mem binary_notes "\<lambda>n. n" "\<lambda>_. 0" 6 1]
    by (auto simp: binary_notes_laws)
  show ?thesis using p w[of 5] by auto
qed

text \<open>An event counter gives back what it took: deleting a counter that was created, in
  either implementation, leaves the store as it was before the creation, and a second deletion
  is refused.\<close>

theorem event_counter_delete_roundtrip:
  assumes ok: "mem_ok m" and "\<not> oom m (brk m)" "\<not> oom m (Suc (brk m))"
  shows "\<exists>p m1 m2 q n1 n2.
     event_counter_create_metal chan count m = Inr (p, m1) \<and>
     event_counter_delete_metal p m1 = Inr m2 \<and> heap m2 = heap m \<and>
     event_counter_delete_metal p m2 = Inl Invalid_Pointer \<and>
     event_counter_create_rtos semaphore count m = Inr (q, n1) \<and>
     event_counter_delete_rtos q n1 = Inr n2 \<and> heap n2 = heap m \<and>
     event_counter_delete_rtos q n2 = Inl Invalid_Pointer"
proof -
  have "heap m (Suc (brk m)) = None" "heap m (Suc (Suc (brk m))) = None"
    using ok by (simp_all add: mem_ok_def)
  then show ?thesis
    using assms(2,3)
    by (simp add: event_counter_create_metal_ok event_counter_create_rtos_ok
        event_counter_delete_metal_def event_counter_delete_rtos_def load_counter_metal_def
        load_counter_rtos_def load_def spinlock_delete_def free_def fun_upd_idem)
qed

theorem event_counter_delete_roundtrip_witness:
  "\<exists>p m1 m2. event_counter_create_metal 6 2 empty_mem = Inr (p, m1) \<and>
     event_counter_delete_metal p m1 = Inr m2 \<and> heap m2 = Map.empty"
  using event_counter_delete_roundtrip[of empty_mem 6 2 0] by auto

end
