(* ===== verification/Dispatch_Common.thy ===== *)
theory Dispatch_Common
  imports Group Event_Counter
begin

text \<open>
  What the dispatch queues of the two embedded targets, \<open>dispatch_queue_metal.c\<close> and
  \<open>dispatch_queue_rtos.c\<close>, have in common: running a task, preparing a task or a group to be
  sent to the workers, and the two halves of a wait. Both files contain this code; it differs
  in the event counter it is linked with, so the operations of the event counter that it calls
  (\<open>create\<close>, \<open>signal\<close>, \<open>delete\<close>) are arguments here.
\<close>

section \<open>Running a task\<close>

text \<open>
  \<open>run_task\<close>: perform the task, then signal its event counter, or delete it if nobody waits.
\<close>

definition run_task :: "(ptr \<Rightarrow> mem \<times> 'n \<Rightarrow> (mem \<times> 'n) result) \<Rightarrow> (fptr \<Rightarrow> ptr \<Rightarrow> 'u \<Rightarrow> 'u) \<Rightarrow> ptr \<Rightarrow> mem \<Rightarrow> 'n \<Rightarrow> 'u \<Rightarrow>
    (mem \<times> 'n \<times> 'u) result" where
  "run_task signal call task m n u =
     bindE (dispatch_task_perform call task m u) (\<lambda>u.
     bindE (load_task task m) (\<lambda>t.
     if task_waitable t then
       bindE (signal (task_private_data t) (m, n)) (\<lambda>(m, n).
       Inr (m, n, u))
     else
       bindE (dispatch_task_delete task m) (\<lambda>m.
       Inr (m, n, u))))"

section \<open>Adding and waiting\<close>

text \<open>
  The parts of \<open>dispatch_queue_task_add\<close> and \<open>dispatch_queue_group_add\<close> before the first
  \<open>queue_send\<close>; \<open>chan\<close> is the channel that a new event counter gets.
\<close>

definition task_add_prepare :: "(nat \<Rightarrow> size_t \<Rightarrow> mem \<Rightarrow> (ptr \<times> mem) result) \<Rightarrow> nat \<Rightarrow> ptr \<Rightarrow> ptr \<Rightarrow> mem \<Rightarrow> mem result" where
  "task_add_prepare create chan ctx task m =
     bindE (assertE (ctx \<noteq> NULL)) (\<lambda>_.
     bindE (assertE (task \<noteq> NULL)) (\<lambda>_.
     bindE (load_task task m) (\<lambda>t.
     if task_waitable t then
       bindE (create chan 1 m) (\<lambda>(counter, m).
       store task (Task (t\<lparr>task_private_data := counter\<rparr>)) m)
     else Inr m)))"

definition group_add_prepare :: "(nat \<Rightarrow> size_t \<Rightarrow> mem \<Rightarrow> (ptr \<times> mem) result) \<Rightarrow> nat \<Rightarrow> ptr \<Rightarrow> ptr \<Rightarrow> mem \<Rightarrow> (ptr \<times> mem) result" where
  "group_add_prepare create chan ctx grp m =
     bindE (assertE (ctx \<noteq> NULL)) (\<lambda>_.
     bindE (assertE (grp \<noteq> NULL)) (\<lambda>_.
     bindE (load_group grp m) (\<lambda>g.
     if group_waitable g then create chan (group_count g) m
     else Inr (NULL, m))))"

text \<open>One turn of the loop of \<open>dispatch_queue_group_add\<close>, before \<open>queue_send\<close>: the task to send.\<close>

definition group_add_next :: "ptr \<Rightarrow> nat \<Rightarrow> ptr \<Rightarrow> mem \<Rightarrow> (ptr option \<times> mem) result" where
  "group_add_next grp i counter m =
     bindE (load_group grp m) (\<lambda>g.
     if i < unat (group_count g) then
       bindE (read_ptr (group_tasks g) i m) (\<lambda>task.
       bindE (load_task task m) (\<lambda>t.
       bindE (store task (Task (t\<lparr>task_private_data := counter\<rparr>)) m) (\<lambda>m.
       Inr (Some task, m))))
     else Inr (None, m))"

text \<open>The event counter that \<open>dispatch_queue_task_wait\<close> and \<open>dispatch_queue_group_wait\<close> wait on.\<close>

definition task_wait_counter :: "ptr \<Rightarrow> mem \<Rightarrow> ptr result" where
  "task_wait_counter task m =
     bindE (assertE (task \<noteq> NULL)) (\<lambda>_.
     bindE (load_task task m) (\<lambda>t.
     bindE (assertE (task_waitable t)) (\<lambda>_.
     Inr (task_private_data t))))"

definition group_wait_counter :: "ptr \<Rightarrow> mem \<Rightarrow> ptr result" where
  "group_wait_counter grp m =
     bindE (assertE (grp \<noteq> NULL)) (\<lambda>_.
     bindE (load_group grp m) (\<lambda>g.
     bindE (assertE (group_waitable g)) (\<lambda>_.
     bindE (read_ptr (group_tasks g) 0 m) (\<lambda>task.
     bindE (load_task task m) (\<lambda>t.
     Inr (task_private_data t))))))"

text \<open>What they do after the wait.\<close>

definition task_wait_finish :: "(ptr \<Rightarrow> mem \<Rightarrow> mem result) \<Rightarrow> ptr \<Rightarrow> ptr \<Rightarrow> mem \<Rightarrow> mem result" where
  "task_wait_finish delete task counter m =
     bindE (delete counter m) (\<lambda>m.
     dispatch_task_delete task m)"

definition group_wait_finish :: "(ptr \<Rightarrow> mem \<Rightarrow> mem result) \<Rightarrow> ptr \<Rightarrow> ptr \<Rightarrow> mem \<Rightarrow> mem result" where
  "group_wait_finish delete grp counter m =
     bindE (delete counter m) (\<lambda>m.
     bindE (load_group grp m) (\<lambda>g.
     for_range 0 (unat (group_count g)) (\<lambda>i m.
       bindE (read_ptr (group_tasks g) i m) (\<lambda>task.
       dispatch_task_delete task m)) m))"

section \<open>Whole calls\<close>

text \<open>
  The calls of a client from entry to return, when no other thread interferes. The state is the
  store, the notifications and the queue, which is used through its contract for \<open>n\<close> items. The
  result \<open>None\<close> says that the call blocks.
\<close>

type_synonym 'n call_state = "mem \<times> 'n \<times> ptr list"

definition send :: "nat \<Rightarrow> ptr \<Rightarrow> 'n call_state \<Rightarrow> 'n call_state option" where
  "send n task = (\<lambda>(m, nt, q). map_option (\<lambda>(_, q). (m, nt, q)) (fifo_step n (Put task) q))"

definition call_task_add :: "(nat \<Rightarrow> size_t \<Rightarrow> mem \<Rightarrow> (ptr \<times> mem) result) \<Rightarrow> nat \<Rightarrow> nat \<Rightarrow> ptr \<Rightarrow> ptr \<Rightarrow>
    'n call_state \<Rightarrow> 'n call_state option result" where
  "call_task_add create n chan ctx task = (\<lambda>(m, nt, q).
     bindE (task_add_prepare create chan ctx task m) (\<lambda>m.
     Inr (send n task (m, nt, q))))"

definition call_group_add :: "(nat \<Rightarrow> size_t \<Rightarrow> mem \<Rightarrow> (ptr \<times> mem) result) \<Rightarrow> nat \<Rightarrow> nat \<Rightarrow> ptr \<Rightarrow> ptr \<Rightarrow>
    'n call_state \<Rightarrow> 'n call_state option result" where
  "call_group_add create n chan ctx grp = (\<lambda>(m, nt, q).
     bindE (group_add_prepare create chan ctx grp m) (\<lambda>(counter, m).
     bindE (load_group grp m) (\<lambda>g.
     for_range 0 (unat (group_count g)) (\<lambda>i st.
       case st of
         None \<Rightarrow> Inr None
       | Some (m, nt, q) \<Rightarrow>
           bindE (read_ptr (group_tasks g) i m) (\<lambda>task.
           bindE (load_task task m) (\<lambda>t.
           bindE (store task (Task (t\<lparr>task_private_data := counter\<rparr>)) m) (\<lambda>m.
           Inr (send n task (m, nt, q))))))
       (Some (m, nt, q)))))"

definition call_wait :: "(ptr \<Rightarrow> mem \<Rightarrow> 'n \<Rightarrow> 'n option result) \<Rightarrow> ptr result \<Rightarrow> (ptr \<Rightarrow> mem \<Rightarrow> mem result) \<Rightarrow>
    'n call_state \<Rightarrow> 'n call_state option result" where
  "call_wait wait counter finish = (\<lambda>(m, nt, q).
     bindE counter (\<lambda>counter.
     bindE (wait counter m nt) (\<lambda>r.
     case r of
       None \<Rightarrow> Inr None
     | Some nt \<Rightarrow> bindE (finish counter m) (\<lambda>m. Inr (Some (m, nt, q))))))"

definition call_task_wait :: "(ptr \<Rightarrow> mem \<Rightarrow> 'n \<Rightarrow> 'n option result) \<Rightarrow> (ptr \<Rightarrow> mem \<Rightarrow> mem result) \<Rightarrow> ptr \<Rightarrow>
    'n call_state \<Rightarrow> 'n call_state option result" where
  "call_task_wait wait delete task = (\<lambda>(m, nt, q).
     call_wait wait (task_wait_counter task m) (task_wait_finish delete task) (m, nt, q))"

definition call_group_wait :: "(ptr \<Rightarrow> mem \<Rightarrow> 'n \<Rightarrow> 'n option result) \<Rightarrow> (ptr \<Rightarrow> mem \<Rightarrow> mem result) \<Rightarrow> ptr \<Rightarrow>
    'n call_state \<Rightarrow> 'n call_state option result" where
  "call_group_wait wait delete grp = (\<lambda>(m, nt, q).
     call_wait wait (group_wait_counter grp m) (group_wait_finish delete grp) (m, nt, q))"

end
