(* ===== verification/Dispatch_Threads.thy ===== *)
theory Dispatch_Threads
  imports Dispatch_Common
begin

text \<open>
  A dispatch queue of one of the embedded targets at work: the worker threads that execute
  \<open>dispatch_queue_worker\<close> and the client thread that adds tasks and groups and waits for them,
  interleaved at every access to shared state. A dispatch queue has one channel end for its
  client, so there is one client thread. The queue between them is used through its contract,
  the bounded first-in first-out list (\<open>fifo_step\<close>): theories \<open>Queue_Metal\<close> and \<open>Queue_Invariant\<close>
  prove it of the bare-metal implementation, and it is the documented behaviour of a kernel
  queue. The dispatch queue is not deleted while the system runs.

  The two targets run the same code over different primitives. Those are the fields of
  \<open>platform\<close>: the operations of the event counter, what a worker does to say that it is busy or
  ready again, and the loop of \<open>dispatch_queue_wait\<close>. Theories \<open>Dispatch_Metal\<close> and \<open>Dispatch_RTOS\<close> hold
  the two instances.

  Some fields of the state are bookkeeping that no step depends on: in which phase of its life
  a task is, which event counter stands for which tasks, and the histories of the tasks sent
  and performed.
\<close>

section \<open>The state\<close>

datatype worker_pc =
    K_Receive
  | K_Claim ptr
  | K_Perform ptr
  | K_Finish ptr
  | K_Signal ptr ptr
  | K_Notify ptr
  | K_Ready
  | K_Fault error

text \<open>What the client waits for.\<close>

datatype wait_target = For_Task ptr | For_Group ptr

text \<open>\<open>C_Send task k\<close>: in \<open>queue_send\<close>, going on with \<open>k\<close>. \<open>C_Busy i b\<close>: in \<open>dispatch_queue_wait\<close>,
  which has found \<open>b\<close> of the first \<open>i\<close> workers busy; \<open>C_Size b\<close>: all workers are counted, the size of
  the queue is next.\<close>

datatype client_pc =
    C_Idle
  | C_Send ptr client_pc
  | C_Group ptr nat ptr
  | C_Await wait_target ptr
  | C_Free wait_target ptr
  | C_Busy nat nat
  | C_Size nat
  | C_Fault error

text \<open>
  The life of a task: not yet added, passed to the dispatch queue and still to be sent, in the
  queue, taken by a worker, finished (its counter signalled, or itself deleted).
\<close>

datatype task_phase = Unknown | Todo | Queued | Taken nat | Finished

record ('n, 'u) disp_sys =
  ds_mem :: mem
  ds_note :: 'n
  ds_app :: 'u
  ds_queue :: "ptr list"
  ds_worker :: "nat \<Rightarrow> worker_pc"
  ds_client :: client_pc
  ds_todo :: "ptr list"
  ds_phase :: "ptr \<Rightarrow> task_phase"
  ds_batch :: "ptr \<rightharpoonup> ptr"
  ds_sent :: "ptr list"
  ds_done :: "ptr list"

section \<open>The platform\<close>

text \<open>
  \<open>pf_decrement\<close> is the part of \<open>event_counter_signal\<close> under the lock, \<open>pf_channel\<close> the channel or the
  semaphore that it notifies afterwards. \<open>pf_poll\<close> is one step of \<open>dispatch_queue_wait\<close>, given the
  number of tasks in the queue; it stays blocked with \<open>None\<close>.
\<close>

record 'n platform =
  pf_create :: "nat \<Rightarrow> size_t \<Rightarrow> mem \<Rightarrow> (ptr \<times> mem) result"
  pf_decrement :: "ptr \<Rightarrow> mem \<Rightarrow> (bool \<times> mem) result"
  pf_channel :: "ptr \<Rightarrow> mem \<Rightarrow> nat result"
  pf_wait :: "ptr \<Rightarrow> mem \<Rightarrow> 'n \<Rightarrow> 'n option result"
  pf_delete :: "ptr \<Rightarrow> mem \<Rightarrow> mem result"
  pf_busy :: "nat \<Rightarrow> mem \<Rightarrow> 'n \<Rightarrow> (mem \<times> 'n) result"
  pf_ready :: "nat \<Rightarrow> mem \<Rightarrow> 'n \<Rightarrow> (mem \<times> 'n) result"
  pf_poll :: "client_pc \<Rightarrow> nat \<Rightarrow> mem \<Rightarrow> 'n \<Rightarrow> client_pc option result"

section \<open>The workers\<close>

definition to_worker :: "nat \<Rightarrow> worker_pc \<Rightarrow> ('n, 'u) disp_sys \<Rightarrow> ('n, 'u) disp_sys" where
  "to_worker i c s = s\<lparr>ds_worker := (ds_worker s)(i := c)\<rparr>"

definition worker_try :: "nat \<Rightarrow> ('n, 'u) disp_sys \<Rightarrow> 'a result \<Rightarrow> ('a \<Rightarrow> ('n, 'u) disp_sys) \<Rightarrow>
    ('n, 'u) disp_sys option" where
  "worker_try i s r f = Some (case r of Inl e \<Rightarrow> to_worker i (K_Fault e) s | Inr x \<Rightarrow> f x)"

text \<open>\<open>dispatch_queue_worker\<close> with the running of a task inside its loop; \<open>i\<close> is the worker.\<close>

definition worker_step :: "'n platform \<Rightarrow> 'n note_ops \<Rightarrow> (fptr \<Rightarrow> ptr \<Rightarrow> 'u \<Rightarrow> 'u) \<Rightarrow> nat \<Rightarrow> nat \<Rightarrow>
    ('n, 'u) disp_sys \<Rightarrow> ('n, 'u) disp_sys option" where
  "worker_step F N call n i s =
     (case ds_worker s i of
        K_Receive \<Rightarrow>
          (case fifo_step n Get (ds_queue s) of
             None \<Rightarrow> None
           | Some (None, _) \<Rightarrow> None
           | Some (Some task, xs) \<Rightarrow> Some (to_worker i (K_Claim task)
               (s\<lparr>ds_queue := xs, ds_phase := (ds_phase s)(task := Taken i)\<rparr>)))
      | K_Claim task \<Rightarrow>
          worker_try i s (pf_busy F i (ds_mem s) (ds_note s)) (\<lambda>(m, nt).
            to_worker i (K_Perform task) (s\<lparr>ds_mem := m, ds_note := nt\<rparr>))
      | K_Perform task \<Rightarrow>
          worker_try i s (dispatch_task_perform call task (ds_mem s) (ds_app s)) (\<lambda>u.
            to_worker i (K_Finish task) (s\<lparr>ds_app := u, ds_done := ds_done s @ [task]\<rparr>))
      | K_Finish task \<Rightarrow>
          worker_try i s
            (bindE (load_task task (ds_mem s)) (\<lambda>t.
             if task_waitable t then Inr (K_Signal task (task_private_data t), s)
             else bindE (dispatch_task_delete task (ds_mem s)) (\<lambda>m.
                  Inr (K_Ready, s\<lparr>ds_mem := m, ds_phase := (ds_phase s)(task := Finished)\<rparr>))))
            (\<lambda>(c, s). to_worker i c s)
      | K_Signal task counter \<Rightarrow>
          worker_try i s
            (bindE (assertE (counter \<noteq> NULL)) (\<lambda>_. pf_decrement F counter (ds_mem s)))
            (\<lambda>(signal, m). to_worker i (if signal then K_Notify counter else K_Ready)
               (s\<lparr>ds_mem := m, ds_phase := (ds_phase s)(task := Finished)\<rparr>))
      | K_Notify counter \<Rightarrow>
          worker_try i s (pf_channel F counter (ds_mem s)) (\<lambda>h.
            to_worker i K_Ready (s\<lparr>ds_note := notify N (ds_note s) h\<rparr>))
      | K_Ready \<Rightarrow>
          worker_try i s (pf_ready F i (ds_mem s) (ds_note s)) (\<lambda>(m, nt).
            to_worker i K_Receive (s\<lparr>ds_mem := m, ds_note := nt\<rparr>))
      | K_Fault e \<Rightarrow> None)"

section \<open>The client\<close>

definition client_try :: "('n, 'u) disp_sys \<Rightarrow> 'a result \<Rightarrow> ('a \<Rightarrow> ('n, 'u) disp_sys option) \<Rightarrow>
    ('n, 'u) disp_sys option" where
  "client_try s r f = (case r of Inl e \<Rightarrow> Some (s\<lparr>ds_client := C_Fault e\<rparr>) | Inr x \<Rightarrow> f x)"

text \<open>The tasks that a wait ends: \<open>ds_batch\<close> forgets them when they are deleted.\<close>

definition wait_finish :: "(ptr \<Rightarrow> mem \<Rightarrow> mem result) \<Rightarrow> wait_target \<Rightarrow> ptr \<Rightarrow> mem \<Rightarrow> mem result" where
  "wait_finish delete target counter m =
     (case target of
        For_Task task \<Rightarrow> task_wait_finish delete task counter m
      | For_Group grp \<Rightarrow> group_wait_finish delete grp counter m)"

definition client_step :: "'n platform \<Rightarrow> nat \<Rightarrow> ('n, 'u) disp_sys \<Rightarrow> ('n, 'u) disp_sys option" where
  "client_step F n s =
     (case ds_client s of
        C_Idle \<Rightarrow> None
      | C_Send task k \<Rightarrow>
          (case fifo_step n (Put task) (ds_queue s) of
             None \<Rightarrow> None
           | Some (_, xs) \<Rightarrow> Some (s\<lparr>ds_queue := xs, ds_client := k, ds_todo := tl (ds_todo s),
               ds_phase := (ds_phase s)(task := Queued), ds_sent := ds_sent s @ [task]\<rparr>))
      | C_Group grp i counter \<Rightarrow>
          client_try s (group_add_next grp i counter (ds_mem s)) (\<lambda>(r, m). Some (case r of
             None \<Rightarrow> s\<lparr>ds_client := C_Idle\<rparr>
           | Some task \<Rightarrow>
               s\<lparr>ds_mem := m, ds_client := C_Send task (C_Group grp (Suc i) counter)\<rparr>))
      | C_Await target counter \<Rightarrow>
          client_try s (pf_wait F counter (ds_mem s) (ds_note s)) (\<lambda>r. case r of
             None \<Rightarrow> None
           | Some nt \<Rightarrow> Some (s\<lparr>ds_note := nt, ds_client := C_Free target counter\<rparr>))
      | C_Free target counter \<Rightarrow>
          client_try s (wait_finish (pf_delete F) target counter (ds_mem s)) (\<lambda>m.
            Some (s\<lparr>ds_mem := m, ds_client := C_Idle,
              ds_batch := (\<lambda>p. if ds_batch s p = Some counter then None else ds_batch s p)\<rparr>))
      | C_Busy i b \<Rightarrow>
          client_try s (pf_poll F (C_Busy i b) (length (ds_queue s)) (ds_mem s) (ds_note s))
            (map_option (\<lambda>c. s\<lparr>ds_client := c\<rparr>))
      | C_Size b \<Rightarrow>
          client_try s (pf_poll F (C_Size b) (length (ds_queue s)) (ds_mem s) (ds_note s))
            (map_option (\<lambda>c. s\<lparr>ds_client := c\<rparr>))
      | C_Fault e \<Rightarrow> None)"

text \<open>
  The calls of the client, up to their first blocking point. A client keeps to the interface:
  it adds a task, or the tasks of a group, once only; it waits only for what it has added, and
  has not yet waited for; a waitable group has a task. A new event counter gets a channel that
  is not in use, and memory for it. Between calls the client may create tasks; to do so and then
  add the task is \<open>dispatch_queue_function_add\<close>.
\<close>

definition fresh_channel :: "('n \<Rightarrow> nat \<Rightarrow> nat) \<Rightarrow> nat \<Rightarrow> ('n, 'u) disp_sys \<Rightarrow> bool" where
  "fresh_channel tokens h s \<longleftrightarrow>
     tokens (ds_note s) h = 0 \<and>
     (\<forall>p c. heap (ds_mem s) p = Some (Counter_Metal c) \<longrightarrow> ec_cend c \<noteq> h) \<and>
     (\<forall>p c. heap (ds_mem s) p = Some (Counter_Rtos c) \<longrightarrow> es_semaphore c \<noteq> h) \<and>
     \<not> oom (ds_mem s) (brk (ds_mem s)) \<and> \<not> oom (ds_mem s) (Suc (brk (ds_mem s)))"

text \<open>A task that may be added: alive, with a function, and not added before.\<close>

definition new_task :: "('n, 'u) disp_sys \<Rightarrow> bool \<Rightarrow> ptr \<Rightarrow> bool" where
  "new_task s w p \<longleftrightarrow> ds_phase s p = Unknown \<and>
     (\<exists>t. heap (ds_mem s) p = Some (Task t) \<and> task_function t \<noteq> NULL \<and> task_waitable t = w)"

definition add_tasks :: "ptr list \<Rightarrow> bool \<Rightarrow> ptr \<Rightarrow> ('n, 'u) disp_sys \<Rightarrow> ('n, 'u) disp_sys" where
  "add_tasks ts w counter s = s\<lparr>ds_todo := ts,
     ds_phase := (\<lambda>p. if p \<in> set ts then Todo else ds_phase s p),
     ds_batch := (\<lambda>p. if p \<in> set ts \<and> w then Some counter else ds_batch s p)\<rparr>"

text \<open>The entry of a call, as a step of the client.\<close>

abbreviation enter_task_add :: "'n platform \<Rightarrow> nat \<Rightarrow> ptr \<Rightarrow> ptr \<Rightarrow> bool \<Rightarrow> ('n, 'u) disp_sys \<Rightarrow> ('n, 'u) disp_sys option" where
  "enter_task_add F h ctx task w s \<equiv>
     client_try s (bindE (task_add_prepare (pf_create F) h ctx task (ds_mem s)) (\<lambda>m.
                   bindE (load_task task m) (\<lambda>t. Inr (m, task_private_data t))))
       (\<lambda>(m, counter). Some (add_tasks [task] w counter (s\<lparr>ds_mem := m, ds_client := C_Send task C_Idle\<rparr>)))"

abbreviation enter_group_add :: "'n platform \<Rightarrow> nat \<Rightarrow> ptr \<Rightarrow> ptr \<Rightarrow> ptr list \<Rightarrow> bool \<Rightarrow> ('n, 'u) disp_sys \<Rightarrow>
    ('n, 'u) disp_sys option" where
  "enter_group_add F h ctx grp ts w s \<equiv>
     client_try s (group_add_prepare (pf_create F) h ctx grp (ds_mem s))
       (\<lambda>(counter, m). Some (add_tasks ts w counter (s\<lparr>ds_mem := m, ds_client := C_Group grp 0 counter\<rparr>)))"

abbreviation enter_task_wait :: "ptr \<Rightarrow> ('n, 'u) disp_sys \<Rightarrow> ('n, 'u) disp_sys option" where
  "enter_task_wait task s \<equiv>
     client_try s (task_wait_counter task (ds_mem s))
       (\<lambda>counter. Some (s\<lparr>ds_client := C_Await (For_Task task) counter\<rparr>))"

abbreviation enter_group_wait :: "ptr \<Rightarrow> ('n, 'u) disp_sys \<Rightarrow> ('n, 'u) disp_sys option" where
  "enter_group_wait grp s \<equiv>
     client_try s (group_wait_counter grp (ds_mem s))
       (\<lambda>counter. Some (s\<lparr>ds_client := C_Await (For_Group grp) counter\<rparr>))"

abbreviation enter_wait :: "ptr \<Rightarrow> ('n, 'u) disp_sys \<Rightarrow> ('n, 'u) disp_sys option" where
  "enter_wait ctx s \<equiv> client_try s (assertE (ctx \<noteq> NULL)) (\<lambda>_. Some (s\<lparr>ds_client := C_Busy 0 0\<rparr>))"

inductive disp_step :: "'n platform \<Rightarrow> 'n note_ops \<Rightarrow> ('n \<Rightarrow> nat \<Rightarrow> nat) \<Rightarrow> (fptr \<Rightarrow> ptr \<Rightarrow> 'u \<Rightarrow> 'u) \<Rightarrow> ptr \<Rightarrow>
    nat \<Rightarrow> nat \<Rightarrow> ('n, 'u) disp_sys \<Rightarrow> ('n, 'u) disp_sys \<Rightarrow> bool"
  for F N tokens call ctx k n where
  worker: "i < k \<Longrightarrow> worker_step F N call n i s = Some s' \<Longrightarrow>
    disp_step F N tokens call ctx k n s s'"
| client: "client_step F n s = Some s' \<Longrightarrow> disp_step F N tokens call ctx k n s s'"
| task_add: "ds_client s = C_Idle \<Longrightarrow> new_task s w task \<Longrightarrow> fresh_channel tokens h s \<Longrightarrow>
    enter_task_add F h ctx task w s = Some s' \<Longrightarrow>
    disp_step F N tokens call ctx k n s s'"
| group_add: "ds_client s = C_Idle \<Longrightarrow> group_rep (ds_mem s) grp l w ts \<Longrightarrow> distinct ts \<Longrightarrow>
    (w \<longrightarrow> ts \<noteq> []) \<Longrightarrow> (\<forall>p \<in> set ts. new_task s w p) \<Longrightarrow> fresh_channel tokens h s \<Longrightarrow>
    enter_group_add F h ctx grp ts w s = Some s' \<Longrightarrow>
    disp_step F N tokens call ctx k n s s'"
| task_wait: "ds_client s = C_Idle \<Longrightarrow> {p. ds_batch s p = Some c} = {task} \<Longrightarrow>
    enter_task_wait task s = Some s' \<Longrightarrow>
    disp_step F N tokens call ctx k n s s'"
| group_wait: "ds_client s = C_Idle \<Longrightarrow> group_rep (ds_mem s) grp l True ts \<Longrightarrow> ts \<noteq> [] \<Longrightarrow>
    distinct ts \<Longrightarrow> {p. ds_batch s p = Some c} = set ts \<Longrightarrow>
    enter_group_wait grp s = Some s' \<Longrightarrow>
    disp_step F N tokens call ctx k n s s'"
| wait_all: "ds_client s = C_Idle \<Longrightarrow> ctx \<noteq> NULL \<Longrightarrow>
    disp_step F N tokens call ctx k n s (s\<lparr>ds_client := C_Busy 0 0\<rparr>)"
| task_create: "ds_client s = C_Idle \<Longrightarrow> dispatch_task_create f a w (ds_mem s) = Inr (task, m) \<Longrightarrow>
    disp_step F N tokens call ctx k n s (s\<lparr>ds_mem := m\<rparr>)"

text \<open>
  At the start: workers launched and ready, nothing added. \<open>env\<close> says what the store and the
  kernel hold of the dispatch queue itself.
\<close>

definition disp_init :: "(mem \<Rightarrow> 'n \<Rightarrow> bool) \<Rightarrow> ('n, 'u) disp_sys \<Rightarrow> bool" where
  "disp_init env s \<longleftrightarrow> env (ds_mem s) (ds_note s) \<and> ds_queue s = [] \<and>
     (\<forall>i. ds_worker s i = K_Receive) \<and> ds_client s = C_Idle \<and> ds_todo s = [] \<and>
     (\<forall>p. ds_phase s p = Unknown) \<and> (\<forall>p. ds_batch s p = None) \<and> ds_sent s = [] \<and> ds_done s = []"

end
