(* ===== verification/Dispatch_Invariant.thy ===== *)
theory Dispatch_Invariant
  imports Dispatch_Threads
begin

text \<open>
  The invariant of the workers and the client of theory \<open>Dispatch_Threads\<close>. It has a part for every
  concern: where each task is (\<open>link_inv\<close>), what the store holds for tasks (\<open>task_inv\<close>) and event
  counters (\<open>batch_inv\<close>), who has been or is being notified (\<open>note_inv\<close>), the histories (\<open>hist_inv\<close>),
  the client (\<open>client_pc_inv\<close>). The lemmas say how each part changes, or does not, when a task moves
  or the store changes. The invariant looks at an event counter of either target through
  \<open>counter_at\<close>.
\<close>

section \<open>The invariant\<close>

fun work :: "worker_pc \<Rightarrow> ptr option" where
  "work (K_Claim p) = Some p"
| "work (K_Perform p) = Some p"
| "work (K_Finish p) = Some p"
| "work (K_Signal p c) = Some p"
| "work c = None"

fun performed :: "worker_pc \<Rightarrow> bool" where
  "performed (K_Finish p) = True"
| "performed (K_Signal p c) = True"
| "performed c = False"

fun active :: "task_phase \<Rightarrow> bool" where
  "active Unknown = False"
| "active Finished = False"
| "active c = True"

definition link_inv :: "(ptr \<Rightarrow> task_phase) \<Rightarrow> ptr list \<Rightarrow> ptr list \<Rightarrow> (nat \<Rightarrow> worker_pc) \<Rightarrow> bool" where
  "link_inv ph todo xs pcs \<longleftrightarrow> distinct todo \<and> distinct xs \<and>
     (\<forall>p. ph p = Todo \<longleftrightarrow> p \<in> set todo) \<and> (\<forall>p. ph p = Queued \<longleftrightarrow> p \<in> set xs) \<and>
     (\<forall>p i. ph p = Taken i \<longleftrightarrow> work (pcs i) = Some p)"

text \<open>
  A task on its way is alive, and waitable exactly if it has an event counter; a task with an
  event counter stays alive, and points to it unless it is among \<open>un\<close>, the tasks of a group
  whose turn in the loop has not come.
\<close>

definition task_inv :: "mem \<Rightarrow> (ptr \<Rightarrow> task_phase) \<Rightarrow> (ptr \<rightharpoonup> ptr) \<Rightarrow> ptr list \<Rightarrow> bool" where
  "task_inv m ph bat un \<longleftrightarrow>
     (\<forall>p. active (ph p) \<longrightarrow> (\<exists>t. heap m p = Some (Task t) \<and> task_function t \<noteq> NULL \<and>
        task_waitable t = (bat p \<noteq> None))) \<and>
     (\<forall>p c. bat p = Some c \<longrightarrow> ph p \<noteq> Unknown \<and>
        (\<exists>t. heap m p = Some (Task t) \<and> task_waitable t \<and>
           (p \<notin> set un \<longrightarrow> task_private_data t = c)))"

text \<open>The tasks that an event counter still waits for.\<close>

definition outstanding :: "(ptr \<Rightarrow> task_phase) \<Rightarrow> (ptr \<rightharpoonup> ptr) \<Rightarrow> ptr \<Rightarrow> ptr set" where
  "outstanding ph bat c = {p. bat p = Some c \<and> ph p \<noteq> Finished}"

text \<open>An event counter of either target: its channel or semaphore, its count, and the block of its lock.\<close>

record counter_view =
  vw_chan :: nat
  vw_count :: size_t
  vw_lock :: ptr

datatype counter_kind = Metal_Counter | Rtos_Counter

definition counter_at :: "counter_kind \<Rightarrow> mem \<Rightarrow> ptr \<Rightarrow> counter_view \<Rightarrow> bool" where
  "counter_at kd m c v \<longleftrightarrow>
     (case kd of
        Metal_Counter \<Rightarrow> \<exists>cm w. heap m c = Some (Counter_Metal cm) \<and> heap m (ec_lock cm) = Some (Spinlock w) \<and>
          v = \<lparr>vw_chan = ec_cend cm, vw_count = ec_count cm, vw_lock = ec_lock cm\<rparr>
      | Rtos_Counter \<Rightarrow> \<exists>cr. heap m c = Some (Counter_Rtos cr) \<and>
          v = \<lparr>vw_chan = es_semaphore cr, vw_count = es_count cr, vw_lock = c\<rparr>)"

definition batch_inv :: "counter_kind \<Rightarrow> mem \<Rightarrow> (ptr \<Rightarrow> task_phase) \<Rightarrow> (ptr \<rightharpoonup> ptr) \<Rightarrow> bool" where
  "batch_inv kd m ph bat \<longleftrightarrow> finite (dom bat) \<and>
     (\<forall>c \<in> ran bat. \<exists>cm. counter_at kd m c cm \<and> unat (vw_count cm) = card (outstanding ph bat c)) \<and>
     (\<forall>c \<in> ran bat. \<forall>c' \<in> ran bat. \<forall>cm cm'. counter_at kd m c cm \<longrightarrow> counter_at kd m c' cm' \<longrightarrow> c \<noteq> c' \<longrightarrow>
        vw_chan cm \<noteq> vw_chan cm' \<and> vw_lock cm \<noteq> vw_lock cm')"

text \<open>
  A counter has its notification in the channel exactly when all its tasks are finished, no
  worker is about to send it and the client has not taken it (\<open>fr\<close> is the counter it is about
  to delete).
\<close>

definition note_inv :: "counter_kind \<Rightarrow> ('n \<Rightarrow> nat \<Rightarrow> nat) \<Rightarrow> mem \<Rightarrow> 'n \<Rightarrow> (ptr \<Rightarrow> task_phase) \<Rightarrow> (ptr \<rightharpoonup> ptr) \<Rightarrow>
    (nat \<Rightarrow> worker_pc) \<Rightarrow> ptr option \<Rightarrow> bool" where
  "note_inv kd tokens m nt ph bat pcs fr \<longleftrightarrow>
     (\<forall>c \<in> ran bat. \<forall>cm. counter_at kd m c cm \<longrightarrow> tokens nt (vw_chan cm) =
        (if outstanding ph bat c = {} \<and> (\<forall>i. pcs i \<noteq> K_Notify c) \<and> fr \<noteq> Some c then 1 else 0)) \<and>
     (\<forall>i c. pcs i = K_Notify c \<longrightarrow> c \<in> ran bat \<and> outstanding ph bat c = {} \<and> fr \<noteq> Some c \<and>
        (\<forall>j. pcs j = K_Notify c \<longrightarrow> j = i)) \<and>
     (\<forall>c. fr = Some c \<longrightarrow> c \<in> ran bat \<and> outstanding ph bat c = {})"

definition pc_inv :: "(ptr \<rightharpoonup> ptr) \<Rightarrow> (nat \<Rightarrow> worker_pc) \<Rightarrow> bool" where
  "pc_inv bat pcs \<longleftrightarrow> (\<forall>i p c. pcs i = K_Signal p c \<longrightarrow> bat p = Some c) \<and> (\<forall>i e. pcs i \<noteq> K_Fault e)"

fun task_over :: "(nat \<Rightarrow> worker_pc) \<Rightarrow> task_phase \<Rightarrow> bool" where
  "task_over pcs Finished = True"
| "task_over pcs (Taken i) = performed (pcs i)"
| "task_over pcs c = False"

definition hist_inv :: "(ptr \<Rightarrow> task_phase) \<Rightarrow> (nat \<Rightarrow> worker_pc) \<Rightarrow> ptr list \<Rightarrow> ptr list \<Rightarrow> bool" where
  "hist_inv ph pcs snt dn \<longleftrightarrow> distinct snt \<and> distinct dn \<and>
     (\<forall>p. p \<in> set snt \<longleftrightarrow> ph p \<noteq> Unknown \<and> ph p \<noteq> Todo) \<and>
     (\<forall>p. p \<in> set dn \<longleftrightarrow> task_over pcs (ph p))"

fun target_inv :: "mem \<Rightarrow> (ptr \<rightharpoonup> ptr) \<Rightarrow> wait_target \<Rightarrow> ptr \<Rightarrow> bool" where
  "target_inv m bat (For_Task p) c \<longleftrightarrow> {q. bat q = Some c} = {p}"
| "target_inv m bat (For_Group g) c \<longleftrightarrow>
     (\<exists>l ts. group_rep m g l True ts \<and> ts \<noteq> [] \<and> distinct ts \<and> {q. bat q = Some c} = set ts)"

definition group_loop :: "mem \<Rightarrow> (ptr \<rightharpoonup> ptr) \<Rightarrow> ptr \<Rightarrow> nat \<Rightarrow> ptr \<Rightarrow> ptr list \<Rightarrow> bool" where
  "group_loop m bat g i c todo \<longleftrightarrow>
     (\<exists>l w ts. group_rep m g l w ts \<and> i \<le> length ts \<and> todo = drop i ts \<and>
        (\<forall>q \<in> set todo. bat q = (if w then Some c else None)))"

fun client_pc_inv :: "mem \<Rightarrow> (ptr \<rightharpoonup> ptr) \<Rightarrow> ptr list \<Rightarrow> client_pc \<Rightarrow> bool" where
  "client_pc_inv m bat todo (C_Send p k) \<longleftrightarrow> (\<exists>ts. todo = p # ts \<and>
     (case k of C_Idle \<Rightarrow> ts = [] | C_Group g i c \<Rightarrow> group_loop m bat g i c ts | _ \<Rightarrow> False))"
| "client_pc_inv m bat todo (C_Group g i c) \<longleftrightarrow> group_loop m bat g i c todo"
| "client_pc_inv m bat todo (C_Await target c) \<longleftrightarrow> todo = [] \<and> target_inv m bat target c"
| "client_pc_inv m bat todo (C_Free target c) \<longleftrightarrow> todo = [] \<and> target_inv m bat target c"
| "client_pc_inv m bat todo (C_Fault e) \<longleftrightarrow> False"
| "client_pc_inv m bat todo c \<longleftrightarrow> todo = []"

fun unset :: "client_pc \<Rightarrow> ptr list \<Rightarrow> ptr list" where
  "unset (C_Send p k) todo = tl todo"
| "unset c todo = todo"

fun freeing :: "client_pc \<Rightarrow> ptr option" where
  "freeing (C_Free target c) = Some c"
| "freeing c = None"

definition disp_inv :: "counter_kind \<Rightarrow> ('n \<Rightarrow> nat \<Rightarrow> nat) \<Rightarrow> (mem \<Rightarrow> 'n \<Rightarrow> bool) \<Rightarrow> nat \<Rightarrow> nat \<Rightarrow> ('n, 'u) disp_sys \<Rightarrow> bool" where
  "disp_inv kd tokens env k n s \<longleftrightarrow>
     env (ds_mem s) (ds_note s) \<and> length (ds_queue s) \<le> n \<and>
     link_inv (ds_phase s) (ds_todo s) (ds_queue s) (ds_worker s) \<and>
     task_inv (ds_mem s) (ds_phase s) (ds_batch s) (unset (ds_client s) (ds_todo s)) \<and>
     batch_inv kd (ds_mem s) (ds_phase s) (ds_batch s) \<and>
     note_inv kd tokens (ds_mem s) (ds_note s) (ds_phase s) (ds_batch s) (ds_worker s)
       (freeing (ds_client s)) \<and>
     pc_inv (ds_batch s) (ds_worker s) \<and>
     hist_inv (ds_phase s) (ds_worker s) (ds_sent s) (ds_done s) \<and>
     client_pc_inv (ds_mem s) (ds_batch s) (ds_todo s) (ds_client s) \<and>
     (\<forall>i \<ge> k. ds_worker s i = K_Receive)"

lemma disp_invE:
  assumes "disp_inv kd tokens env k n s"
  obtains "env (ds_mem s) (ds_note s)" "length (ds_queue s) \<le> n"
    "link_inv (ds_phase s) (ds_todo s) (ds_queue s) (ds_worker s)"
    "task_inv (ds_mem s) (ds_phase s) (ds_batch s) (unset (ds_client s) (ds_todo s))"
    "batch_inv kd (ds_mem s) (ds_phase s) (ds_batch s)"
    "note_inv kd tokens (ds_mem s) (ds_note s) (ds_phase s) (ds_batch s) (ds_worker s)
       (freeing (ds_client s))"
    "pc_inv (ds_batch s) (ds_worker s)"
    "hist_inv (ds_phase s) (ds_worker s) (ds_sent s) (ds_done s)"
    "client_pc_inv (ds_mem s) (ds_batch s) (ds_todo s) (ds_client s)"
    "\<forall>i \<ge> k. ds_worker s i = K_Receive"
  using assms by (auto simp: disp_inv_def)

subsection \<open>Where the tasks are\<close>

lemma link_phase:
  assumes "link_inv ph todo xs pcs"
  shows "p \<in> set todo \<longleftrightarrow> ph p = Todo" "p \<in> set xs \<longleftrightarrow> ph p = Queued"
    "work (pcs i) = Some p \<longleftrightarrow> ph p = Taken i"
  using assms by (simp_all add: link_inv_def)

lemma link_stay: "link_inv ph todo xs pcs \<Longrightarrow> work c = work (pcs i) \<Longrightarrow> link_inv ph todo xs (pcs(i := c))"
  by (simp add: link_inv_def)

lemma link_receive:
  assumes l: "link_inv ph todo (p # xs) pcs" and w: "work (pcs i) = None"
  shows "link_inv (ph(p := Taken i)) todo xs (pcs(i := K_Claim p))"
proof -
  have "ph p = Queued" using link_phase(2)[OF l, of p] by simp
  then have p: "p \<notin> set todo" "\<And>j. work (pcs j) \<noteq> Some p"
    unfolding link_phase(1,3)[OF l] by simp_all
  have "p \<notin> set xs" using l by (simp add: link_inv_def)
  with l w p show ?thesis by (auto simp: link_inv_def)
qed

lemma link_finish:
  assumes l: "link_inv ph todo xs pcs" and w: "work (pcs i) = Some p" "work c = None"
  shows "link_inv (ph(p := Finished)) todo xs (pcs(i := c))"
proof -
  have p: "ph p = Taken i" using l w by (simp add: link_inv_def)
  then have q: "p \<notin> set xs" "p \<notin> set todo" "\<And>j. work (pcs j) = Some p \<longleftrightarrow> j = i"
    unfolding link_phase[OF l] by auto
  have "(ph(p := Finished)) r = Taken j \<longleftrightarrow> work ((pcs(i := c)) j) = Some r" for r j
    using q(3)[of j] w p link_phase(3)[OF l, of j r] link_phase(3)[OF l, of i r] by auto
  with l q(1,2) show ?thesis by (auto simp: link_inv_def)
qed

lemma link_send:
  assumes l: "link_inv ph (p # ts) xs pcs"
  shows "link_inv (ph(p := Queued)) ts (xs @ [p]) pcs"
proof -
  have "ph p = Todo" using link_phase(1)[OF l, of p] by simp
  then have p: "p \<notin> set xs" "\<And>j. work (pcs j) \<noteq> Some p"
    unfolding link_phase(2,3)[OF l] by simp_all
  have "p \<notin> set ts" using l by (simp add: link_inv_def)
  with l p show ?thesis by (auto simp: link_inv_def)
qed

lemma link_add:
  assumes l: "link_inv ph [] xs pcs" and "distinct ts" "\<And>p. p \<in> set ts \<Longrightarrow> ph p = Unknown"
  shows "link_inv (\<lambda>p. if p \<in> set ts then Todo else ph p) ts xs pcs"
proof -
  have "work (pcs j) \<noteq> Some p" "p \<notin> set xs" if "p \<in> set ts" for j p
    using link_phase(2,3)[OF l] assms(3)[OF that] by simp_all
  with l assms(2) show ?thesis by (auto simp: link_inv_def)
qed

subsection \<open>The histories\<close>

lemma task_over_upd:
  "task_over (pcs(i := c)) f = (if f = Taken i then performed c else task_over pcs f)"
  by (cases f) auto

lemma hist_stay:
  "hist_inv ph pcs snt dn \<Longrightarrow> performed c = performed (pcs i) \<Longrightarrow> hist_inv ph (pcs(i := c)) snt dn"
  by (auto simp: hist_inv_def task_over_upd)

lemma hist_receive:
  "hist_inv ph pcs snt dn \<Longrightarrow> ph p = Queued \<Longrightarrow> \<not> performed (pcs i) \<Longrightarrow>
   hist_inv (ph(p := Taken i)) (pcs(i := K_Claim p)) snt dn"
  by (auto simp: hist_inv_def task_over_upd)

lemma hist_perform:
  assumes "hist_inv ph pcs snt dn" and "link_inv ph todo xs pcs" and "pcs i = K_Perform p"
  shows "hist_inv ph (pcs(i := K_Finish p)) snt (dn @ [p])"
proof -
  have p: "ph q = Taken i \<longleftrightarrow> q = p" for q using assms(2,3) by (auto simp: link_inv_def)
  have "ph p = Taken i" using p by blast
  with assms(1,3) have "p \<notin> set dn" by (simp add: hist_inv_def)
  with assms(1) p show ?thesis by (auto simp: hist_inv_def task_over_upd)
qed

lemma hist_finish:
  assumes "hist_inv ph pcs snt dn" and "link_inv ph todo xs pcs" and "work (pcs i) = Some p"
    and "performed (pcs i)" and "\<not> performed c"
  shows "hist_inv (ph(p := Finished)) (pcs(i := c)) snt dn"
proof -
  have p: "ph q = Taken i \<longleftrightarrow> q = p" for q using assms(2,3) by (auto simp: link_inv_def)
  have "ph p = Taken i" using p by blast
  with assms(1,4) have "p \<in> set dn" "p \<in> set snt" by (simp_all add: hist_inv_def)
  with assms(1,5) p show ?thesis by (auto simp: hist_inv_def task_over_upd)
qed

lemma hist_send:
  "hist_inv ph pcs snt dn \<Longrightarrow> ph p = Todo \<Longrightarrow> hist_inv (ph(p := Queued)) pcs (snt @ [p]) dn"
  by (auto simp: hist_inv_def split: if_splits)

lemma hist_add:
  "hist_inv ph pcs snt dn \<Longrightarrow> (\<And>p. p \<in> set ts \<Longrightarrow> ph p = Unknown) \<Longrightarrow>
   hist_inv (\<lambda>p. if p \<in> set ts then Todo else ph p) pcs snt dn"
  by (auto simp: hist_inv_def split: if_splits)

subsection \<open>Tasks and event counters in the store\<close>

lemma task_frame:
  assumes inv: "task_inv m ph bat un"
    and keep: "\<And>p t. heap m p = Some (Task t) \<Longrightarrow> active (ph' p) \<or> bat' p \<noteq> None \<Longrightarrow>
        heap m' p = Some (Task t)"
    and act: "\<And>p. active (ph' p) \<Longrightarrow> active (ph p) \<and> bat' p = bat p"
    and bat: "\<And>p c. bat' p = Some c \<Longrightarrow> bat p = Some c \<and> ph' p \<noteq> Unknown"
  shows "task_inv m' ph' bat' un"
  unfolding task_inv_def
proof (intro conjI allI impI)
  fix p
  assume p: "active (ph' p)"
  then obtain t where "heap m p = Some (Task t)" "task_function t \<noteq> NULL"
    "task_waitable t = (bat p \<noteq> None)" using inv act unfolding task_inv_def by blast
  with p keep[of p t] act[OF p] show "\<exists>t. heap m' p = Some (Task t) \<and> task_function t \<noteq> NULL \<and>
      task_waitable t = (bat' p \<noteq> None)" by auto
next
  fix p c
  assume p: "bat' p = Some c"
  then show "ph' p \<noteq> Unknown" using bat by blast
  from p bat obtain t where "heap m p = Some (Task t)" "task_waitable t"
    "p \<notin> set un \<longrightarrow> task_private_data t = c" using inv by (fastforce simp: task_inv_def)
  with p keep[of p t] show "\<exists>t. heap m' p = Some (Task t) \<and> task_waitable t \<and>
      (p \<notin> set un \<longrightarrow> task_private_data t = c)" by auto
qed

text \<open>The common case: no task object changes.\<close>

lemma task_frame_same:
  assumes "task_inv m ph bat un" and "\<And>p t. heap m p = Some (Task t) \<Longrightarrow> heap m' p = Some (Task t)"
    and "\<And>p. active (ph' p) \<Longrightarrow> active (ph p)" and "\<And>p. ph p \<noteq> Unknown \<Longrightarrow> ph' p \<noteq> Unknown"
  shows "task_inv m' ph' bat un"
  using assms(1) by (rule task_frame) (use assms in \<open>auto simp: task_inv_def\<close>)

lemma counter_at_unique: "counter_at kd m c cm \<Longrightarrow> counter_at kd m c cm' \<Longrightarrow> cm = cm'"
  by (auto simp: counter_at_def split: counter_kind.splits)

text \<open>The objects an event counter is made of.\<close>

definition counter_block :: "obj option \<Rightarrow> bool" where
  "counter_block ob \<longleftrightarrow>
     (\<exists>c. ob = Some (Counter_Metal c)) \<or> (\<exists>c. ob = Some (Counter_Rtos c)) \<or> (\<exists>v. ob = Some (Spinlock v))"

lemma counter_block_simps [simp]:
  "counter_block (Some (Counter_Metal c))" "counter_block (Some (Counter_Rtos cr))"
  "counter_block (Some (Spinlock v))" "\<not> counter_block None" "\<not> counter_block (Some (Task t))"
  "\<not> counter_block (Some (Group g))" "\<not> counter_block (Some (Ptr_Array a))"
  "\<not> counter_block (Some (Word_Array ws))" "\<not> counter_block (Some (Dispatch_Metal d))"
  "\<not> counter_block (Some (Dispatch_Rtos f))"
  by (simp_all add: counter_block_def)

lemma counter_at_blocks:
  "counter_at kd m c v \<Longrightarrow> counter_block (heap m c) \<and> counter_block (heap m (vw_lock v))"
  by (auto simp: counter_at_def split: counter_kind.splits)

lemma counter_at_apart:
  "counter_at kd m c v \<Longrightarrow> counter_at kd m x y \<Longrightarrow> x \<noteq> c \<Longrightarrow> x \<noteq> vw_lock v"
  by (auto simp: counter_at_def split: counter_kind.splits)

lemma counter_at_frame:
  "counter_at kd m c v \<Longrightarrow> heap m' c = heap m c \<Longrightarrow> heap m' (vw_lock v) = heap m (vw_lock v) \<Longrightarrow>
   counter_at kd m' c v"
  by (auto simp: counter_at_def split: counter_kind.splits)

lemma counter_at_live:
  assumes "counter_at kd m c v" "mem_ok m"
  shows "c \<noteq> NULL" "c \<le> brk m" "vw_lock v \<noteq> NULL" "vw_lock v \<le> brk m"
  using assms mem_ok_live[OF assms(2)]
  by (auto simp: counter_at_def split: counter_kind.splits)

lemma batch_counter:
  assumes "batch_inv kd m ph bat" "c \<in> ran bat"
  obtains cm where "counter_at kd m c cm" "unat (vw_count cm) = card (outstanding ph bat c)"
  using assms by (auto simp: batch_inv_def)

lemma batch_frame:
  assumes inv: "batch_inv kd m ph bat" and sub: "\<And>p c. bat' p = Some c \<Longrightarrow> bat p = Some c"
    and pend: "\<And>c. c \<in> ran bat' \<Longrightarrow> outstanding ph' bat' c = outstanding ph bat c"
    and keep: "\<And>c cm. c \<in> ran bat' \<Longrightarrow> counter_at kd m c cm \<Longrightarrow> counter_at kd m' c cm"
  shows "batch_inv kd m' ph' bat'"
proof -
  have ran: "c \<in> ran bat' \<Longrightarrow> c \<in> ran bat" for c using sub by (auto simp: ran_def)
  have "dom bat' \<subseteq> dom bat" using sub by auto
  then have fin: "finite (dom bat')" using inv by (auto simp: batch_inv_def intro: finite_subset)
  have prev: "counter_at kd m c cm" if "c \<in> ran bat'" "counter_at kd m' c cm" for c cm
    using that keep inv ran by (metis batch_counter counter_at_unique)
  show ?thesis
    unfolding batch_inv_def
  proof (intro conjI ballI allI impI fin)
    fix c
    assume c: "c \<in> ran bat'"
    then obtain cm where "counter_at kd m c cm" "unat (vw_count cm) = card (outstanding ph bat c)"
      using batch_counter[OF inv ran] by blast
    with c keep pend show "\<exists>cm. counter_at kd m' c cm \<and> unat (vw_count cm) = card (outstanding ph' bat' c)"
      by auto
  next
    fix c c' cm cm'
    assume "c \<in> ran bat'" "c' \<in> ran bat'" "counter_at kd m' c cm" "counter_at kd m' c' cm'" "c \<noteq> c'"
    then have "c \<in> ran bat" "c' \<in> ran bat" "counter_at kd m c cm" "counter_at kd m c' cm'" "c \<noteq> c'"
      using prev ran by auto
    then show "vw_chan cm \<noteq> vw_chan cm'" "vw_lock cm \<noteq> vw_lock cm'"
      using inv unfolding batch_inv_def by blast+
  qed
qed

lemma note_frame:
  assumes inv: "note_inv kd tokens m nt ph bat pcs fr" and "\<And>c. c \<in> ran bat' \<Longrightarrow> c \<in> ran bat"
    and pend: "\<And>c. c \<in> ran bat' \<Longrightarrow> outstanding ph' bat' c = outstanding ph bat c"
    and keep: "\<And>c cm. c \<in> ran bat' \<Longrightarrow> counter_at kd m' c cm \<Longrightarrow>
        \<exists>cm'. counter_at kd m c cm' \<and> vw_chan cm' = vw_chan cm"
    and pcs: "\<And>i c. pcs' i = K_Notify c \<longleftrightarrow> pcs i = K_Notify c"
    and ran: "\<And>i c. pcs i = K_Notify c \<Longrightarrow> c \<in> ran bat'" "\<And>c. fr = Some c \<Longrightarrow> c \<in> ran bat'"
  shows "note_inv kd tokens m' nt ph' bat' pcs' fr"
  unfolding note_inv_def
proof (intro conjI ballI allI impI)
  fix c cm
  assume c: "c \<in> ran bat'" "counter_at kd m' c cm"
  then obtain cm' where "counter_at kd m c cm'" "vw_chan cm' = vw_chan cm" using keep by blast
  moreover have "c \<in> ran bat" using assms(2) c(1) by blast
  moreover have "\<forall>c \<in> ran bat. \<forall>cm. counter_at kd m c cm \<longrightarrow> tokens nt (vw_chan cm) =
     (if outstanding ph bat c = {} \<and> (\<forall>i. pcs i \<noteq> K_Notify c) \<and> fr \<noteq> Some c then 1 else 0)"
    using inv unfolding note_inv_def by (rule conjunct1)
  ultimately show "tokens nt (vw_chan cm) =
     (if outstanding ph' bat' c = {} \<and> (\<forall>i. pcs' i \<noteq> K_Notify c) \<and> fr \<noteq> Some c then 1 else 0)"
    unfolding pcs pend[OF c(1)] by metis
next
  fix i c
  assume "pcs' i = K_Notify c"
  then have p: "pcs i = K_Notify c" by (simp add: pcs)
  with ran(1) show c: "c \<in> ran bat'" by blast
  show "outstanding ph' bat' c = {}" "fr \<noteq> Some c" using inv p pend[OF c] by (auto simp: note_inv_def)
  fix j
  assume "pcs' j = K_Notify c"
  then show "j = i" using inv p by (auto simp: note_inv_def pcs)
next
  fix c
  assume f: "fr = Some c"
  with ran(2) show c: "c \<in> ran bat'" by blast
  show "outstanding ph' bat' c = {}" using inv f pend[OF c] by (simp add: note_inv_def)
qed

text \<open>Finishing a task that has no event counter, or moving one along, keeps what is outstanding.\<close>

lemma outstanding_upd:
  "f \<noteq> Finished \<or> bat p = None \<Longrightarrow> ph p \<noteq> Finished \<Longrightarrow> outstanding (ph(p := f)) bat c = outstanding ph bat c"
  by (auto simp: outstanding_def)

lemma outstanding_finite: "batch_inv kd m ph bat \<Longrightarrow> finite (outstanding ph bat c)"
  by (rule finite_subset[of _ "dom bat"]) (auto simp: outstanding_def batch_inv_def)

subsection \<open>Changes of the store\<close>

text \<open>
  \<open>differs P m m'\<close>: where the two stores differ, both hold an object that satisfies \<open>P\<close>, and no
  address is given back. The
  status flags are the only word array, and an event counter changes in its count only.
\<close>

definition differs :: "(obj option \<Rightarrow> bool) \<Rightarrow> mem \<Rightarrow> mem \<Rightarrow> bool" where
  "differs P m m' \<longleftrightarrow> brk m \<le> brk m' \<and> (\<forall>p. heap m' p = heap m p \<or> P (heap m p) \<and> P (heap m' p))"

lemma differs_brk: "differs P m m' \<Longrightarrow> brk m \<le> brk m'"
  by (simp add: differs_def)

lemma differs_refl: "differs P m m"
  by (simp add: differs_def)

lemma differs_keep: "differs P m m' \<Longrightarrow> \<not> P (Some ob) \<Longrightarrow> heap m' p = Some ob \<longleftrightarrow> heap m p = Some ob"
  unfolding differs_def by metis

lemma differs_counter:
  assumes "differs P m m'" and "\<And>ob. counter_block ob \<Longrightarrow> \<not> P ob"
  shows "counter_at kd m' c v \<longleftrightarrow> counter_at kd m c v"
proof -
  have "counter_block (heap m p) \<or> counter_block (heap m' p) \<Longrightarrow> heap m' p = heap m p" for p
    using assms unfolding differs_def by metis
  then show ?thesis by (metis counter_at_blocks counter_at_frame)
qed

lemma differs_mono: "differs P m m' \<Longrightarrow> (\<And>ob. P ob \<Longrightarrow> Q ob) \<Longrightarrow> differs Q m m'"
  unfolding differs_def by blast

lemma differs_group:
  assumes "differs P m m'" and "\<And>g. \<not> P (Some (Group g))" and "\<And>a. \<not> P (Some (Ptr_Array a))"
    and "group_rep m g l w ts"
  shows "group_rep m' g l w ts"
  using assms(4) by (rule group_rep_frame) (use differs_keep[OF assms(1)] assms(2,3) in auto)

lemma client_frame:
  assumes inv: "client_pc_inv m bat todo c" and d: "differs P m m'"
    and P: "\<And>g. \<not> P (Some (Group g))" "\<And>a. \<not> P (Some (Ptr_Array a))"
  shows "client_pc_inv m' bat todo c"
proof -
  note grp = differs_group[OF d P]
  have loop: "group_loop m bat g i x ts \<Longrightarrow> group_loop m' bat g i x ts" for g i x ts
    unfolding group_loop_def using grp by blast
  have target: "target_inv m bat x y \<Longrightarrow> target_inv m' bat x y" for x y
    by (cases x) (auto dest: grp)
  show ?thesis
    using inv loop target by (cases c) (auto split: client_pc.splits)
qed

lemma mem_ok_dom: "mem_ok m \<Longrightarrow> brk m' = brk m \<Longrightarrow> dom (heap m') \<subseteq> dom (heap m) \<Longrightarrow> mem_ok m'"
  unfolding mem_ok_def by (metis domIff subsetD)

definition word_array :: "obj option \<Rightarrow> bool" where
  "word_array ob \<longleftrightarrow> (\<exists>ws. ob = Some (Word_Array ws))"

lemma word_array_simps [simp]:
  "word_array (Some (Word_Array ws))" "\<not> word_array (Some (Task t))" "\<not> word_array (Some (Group g))"
  "\<not> word_array (Some (Ptr_Array a))" "\<not> word_array (Some (Dispatch_Metal d))"
  "counter_block ob \<Longrightarrow> \<not> word_array ob"
  by (auto simp: word_array_def)

text \<open>The objects that come and go while the system runs: tasks and event counters.\<close>

definition transient :: "obj option \<Rightarrow> bool" where
  "transient ob \<longleftrightarrow> ob = None \<or> (\<exists>t. ob = Some (Task t)) \<or> counter_block ob"

lemma transient_simps [simp]:
  "transient None" "transient (Some (Task t))" "counter_block ob \<Longrightarrow> transient ob"
  by (simp_all add: transient_def)

definition task_obj :: "obj option \<Rightarrow> bool" where
  "task_obj ob \<longleftrightarrow> (\<exists>t. ob = Some (Task t))"

lemma task_obj_simps [simp]:
  "task_obj (Some (Task t))" "\<not> task_obj (Some (Word_Array w))" "\<not> task_obj (Some (Group g))"
  "\<not> task_obj (Some (Ptr_Array a))" "counter_block ob \<Longrightarrow> \<not> task_obj ob"
  "task_obj ob \<Longrightarrow> transient ob"
  by (auto simp: task_obj_def)

end
