(* ===== verification/Dispatch_Steps.thy ===== *)
theory Dispatch_Steps
  imports Dispatch_Invariant
begin

text \<open>
  The contract of a platform, as the locale \<open>dispatch_platform\<close>: what the operations of an event
  counter do to the counters in the store, and what the busy and ready marks and the polling
  of \<open>dispatch_queue_wait\<close> leave alone. Inside the locale, every step of a worker and of the client
  is shown to keep the invariant of theory \<open>Dispatch_Invariant\<close>, whatever the platform.
\<close>

section \<open>The contract of a platform\<close>

text \<open>Inside the polling loop of \<open>dispatch_queue_wait\<close>.\<close>

definition polling :: "client_pc \<Rightarrow> bool" where
  "polling c \<longleftrightarrow> (\<exists>i b. c = C_Busy i b) \<or> (\<exists>b. c = C_Size b)"

text \<open>The store \<open>m'\<close> has a new event counter at \<open>c\<close>, and is otherwise \<open>m\<close>.\<close>

definition counter_added :: "counter_kind \<Rightarrow> mem \<Rightarrow> mem \<Rightarrow> ptr \<Rightarrow> counter_view \<Rightarrow> bool" where
  "counter_added kd m m' c v \<longleftrightarrow> mem_ok m' \<and> counter_at kd m' c v \<and> heap m c = None \<and> heap m (vw_lock v) = None \<and>
     brk m \<le> brk m' \<and> (\<forall>p. p \<noteq> c \<and> p \<noteq> vw_lock v \<longrightarrow> heap m' p = heap m p)"

text \<open>
  \<open>env\<close> is what the store and the kernel hold of a dispatch queue at \<open>ctx\<close> with \<open>k\<close> workers; \<open>laws\<close>
  stands for what is assumed of channels and of the kernel.
\<close>

locale dispatch_platform =
  fixes kd :: counter_kind and F :: "'n platform" and N :: "'n note_ops" and tokens :: "'n \<Rightarrow> nat \<Rightarrow> nat"
    and env :: "mem \<Rightarrow> 'n \<Rightarrow> bool" and ctx :: ptr and k :: nat and laws :: bool
  assumes laws_note: "laws \<Longrightarrow> note_laws N tokens"
    and create_law: "mem_ok m \<Longrightarrow> \<not> oom m (brk m) \<Longrightarrow> \<not> oom m (Suc (brk m)) \<Longrightarrow>
      \<exists>c m' v. pf_create F h cnt m = Inr (c, m') \<and> counter_added kd m m' c v \<and> vw_chan v = h \<and> vw_count v = cnt"
    and decrement_law: "mem_ok m \<Longrightarrow> counter_at kd m c v \<Longrightarrow> vw_count v > 0 \<Longrightarrow>
      \<exists>m'. pf_decrement F c m = Inr (vw_count v - 1 = 0, m') \<and> mem_ok m' \<and>
        counter_at kd m' c (v\<lparr>vw_count := vw_count v - 1\<rparr>) \<and> brk m' = brk m \<and> (\<forall>p. p \<noteq> c \<longrightarrow> heap m' p = heap m p)"
    and channel_law: "mem_ok m \<Longrightarrow> counter_at kd m c v \<Longrightarrow> pf_channel F c m = Inr (vw_chan v)"
    and wait_law: "mem_ok m \<Longrightarrow> counter_at kd m c v \<Longrightarrow>
      pf_wait F c m nt = Inr (await N nt (vw_chan v))"
    and delete_law: "mem_ok m \<Longrightarrow> counter_at kd m c v \<Longrightarrow>
      pf_delete F c m = Inr (m\<lparr>heap := (heap m) |` (- {c, vw_lock v})\<rparr>)"
    and busy_law: "laws \<Longrightarrow> env m nt \<Longrightarrow> i < k \<Longrightarrow>
      \<exists>m' nt'. pf_busy F i m nt = Inr (m', nt') \<and> env m' nt' \<and> differs word_array m m' \<and> tokens nt' = tokens nt"
    and ready_law: "laws \<Longrightarrow> env m nt \<Longrightarrow> i < k \<Longrightarrow>
      \<exists>m' nt'. pf_ready F i m nt = Inr (m', nt') \<and> env m' nt' \<and> differs word_array m m' \<and> tokens nt' = tokens nt"
    and poll_law: "env m nt \<Longrightarrow> polling pc \<Longrightarrow>
      \<exists>r. pf_poll F pc q m nt = Inr r \<and> (\<forall>pc'. r = Some pc' \<longrightarrow> polling pc' \<or> pc' = C_Idle)"
    and env_ok: "env m nt \<Longrightarrow> mem_ok m \<and> ctx \<noteq> NULL"
    and env_store: "env m nt \<Longrightarrow> mem_ok m' \<Longrightarrow> differs transient m m' \<Longrightarrow> env m' nt"
    and env_note: "laws \<Longrightarrow> env m nt \<Longrightarrow> env m (notify N nt h)"
      "laws \<Longrightarrow> env m nt \<Longrightarrow> await N nt h = Some nt' \<Longrightarrow> env m nt'"
begin

lemma env_frame:
  "env m nt \<Longrightarrow> mem_ok m' \<Longrightarrow> differs P m m' \<Longrightarrow> (\<And>ob. P ob \<Longrightarrow> transient ob) \<Longrightarrow> env m' nt"
  by (rule env_store) (auto intro: differs_mono)

text \<open>The critical section of a signal: the count goes down with the outstanding tasks.\<close>

lemma batch_decrement:
  assumes inv: "batch_inv kd m ph bat" and ok: "mem_ok m" and p: "bat p = Some c" "ph p \<noteq> Finished"
  obtains m' where "pf_decrement F c m = Inr (outstanding (ph(p := Finished)) bat c = {}, m')"
    "batch_inv kd m' (ph(p := Finished)) bat" "differs counter_block m m'" "mem_ok m'" "c \<noteq> NULL"
    "\<forall>x cm. counter_at kd m' x cm \<longrightarrow> (\<exists>cm'. counter_at kd m x cm' \<and> vw_chan cm' = vw_chan cm)"
proof -
  have c: "c \<in> ran bat" using p(1) by (auto simp: ran_def)
  obtain cm where cm: "counter_at kd m c cm" "unat (vw_count cm) = card (outstanding ph bat c)"
    using inv c by (rule batch_counter)
  have null: "c \<noteq> NULL" using counter_at_live[OF cm(1) ok] by blast
  have fin: "finite (outstanding ph bat c)" using inv by (rule outstanding_finite)
  have mem: "p \<in> outstanding ph bat c" using p by (simp add: outstanding_def)
  have less: "outstanding (ph(p := Finished)) bat c = outstanding ph bat c - {p}"
    by (auto simp: outstanding_def)
  have other: "outstanding (ph(p := Finished)) bat x = outstanding ph bat x" if "x \<noteq> c" for x
    using p(1) that by (auto simp: outstanding_def)
  have pos: "0 < card (outstanding ph bat c)" using fin mem card_gt_0_iff by blast
  then have gt: "vw_count cm > 0" using cm(2) by (simp add: word_less_nat_alt)
  have one: "outstanding (ph(p := Finished)) bat c = {} \<longleftrightarrow> vw_count cm - 1 = 0"
    using count_down(2)[OF gt] cm(2) fin mem unfolding less
    by (metis card_1_singletonE card_Diff_singleton card_eq_0_iff diff_self_eq_0 finite_Diff
        insert_Diff insert_iff singletonD card.empty card_insert_disjoint finite.emptyI empty_iff One_nat_def)
  let ?cm = "cm\<lparr>vw_count := vw_count cm - 1\<rparr>"
  obtain m' where m': "pf_decrement F c m = Inr (vw_count cm - 1 = 0, m')" "mem_ok m'"
    "counter_at kd m' c ?cm" "brk m' = brk m" "\<And>p. p \<noteq> c \<Longrightarrow> heap m' p = heap m p"
    using decrement_law[OF ok cm(1) gt] by blast
  have d: "differs counter_block m m'"
    unfolding differs_def using m'(4,5) counter_at_blocks[OF cm(1)] counter_at_blocks[OF m'(3)] by (metis order_refl)
  have at: "counter_at kd m' x y \<longleftrightarrow> (if x = c then y = ?cm else counter_at kd m x y)" for x y
  proof (cases "x = c")
    case True
    then show ?thesis using m'(3) counter_at_unique by auto
  next
    case False
    have "vw_lock y \<noteq> c" if "counter_at kd m x y \<or> counter_at kd m' x y"
      using that counter_at_apart[OF _ cm(1), of x y] counter_at_apart[OF _ m'(3), of x y] False by blast
    then show ?thesis using False m'(5) counter_at_frame[of kd m x y m'] counter_at_frame[of kd m' x y m] by auto
  qed
  show thesis
  proof (rule that)
    show "pf_decrement F c m = Inr (outstanding (ph(p := Finished)) bat c = {}, m')"
      using m'(1) one by simp
    show "differs counter_block m m'" "mem_ok m'" by (rule d, rule m'(2))
    show "c \<noteq> NULL" by (rule null)
    show "\<forall>x y. counter_at kd m' x y \<longrightarrow> (\<exists>cm'. counter_at kd m x cm' \<and> vw_chan cm' = vw_chan y)"
      using cm(1) by (auto simp: at)
    have card: "unat (vw_count ?cm) = card (outstanding (ph(p := Finished)) bat c)"
      using count_down(1)[OF gt] cm(2) fin mem by (simp add: less card_Diff_singleton)
    show "batch_inv kd m' (ph(p := Finished)) bat"
      unfolding batch_inv_def
    proof (intro conjI ballI allI impI)
      show "finite (dom bat)" using inv by (simp add: batch_inv_def)
      show "\<exists>cm. counter_at kd m' x cm \<and> unat (vw_count cm) = card (outstanding (ph(p := Finished)) bat x)"
        if "x \<in> ran bat" for x
      proof (cases "x = c")
        case True
        then show ?thesis using card by (auto simp: at)
      next
        case False
        then show ?thesis using batch_counter[OF inv that] by (metis at other)
      qed
      fix x x' y y'
      assume "x \<in> ran bat" "x' \<in> ran bat" "counter_at kd m' x y" "counter_at kd m' x' y'" "x \<noteq> x'"
      moreover from this have "\<exists>z z'. counter_at kd m x z \<and> counter_at kd m x' z' \<and> vw_chan z = vw_chan y \<and>
          vw_chan z' = vw_chan y' \<and> vw_lock z = vw_lock y \<and> vw_lock z' = vw_lock y'"
        using cm(1) by (auto simp: at split: if_splits)
      ultimately show "vw_chan y \<noteq> vw_chan y'" "vw_lock y \<noteq> vw_lock y'"
        using inv unfolding batch_inv_def by metis+
    qed
  qed
qed

section \<open>Every step keeps the invariant\<close>

subsection \<open>The workers\<close>

lemma idle_workers:
  fixes i :: nat
  assumes "\<forall>j \<ge> k. pcs j = K_Receive" and "i < k"
  shows "\<forall>j \<ge> k. (pcs(i := c)) j = K_Receive"
proof (intro allI impI)
  fix j
  assume "k \<le> j"
  moreover from this have "j \<noteq> i" using assms(2) by linarith
  ultimately show "(pcs(i := c)) j = K_Receive" using assms(1) by simp
qed

text \<open>A worker that changes the status flags or nothing at all in the store.\<close>

lemma worker_move_inv:
  assumes nt: "tokens nt' = tokens (ds_note s)" and inv: "disp_inv kd tokens env k n s" and i: "i < k" and env: "env m' nt'"
    and d: "differs word_array (ds_mem s) m'"
    and pc: "work c = work (ds_worker s i)" "performed c = performed (ds_worker s i)"
      "\<And>x. c \<noteq> K_Notify x" "\<And>x. ds_worker s i \<noteq> K_Notify x"
      "\<And>p x. c = K_Signal p x \<Longrightarrow> ds_batch s p = Some x" "\<And>e. c \<noteq> K_Fault e"
  shows "disp_inv kd tokens env k n (to_worker i c (s\<lparr>ds_mem := m', ds_note := nt'\<rparr>))"
  using inv
proof (rule disp_invE)
  let ?pcs = "(ds_worker s)(i := c)"
  assume l: "link_inv (ds_phase s) (ds_todo s) (ds_queue s) (ds_worker s)"
    and ti: "task_inv (ds_mem s) (ds_phase s) (ds_batch s) (unset (ds_client s) (ds_todo s))"
    and bi: "batch_inv kd (ds_mem s) (ds_phase s) (ds_batch s)"
    and ni: "note_inv kd tokens (ds_mem s) (ds_note s) (ds_phase s) (ds_batch s) (ds_worker s)
       (freeing (ds_client s))"
    and pi: "pc_inv (ds_batch s) (ds_worker s)"
    and hi: "hist_inv (ds_phase s) (ds_worker s) (ds_sent s) (ds_done s)"
    and ci: "client_pc_inv (ds_mem s) (ds_batch s) (ds_todo s) (ds_client s)"
    and idle: "\<forall>j \<ge> k. ds_worker s j = K_Receive" and q: "length (ds_queue s) \<le> n"
  have at: "counter_at kd m' x y \<longleftrightarrow> counter_at kd (ds_mem s) x y" for x y
    using d by (rule differs_counter) auto
  have "link_inv (ds_phase s) (ds_todo s) (ds_queue s) ?pcs" using l pc(1) by (rule link_stay)
  moreover have "task_inv m' (ds_phase s) (ds_batch s) (unset (ds_client s) (ds_todo s))"
    using ti by (rule task_frame_same) (auto simp: differs_keep[OF d])
  moreover have "batch_inv kd m' (ds_phase s) (ds_batch s)"
    using bi by (rule batch_frame) (auto simp: at)
  moreover have "note_inv kd tokens m' (ds_note s) (ds_phase s) (ds_batch s) ?pcs (freeing (ds_client s))"
    using ni by (rule note_frame) (use pc ni in \<open>auto simp: at note_inv_def\<close>)
  then have "note_inv kd tokens m' nt' (ds_phase s) (ds_batch s) ?pcs (freeing (ds_client s))"
    unfolding note_inv_def nt .
  moreover have "pc_inv (ds_batch s) ?pcs" using pi pc(5,6) by (auto simp: pc_inv_def)
  moreover have "hist_inv (ds_phase s) ?pcs (ds_sent s) (ds_done s)" using hi pc(2) by (rule hist_stay)
  moreover have "client_pc_inv m' (ds_batch s) (ds_todo s) (ds_client s)"
    using ci d by (rule client_frame) auto
  ultimately show ?thesis
    using env q idle_workers[OF idle i, of c] by (simp add: disp_inv_def to_worker_def)
qed

lemma worker_receive_inv:
  assumes inv: "disp_inv kd tokens env k n s" and i: "i < k" and pc: "ds_worker s i = K_Receive"
    and xs: "ds_queue s = p # xs"
  shows "disp_inv kd tokens env k n (to_worker i (K_Claim p)
     (s\<lparr>ds_queue := xs, ds_phase := (ds_phase s)(p := Taken i)\<rparr>))"
  using inv
proof (rule disp_invE)
  let ?pcs = "(ds_worker s)(i := K_Claim p)" and ?ph = "(ds_phase s)(p := Taken i)"
  assume env: "env (ds_mem s) (ds_note s)"
    and l: "link_inv (ds_phase s) (ds_todo s) (ds_queue s) (ds_worker s)"
    and ti: "task_inv (ds_mem s) (ds_phase s) (ds_batch s) (unset (ds_client s) (ds_todo s))"
    and bi: "batch_inv kd (ds_mem s) (ds_phase s) (ds_batch s)"
    and ni: "note_inv kd tokens (ds_mem s) (ds_note s) (ds_phase s) (ds_batch s) (ds_worker s)
       (freeing (ds_client s))"
    and pi: "pc_inv (ds_batch s) (ds_worker s)"
    and hi: "hist_inv (ds_phase s) (ds_worker s) (ds_sent s) (ds_done s)"
    and ci: "client_pc_inv (ds_mem s) (ds_batch s) (ds_todo s) (ds_client s)"
    and idle: "\<forall>j \<ge> k. ds_worker s j = K_Receive" and q: "length (ds_queue s) \<le> n"
  have p: "ds_phase s p = Queued" using link_phase(2)[OF l, of p] xs by simp
  have out: "outstanding ?ph (ds_batch s) c = outstanding (ds_phase s) (ds_batch s) c" for c
    by (rule outstanding_upd) (use p in auto)
  have "link_inv ?ph (ds_todo s) xs ?pcs" using l xs pc by (auto intro: link_receive)
  moreover have "task_inv (ds_mem s) ?ph (ds_batch s) (unset (ds_client s) (ds_todo s))"
    using ti by (rule task_frame_same) (use p in \<open>auto split: if_splits\<close>)
  moreover have "batch_inv kd (ds_mem s) ?ph (ds_batch s)"
    using bi by (rule batch_frame) (auto simp: out)
  moreover have "note_inv kd tokens (ds_mem s) (ds_note s) ?ph (ds_batch s) ?pcs (freeing (ds_client s))"
    using ni by (rule note_frame) (use pc ni in \<open>auto simp: out note_inv_def\<close>)
  moreover have "pc_inv (ds_batch s) ?pcs" using pi by (auto simp: pc_inv_def)
  moreover have "hist_inv ?ph ?pcs (ds_sent s) (ds_done s)"
    using hi p by (rule hist_receive) (simp add: pc)
  ultimately show ?thesis
    using env q xs ci idle_workers[OF idle i, of "K_Claim p"] by (simp add: disp_inv_def to_worker_def)
qed

lemma worker_perform_inv:
  assumes inv: "disp_inv kd tokens env k n s" and i: "i < k" and pc: "ds_worker s i = K_Perform p"
  shows "\<exists>u. dispatch_task_perform call p (ds_mem s) (ds_app s) = Inr u"
    and "disp_inv kd tokens env k n (to_worker i (K_Finish p)
     (s\<lparr>ds_app := u, ds_done := ds_done s @ [p]\<rparr>))"
  using inv
proof (rule_tac [!] disp_invE)
  let ?pcs = "(ds_worker s)(i := K_Finish p)"
  assume env: "env (ds_mem s) (ds_note s)"
    and l: "link_inv (ds_phase s) (ds_todo s) (ds_queue s) (ds_worker s)"
    and ti: "task_inv (ds_mem s) (ds_phase s) (ds_batch s) (unset (ds_client s) (ds_todo s))"
    and bi: "batch_inv kd (ds_mem s) (ds_phase s) (ds_batch s)"
    and ni: "note_inv kd tokens (ds_mem s) (ds_note s) (ds_phase s) (ds_batch s) (ds_worker s)
       (freeing (ds_client s))"
    and pi: "pc_inv (ds_batch s) (ds_worker s)"
    and hi: "hist_inv (ds_phase s) (ds_worker s) (ds_sent s) (ds_done s)"
    and ci: "client_pc_inv (ds_mem s) (ds_batch s) (ds_todo s) (ds_client s)"
    and idle: "\<forall>j \<ge> k. ds_worker s j = K_Receive" and q: "length (ds_queue s) \<le> n"
  have "ds_phase s p = Taken i" using link_phase(3)[OF l, of i p] pc by simp
  then obtain t where t: "heap (ds_mem s) p = Some (Task t)" "task_function t \<noteq> NULL"
    using ti by (metis active.simps(5) task_inv_def)
  moreover have "p \<noteq> NULL" using t(1) env env_ok mem_ok_live by blast
  ultimately show "\<exists>u. dispatch_task_perform call p (ds_mem s) (ds_app s) = Inr u"
    by (auto simp: dispatch_task_perform_ok)
  have "link_inv (ds_phase s) (ds_todo s) (ds_queue s) ?pcs" using l by (rule link_stay) (simp add: pc)
  moreover have "note_inv kd tokens (ds_mem s) (ds_note s) (ds_phase s) (ds_batch s) ?pcs
      (freeing (ds_client s))"
    using ni by (rule note_frame) (use pc ni in \<open>auto simp: note_inv_def\<close>)
  moreover have "pc_inv (ds_batch s) ?pcs" using pi by (auto simp: pc_inv_def)
  moreover have "hist_inv (ds_phase s) ?pcs (ds_sent s) (ds_done s @ [p])"
    using hi l pc by (rule hist_perform)
  ultimately show "disp_inv kd tokens env k n (to_worker i (K_Finish p)
     (s\<lparr>ds_app := u, ds_done := ds_done s @ [p]\<rparr>))"
    using env q ti bi ci idle_workers[OF idle i, of "K_Finish p"] by (simp add: disp_inv_def to_worker_def)
qed

lemma worker_delete_inv:
  assumes inv: "disp_inv kd tokens env k n s" and i: "i < k" and pc: "ds_worker s i = K_Finish p"
    and t: "heap (ds_mem s) p = Some (Task t)" "\<not> task_waitable t"
  shows "\<exists>m. dispatch_task_delete p (ds_mem s) = Inr m \<and> disp_inv kd tokens env k n
     (to_worker i K_Ready (s\<lparr>ds_mem := m, ds_phase := (ds_phase s)(p := Finished)\<rparr>))"
  using inv
proof (rule disp_invE)
  let ?pcs = "(ds_worker s)(i := K_Ready)" and ?ph = "(ds_phase s)(p := Finished)"
  let ?m = "(ds_mem s)\<lparr>heap := (heap (ds_mem s))(p := None)\<rparr>"
  let ?P = "\<lambda>ob. ob = None \<or> (\<exists>t. ob = Some (Task t))"
  assume env: "env (ds_mem s) (ds_note s)"
    and l: "link_inv (ds_phase s) (ds_todo s) (ds_queue s) (ds_worker s)"
    and ti: "task_inv (ds_mem s) (ds_phase s) (ds_batch s) (unset (ds_client s) (ds_todo s))"
    and bi: "batch_inv kd (ds_mem s) (ds_phase s) (ds_batch s)"
    and ni: "note_inv kd tokens (ds_mem s) (ds_note s) (ds_phase s) (ds_batch s) (ds_worker s)
       (freeing (ds_client s))"
    and pi: "pc_inv (ds_batch s) (ds_worker s)"
    and hi: "hist_inv (ds_phase s) (ds_worker s) (ds_sent s) (ds_done s)"
    and ci: "client_pc_inv (ds_mem s) (ds_batch s) (ds_todo s) (ds_client s)"
    and idle: "\<forall>j \<ge> k. ds_worker s j = K_Receive" and q: "length (ds_queue s) \<le> n"
  have ok: "mem_ok (ds_mem s)" using env env_ok by blast
  have ph: "ds_phase s p = Taken i" using link_phase(3)[OF l, of i p] pc by simp
  have none: "ds_batch s p = None"
  proof (rule ccontr)
    assume "ds_batch s p \<noteq> None"
    then obtain c where "ds_batch s p = Some c" by blast
    then show False using ti t unfolding task_inv_def by (metis obj.inject(2) option.inject)
  qed
  have out: "outstanding ?ph (ds_batch s) c = outstanding (ds_phase s) (ds_batch s) c" for c
    by (rule outstanding_upd) (use ph none in auto)
  have d: "differs ?P (ds_mem s) ?m" using t(1) by (simp add: differs_def)
  have at: "counter_at kd ?m x y \<longleftrightarrow> counter_at kd (ds_mem s) x y" for x y
    using d by (rule differs_counter) (auto simp: counter_block_def)
  have "mem_ok ?m" using ok t(1) by (rule mem_ok_upd)
  with env have "env ?m (ds_note s)" by (rule env_frame[OF _ _ d]) auto
  moreover have "link_inv ?ph (ds_todo s) (ds_queue s) ?pcs"
    using l by (rule link_finish) (simp_all add: pc)
  moreover have "task_inv ?m ?ph (ds_batch s) (unset (ds_client s) (ds_todo s))"
    using ti by (rule task_frame) (use none ti in \<open>auto simp: task_inv_def split: if_splits\<close>)
  moreover have "batch_inv kd ?m ?ph (ds_batch s)" using bi by (rule batch_frame) (auto simp: out at)
  moreover have "note_inv kd tokens ?m (ds_note s) ?ph (ds_batch s) ?pcs (freeing (ds_client s))"
    using ni by (rule note_frame) (use pc ni in \<open>auto simp: out at note_inv_def\<close>)
  moreover have "pc_inv (ds_batch s) ?pcs" using pi by (auto simp: pc_inv_def)
  moreover have "hist_inv ?ph ?pcs (ds_sent s) (ds_done s)"
    using hi l by (rule hist_finish) (simp_all add: pc)
  moreover have "client_pc_inv ?m (ds_batch s) (ds_todo s) (ds_client s)"
    using ci d by (rule client_frame) auto
  ultimately have "disp_inv kd tokens env k n
      (to_worker i K_Ready (s\<lparr>ds_mem := ?m, ds_phase := ?ph\<rparr>))"
    using q idle_workers[OF idle i, of K_Ready] by (simp add: disp_inv_def to_worker_def)
  moreover have "dispatch_task_delete p (ds_mem s) = Inr ?m"
    using t(1) mem_ok_live[OF ok t(1)] by (simp add: mem_simps)
  ultimately show ?thesis by blast
qed

lemma note_signal:
  assumes inv: "note_inv kd tokens m nt ph bat pcs fr" and p: "bat p = Some c" "ph p \<noteq> Finished"
    and pc: "\<And>x. pcs i \<noteq> K_Notify x"
    and keep: "\<And>x cm. counter_at kd m' x cm \<Longrightarrow> \<exists>cm'. counter_at kd m x cm' \<and> vw_chan cm' = vw_chan cm"
  shows "note_inv kd tokens m' nt (ph(p := Finished)) bat
     (pcs(i := if outstanding (ph(p := Finished)) bat c = {} then K_Notify c else K_Ready)) fr"
proof -
  let ?ph = "ph(p := Finished)"
  let ?e = "outstanding ?ph bat c = {}"
  let ?pcs = "pcs(i := if ?e then K_Notify c else K_Ready)"
  have c: "c \<in> ran bat" using p(1) by (auto simp: ran_def)
  have "p \<in> outstanding ph bat c" using p by (simp add: outstanding_def)
  then have no: "\<And>j. pcs j \<noteq> K_Notify c" "fr \<noteq> Some c" using inv by (auto simp: note_inv_def)
  have zero: "tokens nt (vw_chan cm) = 0" if "counter_at kd m c cm" for cm
    using inv c that \<open>p \<in> outstanding ph bat c\<close> unfolding note_inv_def by (metis emptyE)
  have other: "outstanding ?ph bat x = outstanding ph bat x" if "x \<noteq> c" for x
    using p(1) that by (auto simp: outstanding_def)
  have pcs: "?pcs j = K_Notify x \<longleftrightarrow> (if x = c then j = i \<and> ?e else pcs j = K_Notify x)" for j x
    using no(1) pc by auto
  show ?thesis
    unfolding note_inv_def
  proof (intro conjI ballI allI impI)
    fix x cm
    assume x: "x \<in> ran bat" "counter_at kd m' x cm"
    then obtain cm' where cm': "counter_at kd m x cm'" "vw_chan cm' = vw_chan cm" using keep by blast
    show "tokens nt (vw_chan cm) =
      (if outstanding ?ph bat x = {} \<and> (\<forall>i. ?pcs i \<noteq> K_Notify x) \<and> fr \<noteq> Some x then 1 else 0)"
    proof (cases "x = c")
      case True
      then have "tokens nt (vw_chan cm) = 0" using zero[of cm'] cm' by simp
      then show ?thesis using True no(2) unfolding pcs by auto
    next
      case False
      have "tokens nt (vw_chan cm') =
        (if outstanding ph bat x = {} \<and> (\<forall>i. pcs i \<noteq> K_Notify x) \<and> fr \<noteq> Some x then 1 else 0)"
        using inv x(1) cm'(1) unfolding note_inv_def by blast
      then show ?thesis using False cm'(2) other[OF False] unfolding pcs by simp
    qed
  next
    fix j x
    assume "?pcs j = K_Notify x"
    then have x: "if x = c then j = i \<and> ?e else pcs j = K_Notify x" by (simp only: pcs)
    show "x \<in> ran bat" "outstanding ?ph bat x = {}" "fr \<noteq> Some x"
      using x inv c no(2) other by (cases "x = c"; auto simp: note_inv_def)+
    fix j'
    assume "?pcs j' = K_Notify x"
    then have "if x = c then j' = i \<and> ?e else pcs j' = K_Notify x" by (simp only: pcs)
    then show "j' = j" using x inv by (cases "x = c") (auto simp: note_inv_def)
  next
    fix x
    assume "fr = Some x"
    then show "x \<in> ran bat" "outstanding ?ph bat x = {}"
      using inv no(2) other[of x] by (auto simp: note_inv_def)
  qed
qed

lemma worker_signal_inv:
  assumes inv: "disp_inv kd tokens env k n s" and i: "i < k" and pc: "ds_worker s i = K_Signal p c"
  shows "\<exists>sig m. c \<noteq> NULL \<and> pf_decrement F c (ds_mem s) = Inr (sig, m) \<and>
     disp_inv kd tokens env k n (to_worker i (if sig then K_Notify c else K_Ready)
       (s\<lparr>ds_mem := m, ds_phase := (ds_phase s)(p := Finished)\<rparr>))"
  using inv
proof (rule disp_invE)
  let ?ph = "(ds_phase s)(p := Finished)"
  let ?c = "if outstanding ?ph (ds_batch s) c = {} then K_Notify c else K_Ready"
  let ?pcs = "(ds_worker s)(i := ?c)"
  assume env: "env (ds_mem s) (ds_note s)"
    and l: "link_inv (ds_phase s) (ds_todo s) (ds_queue s) (ds_worker s)"
    and ti: "task_inv (ds_mem s) (ds_phase s) (ds_batch s) (unset (ds_client s) (ds_todo s))"
    and bi: "batch_inv kd (ds_mem s) (ds_phase s) (ds_batch s)"
    and ni: "note_inv kd tokens (ds_mem s) (ds_note s) (ds_phase s) (ds_batch s) (ds_worker s)
       (freeing (ds_client s))"
    and pi: "pc_inv (ds_batch s) (ds_worker s)"
    and hi: "hist_inv (ds_phase s) (ds_worker s) (ds_sent s) (ds_done s)"
    and ci: "client_pc_inv (ds_mem s) (ds_batch s) (ds_todo s) (ds_client s)"
    and idle: "\<forall>j \<ge> k. ds_worker s j = K_Receive" and q: "length (ds_queue s) \<le> n"
  have ok: "mem_ok (ds_mem s)" using env env_ok by blast
  have ph: "ds_phase s p = Taken i" using link_phase(3)[OF l, of i p] pc by simp
  then have nf: "ds_phase s p \<noteq> Finished" by simp
  have bat: "ds_batch s p = Some c" using pi pc by (simp add: pc_inv_def)
  obtain m where m: "pf_decrement F c (ds_mem s) =
      Inr (outstanding ?ph (ds_batch s) c = {}, m)"
    "batch_inv kd m ?ph (ds_batch s)" "differs counter_block (ds_mem s) m" "mem_ok m" "c \<noteq> NULL"
    "\<forall>x cm. counter_at kd m x cm \<longrightarrow> (\<exists>cm'. counter_at kd (ds_mem s) x cm' \<and> vw_chan cm' = vw_chan cm)"
    using bi ok bat nf by (rule batch_decrement)
  have "env m (ds_note s)" using env m(4) by (rule env_frame[OF _ _ m(3)]) auto
  moreover have "link_inv ?ph (ds_todo s) (ds_queue s) ?pcs"
    using l by (rule link_finish) (simp_all add: pc)
  moreover have "task_inv m ?ph (ds_batch s) (unset (ds_client s) (ds_todo s))"
    using ti by (rule task_frame_same) (auto simp: differs_keep[OF m(3)] split: if_splits)
  moreover have "note_inv kd tokens m (ds_note s) ?ph (ds_batch s) ?pcs (freeing (ds_client s))"
    using ni bat nf by (rule note_signal) (use pc m(6) in auto)
  moreover have "pc_inv (ds_batch s) ?pcs" using pi by (auto simp: pc_inv_def)
  moreover have "hist_inv ?ph ?pcs (ds_sent s) (ds_done s)"
    using hi l by (rule hist_finish) (simp_all add: pc)
  moreover have "client_pc_inv m (ds_batch s) (ds_todo s) (ds_client s)"
    using ci m(3) by (rule client_frame) auto
  ultimately have "disp_inv kd tokens env k n (to_worker i ?c (s\<lparr>ds_mem := m, ds_phase := ?ph\<rparr>))"
    using q m(2) idle_workers[OF idle i, of ?c] by (simp add: disp_inv_def to_worker_def)
  with m(1,5) show ?thesis by blast
qed

lemma note_notify:
  assumes laws: "note_laws N tokens" and inv: "note_inv kd tokens m nt ph bat pcs fr"
    and bi: "batch_inv kd m ph bat" and pc: "pcs i = K_Notify c" and cm: "counter_at kd m c cm"
  shows "note_inv kd tokens m (notify N nt (vw_chan cm)) ph bat (pcs(i := K_Ready)) fr"
proof -
  let ?pcs = "pcs(i := K_Ready)"
  have c: "c \<in> ran bat" "outstanding ph bat c = {}" "fr \<noteq> Some c" "\<And>j. pcs j = K_Notify c \<longleftrightarrow> j = i"
    using inv pc by (auto simp: note_inv_def)
  have tok: "tokens nt (vw_chan y) =
      (if outstanding ph bat x = {} \<and> (\<forall>i. pcs i \<noteq> K_Notify x) \<and> fr \<noteq> Some x then 1 else 0)"
    if "x \<in> ran bat" "counter_at kd m x y" for x y
    using inv that unfolding note_inv_def by blast
  have "tokens nt (vw_chan cm) = 0" using tok[OF c(1) cm] pc by auto
  then have new: "tokens (notify N nt (vw_chan cm)) = (tokens nt)(vw_chan cm := 1)"
    using laws by (simp add: note_laws_def)
  have pcs: "?pcs j = K_Notify x \<longleftrightarrow> x \<noteq> c \<and> pcs j = K_Notify x" for j x
    using pc c(4)[of j] by auto
  show ?thesis
    unfolding note_inv_def
  proof (intro conjI ballI allI impI)
    fix x y
    assume x: "x \<in> ran bat" "counter_at kd m x y"
    show "tokens (notify N nt (vw_chan cm)) (vw_chan y) =
      (if outstanding ph bat x = {} \<and> (\<forall>i. ?pcs i \<noteq> K_Notify x) \<and> fr \<noteq> Some x then 1 else 0)"
    proof (cases "x = c")
      case True
      then have "y = cm" using x(2) cm counter_at_unique by blast
      then show ?thesis using True c(2,3) unfolding new pcs by simp
    next
      case False
      then have "vw_chan y \<noteq> vw_chan cm" using bi x c(1) cm unfolding batch_inv_def by metis
      then show ?thesis using False tok[OF x] unfolding new pcs by simp
    qed
  next
    fix j x
    assume "?pcs j = K_Notify x"
    then have x: "pcs j = K_Notify x" by (simp only: pcs)
    show "x \<in> ran bat" "outstanding ph bat x = {}" "fr \<noteq> Some x" using x inv by (auto simp: note_inv_def)
    fix j'
    assume "?pcs j' = K_Notify x"
    then show "j' = j" using x inv unfolding pcs by (auto simp: note_inv_def)
  next
    fix x
    assume "fr = Some x"
    then show "x \<in> ran bat" "outstanding ph bat x = {}" using inv by (auto simp: note_inv_def)
  qed
qed

lemma worker_notify_inv:
  assumes laws: laws and inv: "disp_inv kd tokens env k n s" and i: "i < k"
    and pc: "ds_worker s i = K_Notify c"
  shows "\<exists>h. pf_channel F c (ds_mem s) = Inr h \<and> disp_inv kd tokens env k n
     (to_worker i K_Ready (s\<lparr>ds_note := notify N (ds_note s) h\<rparr>))"
  using inv
proof (rule disp_invE)
  let ?pcs = "(ds_worker s)(i := K_Ready)"
  assume env: "env (ds_mem s) (ds_note s)"
    and l: "link_inv (ds_phase s) (ds_todo s) (ds_queue s) (ds_worker s)"
    and ti: "task_inv (ds_mem s) (ds_phase s) (ds_batch s) (unset (ds_client s) (ds_todo s))"
    and bi: "batch_inv kd (ds_mem s) (ds_phase s) (ds_batch s)"
    and ni: "note_inv kd tokens (ds_mem s) (ds_note s) (ds_phase s) (ds_batch s) (ds_worker s)
       (freeing (ds_client s))"
    and pi: "pc_inv (ds_batch s) (ds_worker s)"
    and hi: "hist_inv (ds_phase s) (ds_worker s) (ds_sent s) (ds_done s)"
    and ci: "client_pc_inv (ds_mem s) (ds_batch s) (ds_todo s) (ds_client s)"
    and idle: "\<forall>j \<ge> k. ds_worker s j = K_Receive" and q: "length (ds_queue s) \<le> n"
  have c: "c \<in> ran (ds_batch s)" using ni pc by (simp add: note_inv_def)
  obtain cm where cm: "counter_at kd (ds_mem s) c cm" using bi c by (rule batch_counter)
  have "pf_channel F c (ds_mem s) = Inr (vw_chan cm)" using env env_ok cm channel_law by blast
  moreover have "env (ds_mem s) (notify N (ds_note s) (vw_chan cm))" using laws env by (rule env_note)
  moreover have "link_inv (ds_phase s) (ds_todo s) (ds_queue s) ?pcs"
    using l by (rule link_stay) (simp add: pc)
  moreover have "note_inv kd tokens (ds_mem s) (notify N (ds_note s) (vw_chan cm)) (ds_phase s)
      (ds_batch s) ?pcs (freeing (ds_client s))"
    using laws_note[OF laws] ni bi pc cm by (rule note_notify)
  moreover have "pc_inv (ds_batch s) ?pcs" using pi by (auto simp: pc_inv_def)
  moreover have "hist_inv (ds_phase s) ?pcs (ds_sent s) (ds_done s)"
    using hi by (rule hist_stay) (simp add: pc)
  ultimately show ?thesis
    using env q ti bi ci idle_workers[OF idle i, of K_Ready] by (auto simp: disp_inv_def to_worker_def)
qed

lemma worker_task:
  assumes inv: "disp_inv kd tokens env k n s" and w: "work (ds_worker s i) = Some p"
  obtains t where "heap (ds_mem s) p = Some (Task t)" "p \<noteq> NULL"
    "task_waitable t \<Longrightarrow> ds_batch s p = Some (task_private_data t)"
  using inv
proof (rule disp_invE)
  assume env: "env (ds_mem s) (ds_note s)"
    and l: "link_inv (ds_phase s) (ds_todo s) (ds_queue s) (ds_worker s)"
    and ti: "task_inv (ds_mem s) (ds_phase s) (ds_batch s) (unset (ds_client s) (ds_todo s))"
  have ph: "ds_phase s p = Taken i" using link_phase(3)[OF l] w by simp
  then have "p \<notin> set (ds_todo s)" unfolding link_phase(1)[OF l] by simp
  then have un: "p \<notin> set (unset (ds_client s) (ds_todo s))"
    by (cases "ds_client s"; cases "ds_todo s") auto
  from ph obtain t where t: "heap (ds_mem s) p = Some (Task t)"
    "task_waitable t = (ds_batch s p \<noteq> None)"
    using ti by (metis active.simps(5) task_inv_def)
  show thesis
  proof (rule that)
    show "heap (ds_mem s) p = Some (Task t)" by (rule t)
    show "p \<noteq> NULL" using t(1) env env_ok mem_ok_live by blast
    show "ds_batch s p = Some (task_private_data t)" if wt: "task_waitable t"
    proof -
      from wt t(2) obtain c where c: "ds_batch s p = Some c" by auto
      then obtain t' where "heap (ds_mem s) p = Some (Task t')" "task_private_data t' = c"
        using ti un unfolding task_inv_def by blast
      with t(1) c show ?thesis by simp
    qed
  qed
qed

lemma worker_step_inv:
  assumes laws: laws and inv: "disp_inv kd tokens env k n s" and i: "i < k"
    and step: "worker_step F N call n i s = Some s'"
  shows "disp_inv kd tokens env k n s'"
proof -
  have env: "env (ds_mem s) (ds_note s)" using inv by (rule disp_invE)
  have pi: "pc_inv (ds_batch s) (ds_worker s)" using inv by (rule disp_invE)
  show ?thesis
  proof (cases "ds_worker s i")
    case K_Receive
    with step obtain p xs where "ds_queue s = p # xs"
      "s' = to_worker i (K_Claim p) (s\<lparr>ds_queue := xs, ds_phase := (ds_phase s)(p := Taken i)\<rparr>)"
      by (auto simp: worker_step_def split: list.splits)
    then show ?thesis using worker_receive_inv[OF inv i K_Receive] by simp
  next
    case (K_Claim p)
    obtain m' nt' where m': "pf_busy F i (ds_mem s) (ds_note s) = Inr (m', nt')"
      "env m' nt'" "differs word_array (ds_mem s) m'" "tokens nt' = tokens (ds_note s)"
      using busy_law[OF laws env i] by blast
    have "disp_inv kd tokens env k n (to_worker i (K_Perform p) (s\<lparr>ds_mem := m', ds_note := nt'\<rparr>))"
      using m'(4) inv i m'(2,3) by (rule worker_move_inv) (simp_all add: K_Claim)
    with step K_Claim m'(1) show ?thesis by (simp add: worker_step_def worker_try_def)
  next
    case (K_Perform p)
    obtain u where "dispatch_task_perform call p (ds_mem s) (ds_app s) = Inr u"
      using worker_perform_inv(1)[OF inv i K_Perform] by blast
    with step K_Perform worker_perform_inv(2)[OF inv i K_Perform, of u] show ?thesis
      by (simp add: worker_step_def worker_try_def)
  next
    case (K_Finish p)
    have "work (ds_worker s i) = Some p" using K_Finish by simp
    with inv obtain t where t: "heap (ds_mem s) p = Some (Task t)" "p \<noteq> NULL"
      "task_waitable t \<Longrightarrow> ds_batch s p = Some (task_private_data t)"
      by (rule worker_task) blast
    show ?thesis
    proof (cases "task_waitable t")
      case True
      have "disp_inv kd tokens env k n (to_worker i (K_Signal p (task_private_data t))
          (s\<lparr>ds_mem := ds_mem s, ds_note := ds_note s\<rparr>))"
        using refl inv i env differs_refl by (rule worker_move_inv) (use K_Finish t(3)[OF True] in auto)
      with step K_Finish t(1,2) True show ?thesis
        by (simp add: worker_step_def worker_try_def load_task_def load_def)
    next
      case False
      with step K_Finish t(1,2) worker_delete_inv[OF inv i K_Finish t(1) False] show ?thesis
        by (auto simp: worker_step_def worker_try_def load_task_def load_def)
    qed
  next
    case (K_Signal p c)
    with step worker_signal_inv[OF inv i K_Signal] show ?thesis
      by (auto simp: worker_step_def worker_try_def)
  next
    case (K_Notify c)
    with step worker_notify_inv[OF laws inv i K_Notify] show ?thesis
      by (auto simp: worker_step_def worker_try_def)
  next
    case K_Ready
    obtain m' nt' where m': "pf_ready F i (ds_mem s) (ds_note s) = Inr (m', nt')"
      "env m' nt'" "differs word_array (ds_mem s) m'" "tokens nt' = tokens (ds_note s)"
      using ready_law[OF laws env i] by blast
    have "disp_inv kd tokens env k n (to_worker i K_Receive (s\<lparr>ds_mem := m', ds_note := nt'\<rparr>))"
      using m'(4) inv i m'(2,3) by (rule worker_move_inv) (simp_all add: K_Ready)
    with step K_Ready m'(1) show ?thesis by (simp add: worker_step_def worker_try_def)
  next
    case (K_Fault e)
    then show ?thesis using pi by (simp add: pc_inv_def)
  qed
qed

subsection \<open>The client\<close>

lemma client_send_inv:
  assumes inv: "disp_inv kd tokens env k n s" and pc: "ds_client s = C_Send p c"
    and room: "length (ds_queue s) < n"
  shows "disp_inv kd tokens env k n (s\<lparr>ds_queue := ds_queue s @ [p], ds_client := c,
     ds_todo := tl (ds_todo s), ds_phase := (ds_phase s)(p := Queued), ds_sent := ds_sent s @ [p]\<rparr>)"
  using inv
proof (rule disp_invE)
  let ?ph = "(ds_phase s)(p := Queued)"
  assume env: "env (ds_mem s) (ds_note s)"
    and l: "link_inv (ds_phase s) (ds_todo s) (ds_queue s) (ds_worker s)"
    and ti: "task_inv (ds_mem s) (ds_phase s) (ds_batch s) (unset (ds_client s) (ds_todo s))"
    and bi: "batch_inv kd (ds_mem s) (ds_phase s) (ds_batch s)"
    and ni: "note_inv kd tokens (ds_mem s) (ds_note s) (ds_phase s) (ds_batch s) (ds_worker s)
       (freeing (ds_client s))"
    and pi: "pc_inv (ds_batch s) (ds_worker s)"
    and hi: "hist_inv (ds_phase s) (ds_worker s) (ds_sent s) (ds_done s)"
    and ci: "client_pc_inv (ds_mem s) (ds_batch s) (ds_todo s) (ds_client s)"
    and idle: "\<forall>j \<ge> k. ds_worker s j = K_Receive"
  from ci pc obtain ts where ts: "ds_todo s = p # ts" by auto
  then have p: "ds_phase s p = Todo" using link_phase(1)[OF l, of p] by simp
  have out: "outstanding ?ph (ds_batch s) x = outstanding (ds_phase s) (ds_batch s) x" for x
    by (rule outstanding_upd) (use p in auto)
  have c: "unset c ts = ts" "freeing c = None" "client_pc_inv (ds_mem s) (ds_batch s) ts c"
    using ci pc ts by (auto split: client_pc.splits)
  have "link_inv ?ph ts (ds_queue s @ [p]) (ds_worker s)" using l ts by (auto intro: link_send)
  moreover have "task_inv (ds_mem s) ?ph (ds_batch s) (unset c ts)"
    unfolding c using ti[unfolded pc ts, simplified]
    by (rule task_frame_same) (use p in \<open>auto split: if_splits\<close>)
  moreover have "batch_inv kd (ds_mem s) ?ph (ds_batch s)" using bi by (rule batch_frame) (auto simp: out)
  moreover have "note_inv kd tokens (ds_mem s) (ds_note s) ?ph (ds_batch s) (ds_worker s) (freeing c)"
    unfolding c using ni[unfolded pc, simplified]
    by (rule note_frame) (use ni in \<open>auto simp: out note_inv_def\<close>)
  moreover have "hist_inv ?ph (ds_worker s) (ds_sent s @ [p]) (ds_done s)" using hi p by (rule hist_send)
  ultimately show ?thesis
    using env pi c(3) idle room ts by (simp add: disp_inv_def)
qed

text \<open>One turn of the loop over a group: the task gets its event counter.\<close>

lemma group_rep_nth:
  assumes "group_rep m g l w ts" and "i < length ts"
  shows "\<exists>gr. load_group g m = Inr gr \<and> i < unat (group_count gr) \<and> read_ptr (group_tasks gr) i m = Inr (ts ! i)"
  using assms by (auto elim!: group_repE simp: mem_simps)

lemma group_rep_count:
  assumes "group_rep m g l w ts"
  shows "\<exists>gr. load_group g m = Inr gr \<and> unat (group_count gr) = length ts \<and> group_waitable gr = w \<and> g \<noteq> NULL"
  using assms by (auto elim!: group_repE simp: mem_simps)

lemma task_set_counter:
  assumes inv: "task_inv m ph bat (p # un)" and t: "heap m p = Some (Task t)"
    and bat: "bat p = None \<or> bat p = Some c"
  shows "task_inv (m\<lparr>heap := (heap m)(p \<mapsto> Task (t\<lparr>task_private_data := c\<rparr>))\<rparr>) ph bat un"
    (is "task_inv ?m ph bat un")
  unfolding task_inv_def
proof (intro conjI allI impI)
  fix q
  assume "active (ph q)"
  then obtain t' where "heap m q = Some (Task t')" "task_function t' \<noteq> NULL"
    "task_waitable t' = (bat q \<noteq> None)" using inv unfolding task_inv_def by blast
  then show "\<exists>t. heap ?m q = Some (Task t) \<and> task_function t \<noteq> NULL \<and> task_waitable t = (bat q \<noteq> None)"
    using t by (cases "q = p") auto
next
  fix q x
  assume q: "bat q = Some x"
  then obtain t' where t': "ph q \<noteq> Unknown" "heap m q = Some (Task t')" "task_waitable t'"
    "q \<notin> set (p # un) \<longrightarrow> task_private_data t' = x" using inv unfolding task_inv_def by blast
  show "ph q \<noteq> Unknown" by (rule t'(1))
  show "\<exists>t. heap ?m q = Some (Task t) \<and> task_waitable t \<and> (q \<notin> set un \<longrightarrow> task_private_data t = x)"
    using t t' q bat by (cases "q = p") auto
qed

lemma client_group_inv:
  assumes inv: "disp_inv kd tokens env k n s" and pc: "ds_client s = C_Group g i c"
  shows "\<exists>r m. group_add_next g i c (ds_mem s) = Inr (r, m) \<and> disp_inv kd tokens env k n
     (case r of None \<Rightarrow> s\<lparr>ds_client := C_Idle\<rparr>
      | Some p \<Rightarrow> s\<lparr>ds_mem := m, ds_client := C_Send p (C_Group g (Suc i) c)\<rparr>)"
  using inv
proof (rule disp_invE)
  assume env: "env (ds_mem s) (ds_note s)"
    and l: "link_inv (ds_phase s) (ds_todo s) (ds_queue s) (ds_worker s)"
    and ti: "task_inv (ds_mem s) (ds_phase s) (ds_batch s) (unset (ds_client s) (ds_todo s))"
    and bi: "batch_inv kd (ds_mem s) (ds_phase s) (ds_batch s)"
    and ni: "note_inv kd tokens (ds_mem s) (ds_note s) (ds_phase s) (ds_batch s) (ds_worker s)
       (freeing (ds_client s))"
    and pi: "pc_inv (ds_batch s) (ds_worker s)"
    and hi: "hist_inv (ds_phase s) (ds_worker s) (ds_sent s) (ds_done s)"
    and ci: "client_pc_inv (ds_mem s) (ds_batch s) (ds_todo s) (ds_client s)"
    and idle: "\<forall>j \<ge> k. ds_worker s j = K_Receive" and q: "length (ds_queue s) \<le> n"
  let ?m = "ds_mem s"
  from ci pc obtain len w ts where g: "group_rep ?m g len w ts" "i \<le> length ts"
    "ds_todo s = drop i ts" "\<forall>q \<in> set (ds_todo s). ds_batch s q = (if w then Some c else None)"
    by (auto simp: group_loop_def)
  show ?thesis
  proof (cases "i < length ts")
    case False
    obtain gr where "load_group g ?m = Inr gr" "unat (group_count gr) = length ts"
      using group_rep_count[OF g(1)] by blast
    then have "group_add_next g i c ?m = Inr (None, ?m)" using False by (simp add: group_add_next_def)
    moreover have "disp_inv kd tokens env k n (s\<lparr>ds_client := C_Idle\<rparr>)"
      using env l ti bi ni pi hi idle q pc g(3) False by (simp add: disp_inv_def)
    ultimately show ?thesis by auto
  next
    case True
    let ?p = "ts ! i"
    have todo: "ds_todo s = ?p # drop (Suc i) ts" using g(3) True by (simp add: Cons_nth_drop_Suc)
    then have ph: "ds_phase s ?p = Todo" using link_phase(1)[OF l, of ?p] by simp
    then obtain t where t: "heap ?m ?p = Some (Task t)" "task_function t \<noteq> NULL"
      "task_waitable t = (ds_batch s ?p \<noteq> None)"
      using ti by (metis active.simps(3) task_inv_def)
    have ok: "mem_ok ?m" using env env_ok by blast
    let ?t = "t\<lparr>task_private_data := c\<rparr>"
    let ?m' = "?m\<lparr>heap := (heap ?m)(?p \<mapsto> Task ?t)\<rparr>"
    have d: "differs task_obj ?m ?m'" using t(1) by (simp add: differs_def)
    have at: "counter_at kd ?m' x y \<longleftrightarrow> counter_at kd ?m x y" for x y
      using d by (rule differs_counter) auto
    obtain gr where gr: "load_group g ?m = Inr gr" "i < unat (group_count gr)"
      "read_ptr (group_tasks gr) i ?m = Inr ?p" using group_rep_nth[OF g(1) True] by blast
    have "group_add_next g i c ?m = Inr (Some ?p, ?m')"
      using gr t(1) mem_ok_live[OF ok t(1)]
      by (simp add: group_add_next_def load_task_def load_def store_def)
    moreover have "mem_ok ?m'" using ok t(1) by (rule mem_ok_upd)
    with env have "env ?m' (ds_note s)" by (rule env_frame[OF _ _ d]) auto
    moreover have "task_inv ?m' (ds_phase s) (ds_batch s) (drop (Suc i) ts)"
      using ti[unfolded pc todo, simplified] t(1)
      by (rule task_set_counter) (use g(4) todo in auto)
    moreover have "batch_inv kd ?m' (ds_phase s) (ds_batch s)" using bi by (rule batch_frame) (auto simp: at)
    moreover have "note_inv kd tokens ?m' (ds_note s) (ds_phase s) (ds_batch s) (ds_worker s) None"
      using ni[unfolded pc, simplified] by (rule note_frame) (use ni in \<open>auto simp: at note_inv_def\<close>)
    moreover have "group_rep ?m' g len w ts" using d by (rule differs_group) (use g(1) in auto)
    then have "group_loop ?m' (ds_batch s) g (Suc i) c (drop (Suc i) ts)"
      unfolding group_loop_def using g(4) True todo
      by (intro exI[of _ len] exI[of _ w] exI[of _ ts]) simp
    ultimately have "disp_inv kd tokens env k n
        (s\<lparr>ds_mem := ?m', ds_client := C_Send ?p (C_Group g (Suc i) c)\<rparr>)"
      using l pi hi idle q todo by (simp add: disp_inv_def)
    with \<open>group_add_next g i c ?m = Inr (Some ?p, ?m')\<close> show ?thesis by auto
  qed
qed

lemma target_ran: "target_inv m bat x c \<Longrightarrow> c \<in> ran bat"
proof (cases x)
  case (For_Task p)
  moreover assume "target_inv m bat x c"
  ultimately have "bat p = Some c" by auto
  then show ?thesis by (rule ranI)
next
  case (For_Group g)
  moreover assume "target_inv m bat x c"
  ultimately obtain ts where ts: "ts \<noteq> []" "{q. bat q = Some c} = set ts" by auto
  from ts(1) have "hd ts \<in> {q. bat q = Some c}" unfolding ts(2) by simp
  then show ?thesis by (auto intro: ranI)
qed

text \<open>A wait that returns has taken the notification of a counter whose tasks are all finished.\<close>

lemma note_await:
  assumes laws: "note_laws N tokens" and inv: "note_inv kd tokens m nt ph bat pcs None"
    and bi: "batch_inv kd m ph bat" and c: "c \<in> ran bat" "counter_at kd m c cm"
    and aw: "await N nt (vw_chan cm) = Some nt'"
  shows "note_inv kd tokens m nt' ph bat pcs (Some c)"
proof -
  have tok: "tokens nt (vw_chan y) =
      (if outstanding ph bat x = {} \<and> (\<forall>i. pcs i \<noteq> K_Notify x) then 1 else 0)"
    if "x \<in> ran bat" "counter_at kd m x y" for x y
    using inv that unfolding note_inv_def by simp
  have "tokens nt (vw_chan cm) \<noteq> 0" using laws aw by (metis note_laws_def option.distinct(1))
  then have dn: "outstanding ph bat c = {}" "\<And>i. pcs i \<noteq> K_Notify c" "tokens nt (vw_chan cm) = 1"
    using tok[OF c] by (auto split: if_splits)
  have new: "tokens nt' = (tokens nt)(vw_chan cm := 0)"
    using laws aw dn(3) by (simp add: note_laws_def)
  show ?thesis
    unfolding note_inv_def
  proof (intro conjI ballI allI impI)
    fix x y
    assume x: "x \<in> ran bat" "counter_at kd m x y"
    show "tokens nt' (vw_chan y) =
      (if outstanding ph bat x = {} \<and> (\<forall>i. pcs i \<noteq> K_Notify x) \<and> Some c \<noteq> Some x then 1 else 0)"
    proof (cases "x = c")
      case True
      then have "y = cm" using x(2) c(2) counter_at_unique by blast
      then show ?thesis using True new by simp
    next
      case False
      then have "vw_chan y \<noteq> vw_chan cm" using bi x c unfolding batch_inv_def by metis
      then show ?thesis using False tok[OF x] new by simp
    qed
  next
    fix i x
    assume x: "pcs i = K_Notify x"
    then show "x \<in> ran bat" "outstanding ph bat x = {}" "Some c \<noteq> Some x"
      using inv dn(2) by (auto simp: note_inv_def)
    fix j
    assume "pcs j = K_Notify x"
    then show "j = i" using x inv by (auto simp: note_inv_def)
  next
    fix x
    assume "Some c = Some x"
    then show "x \<in> ran bat" "outstanding ph bat x = {}" using c(1) dn(1) by auto
  qed
qed

lemma client_await_inv:
  assumes laws: laws and inv: "disp_inv kd tokens env k n s"
    and pc: "ds_client s = C_Await x c"
  shows "\<exists>r. pf_wait F c (ds_mem s) (ds_note s) = Inr r \<and>
     (case r of None \<Rightarrow> True
      | Some nt \<Rightarrow> disp_inv kd tokens env k n (s\<lparr>ds_note := nt, ds_client := C_Free x c\<rparr>))"
  using inv
proof (rule disp_invE)
  assume env: "env (ds_mem s) (ds_note s)"
    and l: "link_inv (ds_phase s) (ds_todo s) (ds_queue s) (ds_worker s)"
    and ti: "task_inv (ds_mem s) (ds_phase s) (ds_batch s) (unset (ds_client s) (ds_todo s))"
    and bi: "batch_inv kd (ds_mem s) (ds_phase s) (ds_batch s)"
    and ni: "note_inv kd tokens (ds_mem s) (ds_note s) (ds_phase s) (ds_batch s) (ds_worker s)
       (freeing (ds_client s))"
    and pi: "pc_inv (ds_batch s) (ds_worker s)"
    and hi: "hist_inv (ds_phase s) (ds_worker s) (ds_sent s) (ds_done s)"
    and ci: "client_pc_inv (ds_mem s) (ds_batch s) (ds_todo s) (ds_client s)"
    and idle: "\<forall>j \<ge> k. ds_worker s j = K_Receive" and q: "length (ds_queue s) \<le> n"
  have c: "c \<in> ran (ds_batch s)" using ci pc target_ran by auto
  obtain cm where cm: "counter_at kd (ds_mem s) c cm" using bi c by (rule batch_counter)
  have w: "pf_wait F c (ds_mem s) (ds_note s) = Inr (await N (ds_note s) (vw_chan cm))"
    using env env_ok cm wait_law by blast
  have "disp_inv kd tokens env k n (s\<lparr>ds_note := nt, ds_client := C_Free x c\<rparr>)"
    if "await N (ds_note s) (vw_chan cm) = Some nt" for nt
    using note_await[OF laws_note[OF laws] ni[unfolded pc, simplified] bi c cm that]
      env_note(2)[OF laws env that] l ti bi pi hi ci idle q pc
    by (simp add: disp_inv_def)
  with w show ?thesis by (auto split: option.splits)
qed

subsection \<open>Deleting what was waited for\<close>

lemma tasks_delete_ok:
  assumes "\<And>i. i < length ts \<Longrightarrow> read_ptr a i m = Inr (ts ! i)" and a: "a \<notin> set ts"
    and tasks: "\<And>p. p \<in> set ts \<Longrightarrow> p \<noteq> NULL \<and> heap m p \<noteq> None" and dist: "distinct ts"
  shows "for_range 0 (length ts) (\<lambda>i m. bindE (read_ptr a i m) (\<lambda>p. dispatch_task_delete p m)) m =
     Inr (m\<lparr>heap := (heap m) |` (- set ts)\<rparr>)"
proof -
  let ?m = "\<lambda>i. m\<lparr>heap := (heap m) |` (- set (take i ts))\<rparr>"
  let ?body = "\<lambda>i m. bindE (read_ptr a i m) (\<lambda>p. dispatch_task_delete p m)"
  have "\<exists>t. for_range 0 (length ts) ?body m = Inr t \<and> t = ?m (length ts)"
  proof (rule for_range_rule[where P = "\<lambda>i t. t = ?m i"])
    fix i t
    assume i: "i < length ts" and t: "t = ?m i"
    have "ts ! i \<notin> set (take i ts)"
      using dist i by (metis distinct_take lessI not_distinct_conv_prefix take_Suc_conv_app_nth)
    moreover have "heap m (ts ! i) \<noteq> None" "ts ! i \<noteq> NULL" using tasks[of "ts ! i"] i by simp_all
    moreover have "heap (?m i) a = heap m a" using a set_take_subset[of i ts] by (auto simp: restrict_map_def)
    then have "read_ptr a i (?m i) = Inr (ts ! i)"
      using assms(1)[OF i] by (auto simp: mem_simps)
    ultimately show "\<exists>t'. ?body i t = Inr t' \<and> t' = ?m (Suc i)"
      using t i by (auto simp: dispatch_task_delete_def free_def restrict_map_def fun_eq_iff
          take_Suc_conv_app_nth)
  qed (simp_all add: restrict_map_def)
  then show ?thesis by simp
qed

lemma wait_finish_ok:
  assumes ok: "mem_ok m" and cm: "counter_at kd m c cm" and x: "target_inv m bat x c"
    and tasks: "\<And>p. bat p = Some c \<Longrightarrow> \<exists>t. heap m p = Some (Task t)"
  shows "wait_finish (pf_delete F) x c m =
     Inr (m\<lparr>heap := (heap m) |` (- ({c, vw_lock cm} \<union> {p. bat p = Some c}))\<rparr>)"
proof -
  let ?m = "m\<lparr>heap := (heap m) |` (- {c, vw_lock cm})\<rparr>"
  have del: "pf_delete F c m = Inr ?m" using ok cm by (rule delete_law)
  have ne: "p \<noteq> c" "p \<noteq> vw_lock cm" "p \<noteq> NULL" "heap ?m p \<noteq> None" if "bat p = Some c" for p
    using tasks[OF that] counter_at_blocks[OF cm] mem_ok_live[OF ok] by (auto simp: restrict_map_def)
  show ?thesis
  proof (cases x)
    case (For_Task p)
    then have p: "{p. bat p = Some c} = {p}" "bat p = Some c" using x by auto
    show ?thesis
      using del ne[OF p(2)] For_Task
      by (auto simp: wait_finish_def task_wait_finish_def dispatch_task_delete_def free_def p(1)
          restrict_map_def fun_eq_iff)
  next
    case (For_Group g)
    with x obtain len ts where g: "group_rep m g len True ts" "distinct ts"
      "{p. bat p = Some c} = set ts" by auto
    then obtain gr a where gr: "g \<noteq> NULL" "heap m g = Some (Group gr)" "group_tasks gr \<noteq> NULL"
      "heap m (group_tasks gr) = Some (Ptr_Array a)" "unat (group_count gr) = length ts"
      by (auto elim: group_repE)
    have other: "heap ?m g = heap m g" "heap ?m (group_tasks gr) = heap m (group_tasks gr)"
      using gr counter_at_blocks[OF cm] by (auto simp: restrict_map_def)
    have read: "read_ptr (group_tasks gr) i ?m = Inr (ts ! i)" if "i < length ts" for i
    proof -
      obtain gr' where "load_group g m = Inr gr'" "read_ptr (group_tasks gr') i m = Inr (ts ! i)"
        using group_rep_nth[OF g(1) \<open>i < length ts\<close>] by blast
      with gr other show ?thesis by (auto simp: mem_simps)
    qed
    have bat: "bat p = Some c" if "p \<in> set ts" for p using g(3) that by blast
    have "group_tasks gr \<notin> set ts" using tasks[OF bat] gr(4) by fastforce
    then have "for_range 0 (length ts)
        (\<lambda>i m. bindE (read_ptr (group_tasks gr) i m) (\<lambda>p. dispatch_task_delete p m)) ?m =
      Inr (?m\<lparr>heap := (heap ?m) |` (- set ts)\<rparr>)"
      using read g(2) ne(3,4)[OF bat] by (intro tasks_delete_ok) auto
    moreover have "load_group g ?m = Inr gr" using gr other by (simp add: load_group_def load_def)
    moreover have "- set ts \<inter> - {c, vw_lock cm} = - ({c, vw_lock cm} \<union> {p. bat p = Some c})"
      using g(3) by auto
    ultimately show ?thesis
      using del For_Group gr(5) by (simp add: wait_finish_def group_wait_finish_def Int_commute)
  qed
qed

lemma client_free_inv:
  assumes inv: "disp_inv kd tokens env k n s" and pc: "ds_client s = C_Free x c"
  shows "\<exists>m. wait_finish (pf_delete F) x c (ds_mem s) = Inr m \<and> disp_inv kd tokens env k n
     (s\<lparr>ds_mem := m, ds_client := C_Idle,
       ds_batch := (\<lambda>p. if ds_batch s p = Some c then None else ds_batch s p)\<rparr>)"
  using inv
proof (rule disp_invE)
  let ?m = "ds_mem s" and ?ph = "ds_phase s" and ?bat = "ds_batch s"
  let ?bat' = "\<lambda>p. if ?bat p = Some c then None else ?bat p"
  let ?P = transient
  assume env: "env ?m (ds_note s)"
    and l: "link_inv ?ph (ds_todo s) (ds_queue s) (ds_worker s)"
    and ti: "task_inv ?m ?ph ?bat (unset (ds_client s) (ds_todo s))"
    and bi: "batch_inv kd ?m ?ph ?bat"
    and ni: "note_inv kd tokens ?m (ds_note s) ?ph ?bat (ds_worker s) (freeing (ds_client s))"
    and pi: "pc_inv ?bat (ds_worker s)"
    and hi: "hist_inv ?ph (ds_worker s) (ds_sent s) (ds_done s)"
    and ci: "client_pc_inv ?m ?bat (ds_todo s) (ds_client s)"
    and idle: "\<forall>j \<ge> k. ds_worker s j = K_Receive" and q: "length (ds_queue s) \<le> n"
  have ok: "mem_ok ?m" using env env_ok by blast
  have todo: "ds_todo s = []" and x: "target_inv ?m ?bat x c" using ci pc by auto
  note ti = ti[unfolded pc todo, simplified] and ni = ni[unfolded pc, simplified]
  have c: "c \<in> ran ?bat" using x by (rule target_ran)
  obtain cm where cm: "counter_at kd ?m c cm" using bi c by (rule batch_counter)
  have tasks: "\<exists>t. heap ?m p = Some (Task t)" if "?bat p = Some z" for p z
    using ti that unfolding task_inv_def by blast
  have fin: "?ph p = Finished" if "?bat p = Some c" for p
    using ni that by (auto simp: note_inv_def outstanding_def)
  let ?D = "{c, vw_lock cm} \<union> {p. ?bat p = Some c}"
  let ?m' = "?m\<lparr>heap := (heap ?m) |` (- ?D)\<rparr>"
  have wf: "wait_finish (pf_delete F) x c ?m = Inr ?m'" using ok cm x tasks by (rule wait_finish_ok)
  have P: "?P (heap ?m p)" if "p \<in> ?D" for p
    using that counter_at_blocks[OF cm] tasks[of p c] by auto
  then have d: "differs ?P ?m ?m'" unfolding differs_def by (auto simp: restrict_map_def)
  have ran: "z \<in> ran ?bat' \<longleftrightarrow> z \<in> ran ?bat \<and> z \<noteq> c" for z
    unfolding ran_def by (auto split: if_splits) (metis option.inject)
  have out: "outstanding ?ph ?bat' z = outstanding ?ph ?bat z" if "z \<in> ran ?bat'" for z
  proof -
    have "z \<noteq> c" using that unfolding ran by simp
    then show ?thesis by (auto simp: outstanding_def)
  qed
  have at: "counter_at kd ?m' z y \<longleftrightarrow> counter_at kd ?m z y" if z: "z \<in> ran ?bat'" for z y
  proof
    assume y: "counter_at kd ?m z y"
    have "z \<noteq> c" "z \<in> ran ?bat" using z ran by auto
    then have "vw_lock y \<noteq> vw_lock cm" using bi y c cm unfolding batch_inv_def by metis
    moreover have "z \<noteq> vw_lock cm" "c \<noteq> vw_lock y"
      using y cm \<open>z \<noteq> c\<close> counter_at_apart by blast+
    moreover have "?bat z \<noteq> Some c" "?bat (vw_lock y) \<noteq> Some c"
      using counter_at_blocks[OF y] tasks by fastforce+
    ultimately show "counter_at kd ?m' z y"
      using y \<open>z \<noteq> c\<close> by (intro counter_at_frame[OF y]) (auto simp: restrict_map_def)
  next
    assume y: "counter_at kd ?m' z y"
    have "heap ?m' p = heap ?m p" if "counter_block (heap ?m' p)" for p
      using that by (auto simp: restrict_map_def split: if_splits)
    then show "counter_at kd ?m z y" using counter_at_frame[OF y] counter_at_blocks[OF y] by metis
  qed
  have "mem_ok ?m'" using ok by (rule mem_ok_dom) auto
  with env have env': "env ?m' (ds_note s)" by (rule env_frame[OF _ _ d]) auto
  moreover have "task_inv ?m' ?ph ?bat' []"
    using ti
  proof (rule task_frame)
    fix p t
    assume t: "heap ?m p = Some (Task t)" and "active (?ph p) \<or> ?bat' p \<noteq> None"
    then have "?bat p \<noteq> Some c" using fin by (auto split: if_splits)
    then show "heap ?m' p = Some (Task t)" using t counter_at_blocks[OF cm] by (auto simp: restrict_map_def)
  next
    show "active (?ph p) \<and> ?bat' p = ?bat p" if "active (?ph p)" for p
      using that fin by auto
    show "?bat p = Some z \<and> ?ph p \<noteq> Unknown" if "?bat' p = Some z" for p z
      using that ti by (auto simp: task_inv_def split: if_splits)
  qed
  moreover have "batch_inv kd ?m' ?ph ?bat'"
    using bi by (rule batch_frame) (use out at in \<open>auto split: if_splits\<close>)
  moreover have "note_inv kd tokens ?m' (ds_note s) ?ph ?bat' (ds_worker s) None"
  proof -
    have "note_inv kd tokens ?m' (ds_note s) ?ph ?bat' (ds_worker s) None \<longleftrightarrow>
      note_inv kd tokens ?m (ds_note s) ?ph ?bat' (ds_worker s) None"
      using at by (simp add: note_inv_def)
    moreover have "note_inv kd tokens ?m (ds_note s) ?ph ?bat' (ds_worker s) None"
      unfolding note_inv_def
    proof (intro conjI ballI allI impI)
      fix z y
      assume z: "z \<in> ran ?bat'" "counter_at kd ?m z y"
      have "z \<in> ran ?bat" "z \<noteq> c" using z(1) unfolding ran by simp_all
      then show "tokens (ds_note s) (vw_chan y) = (if outstanding ?ph ?bat' z = {} \<and>
          (\<forall>i. ds_worker s i \<noteq> K_Notify z) \<and> None \<noteq> Some z then 1 else 0)"
        using ni z(2) unfolding out[OF z(1)] note_inv_def by simp
    next
      fix i z
      assume w: "ds_worker s i = K_Notify z"
      then have z: "z \<in> ran ?bat" "outstanding ?ph ?bat z = {}" "Some c \<noteq> Some z"
        "\<And>j. ds_worker s j = K_Notify z \<Longrightarrow> j = i"
        using ni unfolding note_inv_def by blast+
      then show z': "z \<in> ran ?bat'" unfolding ran by auto
      show "outstanding ?ph ?bat' z = {}" using z(2) unfolding out[OF z'] .
      show "None \<noteq> Some z" by simp
      show "j = i" if "ds_worker s j = K_Notify z" for j using that by (rule z(4))
    qed simp_all
    ultimately show ?thesis by blast
  qed
  moreover have "pc_inv ?bat' (ds_worker s)"
    unfolding pc_inv_def
  proof (intro conjI allI impI)
    fix i p z
    assume w: "ds_worker s i = K_Signal p z"
    then have "?ph p = Taken i" using link_phase(3)[OF l, of i p] by simp
    then have "?bat p \<noteq> Some c" using fin by auto
    with w pi show "?bat' p = Some z" by (simp add: pc_inv_def)
  qed (use pi in \<open>simp add: pc_inv_def\<close>)
  ultimately have "disp_inv kd tokens env k n
      (s\<lparr>ds_mem := ?m', ds_client := C_Idle, ds_batch := ?bat'\<rparr>)"
    using l hi idle q todo by (simp add: disp_inv_def)
  with wf show ?thesis by blast
qed

text \<open>Steps that change nothing but the client's place.\<close>

lemma client_move_inv:
  assumes "disp_inv kd tokens env k n s" and "unset c (ds_todo s) = unset (ds_client s) (ds_todo s)"
    "freeing c = freeing (ds_client s)" "client_pc_inv (ds_mem s) (ds_batch s) (ds_todo s) c"
  shows "disp_inv kd tokens env k n (s\<lparr>ds_client := c\<rparr>)"
  using assms by (simp add: disp_inv_def)

lemma client_poll_inv:
  assumes inv: "disp_inv kd tokens env k n s" and pc: "polling (ds_client s)"
    and step: "client_try s (pf_poll F (ds_client s) q (ds_mem s) (ds_note s))
      (map_option (\<lambda>c. s\<lparr>ds_client := c\<rparr>)) = Some s'"
  shows "disp_inv kd tokens env k n s'"
proof -
  have env: "env (ds_mem s) (ds_note s)" using inv by (rule disp_invE)
  have ci: "client_pc_inv (ds_mem s) (ds_batch s) (ds_todo s) (ds_client s)" using inv by (rule disp_invE)
  obtain c' where c': "s' = s\<lparr>ds_client := c'\<rparr>" "polling c' \<or> c' = C_Idle"
    using poll_law[OF env pc, of q] step by (auto simp: client_try_def)
  show ?thesis
    unfolding c'(1) using inv by (rule client_move_inv) (use c'(2) pc ci in \<open>auto simp: polling_def\<close>)
qed

lemma client_step_inv:
  assumes laws: laws and inv: "disp_inv kd tokens env k n s"
    and step: "client_step F n s = Some s'"
  shows "disp_inv kd tokens env k n s'"
proof -
  have env: "env (ds_mem s) (ds_note s)" using inv by (rule disp_invE)
  have ci: "client_pc_inv (ds_mem s) (ds_batch s) (ds_todo s) (ds_client s)" using inv by (rule disp_invE)
  show ?thesis
  proof (cases "ds_client s")
    case (C_Send p c)
    with step have "length (ds_queue s) < n"
      "s' = s\<lparr>ds_queue := ds_queue s @ [p], ds_client := c, ds_todo := tl (ds_todo s),
         ds_phase := (ds_phase s)(p := Queued), ds_sent := ds_sent s @ [p]\<rparr>"
      by (auto simp: client_step_def split: if_splits)
    then show ?thesis using client_send_inv[OF inv C_Send] by simp
  next
    case (C_Group g i c)
    with step client_group_inv[OF inv C_Group] show ?thesis
      by (auto simp: client_step_def client_try_def)
  next
    case (C_Await x c)
    with step client_await_inv[OF laws inv C_Await] show ?thesis
      by (auto simp: client_step_def client_try_def split: option.splits)
  next
    case (C_Free x c)
    with step client_free_inv[OF inv C_Free] show ?thesis
      by (auto simp: client_step_def client_try_def)
  next
    case (C_Busy i b)
    then show ?thesis using client_poll_inv[OF inv] step by (auto simp: client_step_def polling_def)
  next
    case (C_Size b)
    then show ?thesis using client_poll_inv[OF inv] step by (auto simp: client_step_def polling_def)
  next
    case C_Idle
    then show ?thesis using step by (simp add: client_step_def)
  next
    case (C_Fault e)
    then show ?thesis using ci by simp
  qed
qed

end

end
