(* ===== verification/Dispatch_Correct.thy ===== *)
theory Dispatch_Correct
  imports Dispatch_Steps
begin

text \<open>
  The calls of the client keep the invariant as the steps of the threads do, so that it holds in
  every reachable state of a dispatch queue on any platform; and what it gives: where the
  threads can stop, and how many steps they have left before.
\<close>

section \<open>Adding tasks\<close>

lemma counter_added_keeps:
  "counter_added kd m m' c v \<Longrightarrow> heap m p = Some ob \<Longrightarrow> heap m' p = Some ob"
  unfolding counter_added_def by (metis option.distinct(1))

lemma counter_added_differs: "counter_added kd m m' c v \<Longrightarrow> differs transient m m'"
  unfolding counter_added_def differs_def by (metis counter_at_blocks transient_simps(1,3))

text \<open>The bookkeeping of \<open>add_tasks\<close>.\<close>

definition phase_add :: "ptr list \<Rightarrow> (ptr \<Rightarrow> task_phase) \<Rightarrow> ptr \<Rightarrow> task_phase" where
  "phase_add ts ph = (\<lambda>p. if p \<in> set ts then Todo else ph p)"

definition batch_add :: "ptr list \<Rightarrow> bool \<Rightarrow> ptr \<Rightarrow> (ptr \<rightharpoonup> ptr) \<Rightarrow> ptr \<rightharpoonup> ptr" where
  "batch_add ts w c bat = (\<lambda>p. if p \<in> set ts \<and> w then Some c else bat p)"

lemma unknown_batch: "task_inv m ph bat un \<Longrightarrow> ph p = Unknown \<Longrightarrow> bat p = None"
  unfolding task_inv_def by (cases "bat p") auto

lemma task_add_inv:
  assumes inv: "task_inv m ph bat []"
    and new: "\<And>p. p \<in> set ts \<Longrightarrow> ph p = Unknown \<and>
      (\<exists>t. heap m p = Some (Task t) \<and> task_function t \<noteq> NULL \<and> task_waitable t = w)"
    and keep: "\<And>p t. heap m p = Some (Task t) \<Longrightarrow> heap m' p = Some (Task t)"
  shows "task_inv m' (phase_add ts ph) (batch_add ts w c bat) ts"
  unfolding task_inv_def
proof (intro conjI allI impI)
  fix p
  assume "active (phase_add ts ph p)"
  then show "\<exists>t. heap m' p = Some (Task t) \<and> task_function t \<noteq> NULL \<and>
      task_waitable t = (batch_add ts w c bat p \<noteq> None)"
  proof (cases "p \<in> set ts")
    case True
    then have "bat p = None" using new unknown_batch[OF inv] by blast
    with new[OF True] keep True show ?thesis by (auto simp: batch_add_def)
  next
    case False
    assume "active (phase_add ts ph p)"
    with False inv obtain t where "heap m p = Some (Task t)" "task_function t \<noteq> NULL"
      "task_waitable t = (bat p \<noteq> None)" unfolding task_inv_def phase_add_def by auto
    with False keep show ?thesis by (auto simp: batch_add_def)
  qed
next
  fix p x
  assume p: "batch_add ts w c bat p = Some x"
  then show "phase_add ts ph p \<noteq> Unknown"
    using inv by (auto simp: batch_add_def phase_add_def task_inv_def split: if_splits)
  show "\<exists>t. heap m' p = Some (Task t) \<and> task_waitable t \<and> (p \<notin> set ts \<longrightarrow> task_private_data t = x)"
  proof (cases "p \<in> set ts \<and> w")
    case True
    with new[of p] keep show ?thesis by auto
  next
    case False
    with p have b: "bat p = Some x" unfolding batch_add_def by (auto split: if_splits)
    then obtain t where "heap m p = Some (Task t)" "task_waitable t" "task_private_data t = x"
      using inv unfolding task_inv_def by force
    with keep show ?thesis by auto
  qed
qed

lemma outstanding_new:
  assumes inv: "task_inv m ph bat []" and new: "\<And>p. p \<in> set ts \<Longrightarrow> ph p = Unknown"
  shows "outstanding (phase_add ts ph) (batch_add ts w c bat) x =
     (if w \<and> x = c then set ts \<union> outstanding ph bat c else outstanding ph bat x)"
proof -
  have "bat p = None" if "p \<in> set ts" for p using new[OF that] unknown_batch[OF inv] by blast
  then show ?thesis
    by (auto simp: outstanding_def phase_add_def batch_add_def split: if_splits)
qed

lemma ran_batch_add:
  assumes "\<And>p. p \<in> set ts \<Longrightarrow> bat p = None"
  shows "x \<in> ran (batch_add ts w c bat) \<longleftrightarrow> w \<and> ts \<noteq> [] \<and> x = c \<or> x \<in> ran bat"
proof
  assume "x \<in> ran (batch_add ts w c bat)"
  then obtain p where "batch_add ts w c bat p = Some x" by (auto simp: ran_def)
  then show "w \<and> ts \<noteq> [] \<and> x = c \<or> x \<in> ran bat"
    by (auto simp: batch_add_def ran_def split: if_splits)
next
  assume "w \<and> ts \<noteq> [] \<and> x = c \<or> x \<in> ran bat"
  then consider "w" "hd ts \<in> set ts" "x = c" | p where "bat p = Some x" by (auto simp: ran_def)
  then show "x \<in> ran (batch_add ts w c bat)"
  proof cases
    case 1
    then have "batch_add ts w c bat (hd ts) = Some x" by (simp add: batch_add_def)
    then show ?thesis by (rule ranI)
  next
    case 2
    then have "batch_add ts w c bat p = Some x" using assms[of p] by (auto simp: batch_add_def)
    then show ?thesis by (rule ranI)
  qed
qed

text \<open>A new event counter for the tasks \<open>ts\<close>.\<close>

lemma counter_added_old:
  assumes add: "counter_added kd m m' c v" and inv: "batch_inv kd m ph bat" and x: "x \<in> ran bat"
  shows "x \<noteq> c" "counter_at kd m' x y \<longleftrightarrow> counter_at kd m x y"
proof -
  obtain z where z: "counter_at kd m x z" using inv x by (rule batch_counter)
  then have live: "heap m x \<noteq> None" "heap m (vw_lock z) \<noteq> None"
    using counter_at_blocks[OF z] by (metis counter_block_simps(4))+
  then show "x \<noteq> c" using add by (auto simp: counter_added_def)
  have "counter_at kd m' x z"
    using add live by (intro counter_at_frame[OF z]) (metis counter_added_def)+
  with z show "counter_at kd m' x y \<longleftrightarrow> counter_at kd m x y" using counter_at_unique by metis
qed

lemma batch_add_inv:
  assumes inv: "batch_inv kd m ph bat" and ti: "task_inv m ph bat []" and add: "counter_added kd m m' c v"
    and new: "\<And>p. p \<in> set ts \<Longrightarrow> ph p = Unknown"
    and ts: "distinct ts" "ts \<noteq> []" "unat (vw_count v) = length ts"
    and fresh: "\<And>x y. counter_at kd m x y \<Longrightarrow> vw_chan y \<noteq> vw_chan v"
  shows "batch_inv kd m' (phase_add ts ph) (batch_add ts True c bat)"
proof -
  note none = unknown_batch[OF ti new]
  have ran: "x \<in> ran (batch_add ts True c bat) \<longleftrightarrow> x = c \<or> x \<in> ran bat" for x
    using ran_batch_add[of ts bat x True c] none ts(2) by simp
  have out: "outstanding (phase_add ts ph) (batch_add ts True c bat) x =
      (if x = c then set ts \<union> outstanding ph bat c else outstanding ph bat x)" for x
    using outstanding_new[where ts = ts and w = True and c = c and x = x, OF ti] new by simp
  have old: "x \<noteq> c" "counter_at kd m' x y \<longleftrightarrow> counter_at kd m x y" if "x \<in> ran bat" for x y
    using counter_added_old[OF add inv that] by simp_all
  have "outstanding ph bat c = {}" using old(1)[of c] by (auto simp: outstanding_def ran_def)
  then have card: "card (outstanding (phase_add ts ph) (batch_add ts True c bat) c) = length ts"
    using ts(1) by (simp add: out distinct_card)
  have atc: "counter_at kd m' c y \<longleftrightarrow> y = v" for y
    using add counter_at_unique unfolding counter_added_def by metis
  have apart: "vw_chan y \<noteq> vw_chan v" "vw_lock y \<noteq> vw_lock v" if "counter_at kd m x y" for x y
    using fresh[OF that] counter_at_blocks[OF that] add by (auto simp: counter_added_def)
  have "dom (batch_add ts True c bat) \<subseteq> set ts \<union> dom bat"
    by (auto simp: batch_add_def split: if_splits)
  then have fin: "finite (dom (batch_add ts True c bat))"
    using inv by (auto simp: batch_inv_def intro: finite_subset)
  show ?thesis
    unfolding batch_inv_def
  proof (intro conjI ballI allI impI fin)
    fix x
    assume "x \<in> ran (batch_add ts True c bat)"
    then consider "x = c" | "x \<in> ran bat" unfolding ran by blast
    then show "\<exists>y. counter_at kd m' x y \<and> unat (vw_count y) =
        card (outstanding (phase_add ts ph) (batch_add ts True c bat) x)"
    proof cases
      case 1
      then show ?thesis using card ts(3) by (simp add: atc)
    next
      case 2
      obtain y where "counter_at kd m x y" "unat (vw_count y) = card (outstanding ph bat x)"
        using inv 2 by (rule batch_counter)
      then show ?thesis using old[OF 2] by (auto simp: out)
    qed
  next
    fix x x' y y'
    assume "x \<in> ran (batch_add ts True c bat)" "x' \<in> ran (batch_add ts True c bat)"
      "counter_at kd m' x y" "counter_at kd m' x' y'" "x \<noteq> x'"
    then consider "x = c" "y = v" "x' \<in> ran bat" "counter_at kd m x' y'"
      | "x' = c" "y' = v" "x \<in> ran bat" "counter_at kd m x y"
      | "x \<in> ran bat" "x' \<in> ran bat" "counter_at kd m x y" "counter_at kd m x' y'" "x \<noteq> x'"
      unfolding ran using old atc by metis
    then have "vw_chan y \<noteq> vw_chan y' \<and> vw_lock y \<noteq> vw_lock y'"
    proof cases
      case 1
      then show ?thesis using apart[of x' y'] by auto
    next
      case 2
      then show ?thesis using apart[of x y] by auto
    next
      case 3
      then show ?thesis using inv unfolding batch_inv_def by blast
    qed
    then show "vw_chan y \<noteq> vw_chan y'" "vw_lock y \<noteq> vw_lock y'" by blast+
  qed
qed

lemma note_add_inv:
  assumes inv: "note_inv kd tokens m nt ph bat pcs None" and bi: "batch_inv kd m ph bat"
    and ti: "task_inv m ph bat []" and add: "counter_added kd m m' c v"
    and new: "\<And>p. p \<in> set ts \<Longrightarrow> ph p = Unknown" and ts: "ts \<noteq> []" and zero: "tokens nt (vw_chan v) = 0"
  shows "note_inv kd tokens m' nt (phase_add ts ph) (batch_add ts True c bat) pcs None"
proof -
  let ?bat = "batch_add ts True c bat" and ?ph = "phase_add ts ph"
  note none = unknown_batch[OF ti new]
  have ran: "x \<in> ran ?bat \<longleftrightarrow> x = c \<or> x \<in> ran bat" for x
    using ran_batch_add[of ts bat x True c] none ts by simp
  have out: "outstanding ?ph ?bat x =
      (if x = c then set ts \<union> outstanding ph bat c else outstanding ph bat x)" for x
    using outstanding_new[where ts = ts and w = True and c = c and x = x, OF ti] new by simp
  have old: "x \<noteq> c" "counter_at kd m' x y \<longleftrightarrow> counter_at kd m x y" if "x \<in> ran bat" for x y
    using counter_added_old[OF add bi that] by simp_all
  show ?thesis
    unfolding note_inv_def
  proof (intro conjI ballI allI impI)
    fix x y
    assume x: "x \<in> ran ?bat" and y: "counter_at kd m' x y"
    from x consider "x = c" | "x \<in> ran bat" unfolding ran by blast
    then show "tokens nt (vw_chan y) = (if outstanding ?ph ?bat x = {} \<and>
        (\<forall>i. pcs i \<noteq> K_Notify x) \<and> None \<noteq> Some x then 1 else 0)"
    proof cases
      case 1
      then have "y = v" using y add counter_at_unique unfolding counter_added_def by metis
      then show ?thesis using 1 zero ts by (simp add: out)
    next
      case 2
      then show ?thesis using y inv old[OF 2] by (simp add: note_inv_def out)
    qed
  next
    fix i x
    assume "pcs i = K_Notify x"
    then have x: "x \<in> ran bat" "outstanding ph bat x = {}" "\<forall>j. pcs j = K_Notify x \<longrightarrow> j = i"
      using inv unfolding note_inv_def by blast+
    then show "x \<in> ran ?bat" "outstanding ?ph ?bat x = {}" using old(1)[OF x(1)] by (auto simp: ran out)
    show "None \<noteq> Some x" by simp
    show "j = i" if "pcs j = K_Notify x" for j using x(3) that by blast
  qed simp_all
qed

text \<open>
  The store \<open>m1\<close> in which tasks are added: with a new event counter if they are waitable. Their
  pointers to it may be set already (\<open>m'\<close>).
\<close>

definition store_added :: "counter_kind \<Rightarrow> bool \<Rightarrow> mem \<Rightarrow> mem \<Rightarrow> ptr \<Rightarrow> counter_view \<Rightarrow> bool" where
  "store_added kd w m m1 c v \<longleftrightarrow> (if w then counter_added kd m m1 c v else m1 = m)"

lemma store_added_keeps: "store_added kd w m m1 c v \<Longrightarrow> heap m p = Some ob \<Longrightarrow> heap m1 p = Some ob"
  by (auto simp: store_added_def counter_added_keeps split: if_splits)

lemma store_added_ok: "store_added kd w m m1 c v \<Longrightarrow> mem_ok m \<Longrightarrow> mem_ok m1"
  by (auto simp: store_added_def counter_added_def split: if_splits)

lemma store_added_differs: "store_added kd w m m1 c v \<Longrightarrow> differs transient m m1"
  by (auto simp: store_added_def differs_refl counter_added_differs split: if_splits)

context dispatch_platform
begin

lemma add_inv:
  assumes inv: "disp_inv kd tokens env k n s" and pc: "ds_client s = C_Idle"
    and ts: "distinct ts" "w \<longrightarrow> ts \<noteq> []" "w \<longrightarrow> unat (vw_count v) = length ts \<and> vw_chan v = h"
    and new: "\<forall>p \<in> set ts. new_task s w p" and fresh: "fresh_channel tokens h s"
    and add: "store_added kd w (ds_mem s) m1 c v"
    and d: "differs task_obj m1 m'" and ok': "mem_ok m'"
    and ti': "task_inv m' (phase_add ts (ds_phase s)) (batch_add ts w c (ds_batch s)) (unset cl ts)"
    and cl: "freeing cl = None" "client_pc_inv m' (batch_add ts w c (ds_batch s)) ts cl"
  shows "disp_inv kd tokens env k n (add_tasks ts w c (s\<lparr>ds_mem := m', ds_client := cl\<rparr>))"
  using inv
proof (rule disp_invE)
  let ?m = "ds_mem s"
  let ?ph = "phase_add ts (ds_phase s)" and ?bat = "batch_add ts w c (ds_batch s)"
  assume env: "env ?m (ds_note s)"
    and l: "link_inv (ds_phase s) (ds_todo s) (ds_queue s) (ds_worker s)"
    and ti: "task_inv ?m (ds_phase s) (ds_batch s) (unset (ds_client s) (ds_todo s))"
    and bi: "batch_inv kd ?m (ds_phase s) (ds_batch s)"
    and ni: "note_inv kd tokens ?m (ds_note s) (ds_phase s) (ds_batch s) (ds_worker s)
       (freeing (ds_client s))"
    and pi: "pc_inv (ds_batch s) (ds_worker s)"
    and hi: "hist_inv (ds_phase s) (ds_worker s) (ds_sent s) (ds_done s)"
    and ci: "client_pc_inv ?m (ds_batch s) (ds_todo s) (ds_client s)"
    and idle: "\<forall>j \<ge> k. ds_worker s j = K_Receive" and q: "length (ds_queue s) \<le> n"
  have ok: "mem_ok ?m" using env env_ok by blast
  have todo: "ds_todo s = []" using ci pc by simp
  note ti = ti[unfolded pc todo, simplified] and ni = ni[unfolded pc, simplified]
  have unknown: "ds_phase s p = Unknown" if "p \<in> set ts" for p
    using new that by (simp add: new_task_def)
  have at: "counter_at kd m' x y \<longleftrightarrow> counter_at kd m1 x y" for x y
    using d by (rule differs_counter) (auto simp: counter_block_def)
  have "env m1 (ds_note s)"
    using env store_added_ok[OF add ok] store_added_differs[OF add] by (rule env_store)
  then have "env m' (ds_note s)" using ok' d by (rule env_frame) auto
  moreover have "link_inv ?ph ts (ds_queue s) (ds_worker s)"
    unfolding phase_add_def using l[unfolded todo] ts(1) unknown by (rule link_add)
  moreover have "hist_inv ?ph (ds_worker s) (ds_sent s) (ds_done s)"
    unfolding phase_add_def using hi unknown by (rule hist_add)
  moreover have "batch_inv kd m' ?ph ?bat \<and> note_inv kd tokens m' (ds_note s) ?ph ?bat (ds_worker s) None"
  proof (cases w)
    case True
    then have v: "counter_added kd ?m m1 c v" "vw_chan v = h" "unat (vw_count v) = length ts" "ts \<noteq> []"
      using add ts(2,3) by (simp_all add: store_added_def)
    have z: "tokens (ds_note s) (vw_chan v) = 0"
      "\<And>x y. counter_at kd ?m x y \<Longrightarrow> vw_chan y \<noteq> vw_chan v"
      using fresh v(2) by (auto simp: fresh_channel_def counter_at_def split: counter_kind.splits)
    have "batch_inv kd m1 ?ph ?bat"
      using batch_add_inv[OF bi ti v(1) unknown ts(1) v(4,3) z(2)] True by simp
    moreover from this have "batch_inv kd m' ?ph ?bat" by (rule batch_frame) (auto simp: at)
    moreover have "note_inv kd tokens m1 (ds_note s) ?ph ?bat (ds_worker s) None"
      using note_add_inv[OF ni bi ti v(1) unknown v(4) z(1)] True by simp
    then have "note_inv kd tokens m' (ds_note s) ?ph ?bat (ds_worker s) None" by (simp add: note_inv_def at)
    ultimately show ?thesis by blast
  next
    case False
    have bat: "?bat = ds_batch s" using False by (simp add: batch_add_def)
    have out: "outstanding ?ph ?bat x = outstanding (ds_phase s) (ds_batch s) x" for x
      using outstanding_new[OF ti, of ts w c x] unknown False by simp
    have at: "counter_at kd m' x y \<longleftrightarrow> counter_at kd ?m x y" for x y
      using at add False by (simp add: store_added_def)
    have "batch_inv kd m' ?ph ?bat" using bi by (rule batch_frame) (auto simp: at out[unfolded bat] bat)
    moreover have "note_inv kd tokens m' (ds_note s) ?ph ?bat (ds_worker s) None"
      using ni unfolding note_inv_def at bat out[unfolded bat] .
    ultimately show ?thesis ..
  qed
  moreover have "pc_inv ?bat (ds_worker s)"
    unfolding pc_inv_def
  proof (intro conjI allI impI)
    fix i p x
    assume w: "ds_worker s i = K_Signal p x"
    then have "ds_phase s p = Taken i" using link_phase(3)[OF l, of i p] by simp
    then have "p \<notin> set ts" using unknown by auto
    with w pi show "?bat p = Some x" by (simp add: pc_inv_def batch_add_def)
  qed (use pi in \<open>simp add: pc_inv_def\<close>)
  ultimately show ?thesis
    using q ti' cl idle
    by (simp add: disp_inv_def add_tasks_def phase_add_def batch_add_def cong: if_cong)
qed

lemma new_tasks_inv:
  assumes inv: "disp_inv kd tokens env k n s" and pc: "ds_client s = C_Idle"
    and new: "\<forall>p \<in> set ts. new_task s w p" and add: "store_added kd w (ds_mem s) m1 c v"
  shows "task_inv m1 (phase_add ts (ds_phase s))
     (batch_add ts w c (ds_batch s)) ts"
proof -
  have "task_inv (ds_mem s) (ds_phase s) (ds_batch s) (unset (ds_client s) (ds_todo s))"
    "client_pc_inv (ds_mem s) (ds_batch s) (ds_todo s) (ds_client s)"
    using inv by (simp_all add: disp_inv_def)
  then have "task_inv (ds_mem s) (ds_phase s) (ds_batch s) []"
    using pc by simp
  then show ?thesis
    using new store_added_keeps[OF add] by (intro task_add_inv[of "ds_mem s"]) (auto simp: new_task_def)
qed

lemma task_add_step_inv:
  assumes inv: "disp_inv kd tokens env k n s" and pc: "ds_client s = C_Idle"
    and new: "new_task s w task" and fresh: "fresh_channel tokens h s"
    and step: "client_try s (bindE (task_add_prepare (pf_create F) h ctx task (ds_mem s)) (\<lambda>m.
                  bindE (load_task task m) (\<lambda>t. Inr (m, task_private_data t))))
      (\<lambda>(m, counter). Some (add_tasks [task] w counter
         (s\<lparr>ds_mem := m, ds_client := C_Send task C_Idle\<rparr>))) = Some s'"
  shows "disp_inv kd tokens env k n s'"
proof -
  let ?m = "ds_mem s"
  have env: "env ?m (ds_note s)" using inv by (rule disp_invE)
  then have ok: "mem_ok ?m" and ctx: "ctx \<noteq> NULL" using env_ok by blast+
  from new obtain t where t: "heap ?m task = Some (Task t)" "task_waitable t = w"
    by (auto simp: new_task_def)
  have oom: "\<not> oom ?m (brk ?m)" "\<not> oom ?m (Suc (brk ?m))" using fresh by (auto simp: fresh_channel_def)
  obtain c m1 v where m1: "w \<longrightarrow> pf_create F h 1 ?m = Inr (c, m1) \<and> vw_count v = 1 \<and> vw_chan v = h"
    "\<not> w \<longrightarrow> c = task_private_data t" "store_added kd w ?m m1 c v"
    using create_law[OF ok oom, of h 1] by (cases w) (auto simp: store_added_def counter_added_def)
  have live: "task \<noteq> NULL" "heap m1 task = Some (Task t)"
    using mem_ok_live[OF ok t(1)] store_added_keeps[OF m1(3) t(1)] by auto
  let ?m' = "m1\<lparr>heap := (heap m1)(task \<mapsto> Task (t\<lparr>task_private_data := c\<rparr>))\<rparr>"
  have prep: "task_add_prepare (pf_create F) h ctx task ?m = Inr ?m'"
    using ctx live t m1
    by (cases w) (auto simp: task_add_prepare_def load_task_def load_def store_def store_added_def fun_upd_idem)
  have s': "s' = add_tasks [task] w c (s\<lparr>ds_mem := ?m', ds_client := C_Send task C_Idle\<rparr>)"
    using step live(1) by (simp add: prep client_try_def load_task_def load_def)
  have d: "differs task_obj m1 ?m'" using live(2) by (simp add: differs_def)
  have "task_inv m1 (phase_add [task] (ds_phase s)) (batch_add [task] w c (ds_batch s)) [task]"
    using inv pc _ m1(3) by (rule new_tasks_inv) (simp add: new)
  then have "task_inv ?m' (phase_add [task] (ds_phase s)) (batch_add [task] w c (ds_batch s)) []"
    using live(2)
  proof (rule task_set_counter)
    have "task_inv ?m (ds_phase s) (ds_batch s) (unset (ds_client s) (ds_todo s))"
      using inv by (rule disp_invE)
    then have "ds_batch s task = None" using new unknown_batch by (auto simp: new_task_def)
    then show "batch_add [task] w c (ds_batch s) task = None \<or>
        batch_add [task] w c (ds_batch s) task = Some c"
      by (simp add: batch_add_def)
  qed
  moreover have "mem_ok ?m'" using store_added_ok[OF m1(3) ok] live(2) by (rule mem_ok_upd)
  ultimately show ?thesis
    unfolding s' using new fresh d m1 by (intro add_inv[OF inv pc, where v = v and h = h]) auto
qed

lemma group_add_step_inv:
  assumes inv: "disp_inv kd tokens env k n s" and pc: "ds_client s = C_Idle"
    and grp: "group_rep (ds_mem s) grp l w ts" and ts: "distinct ts" "w \<longrightarrow> ts \<noteq> []"
    and new: "\<forall>p \<in> set ts. new_task s w p" and fresh: "fresh_channel tokens h s"
    and step: "client_try s (group_add_prepare (pf_create F) h ctx grp (ds_mem s))
      (\<lambda>(counter, m). Some (add_tasks ts w counter
         (s\<lparr>ds_mem := m, ds_client := C_Group grp 0 counter\<rparr>))) = Some s'"
  shows "disp_inv kd tokens env k n s'"
proof -
  let ?m = "ds_mem s"
  have env: "env ?m (ds_note s)" using inv by (rule disp_invE)
  then have ok: "mem_ok ?m" and ctx: "ctx \<noteq> NULL" using env_ok by blast+
  obtain g where g: "load_group grp ?m = Inr g" "unat (group_count g) = length ts"
    "group_waitable g = w" "grp \<noteq> NULL" using group_rep_count[OF grp] by blast
  have oom: "\<not> oom ?m (brk ?m)" "\<not> oom ?m (Suc (brk ?m))" using fresh by (auto simp: fresh_channel_def)
  obtain c m1 v where m1: "w \<longrightarrow> pf_create F h (group_count g) ?m = Inr (c, m1) \<and> vw_count v = group_count g \<and>
      vw_chan v = h" "\<not> w \<longrightarrow> c = NULL" "store_added kd w ?m m1 c v"
    using create_law[OF ok oom, of h "group_count g"] by (cases w) (auto simp: store_added_def counter_added_def)
  have prep: "group_add_prepare (pf_create F) h ctx grp ?m = Inr (c, m1)"
    using ctx g m1 by (auto simp: group_add_prepare_def store_added_def)
  have s': "s' = add_tasks ts w c (s\<lparr>ds_mem := m1, ds_client := C_Group grp 0 c\<rparr>)"
    using step by (simp add: prep client_try_def)
  have ti: "task_inv m1 (phase_add ts (ds_phase s)) (batch_add ts w c (ds_batch s)) ts"
    using inv pc new m1(3) by (rule new_tasks_inv)
  have "ds_batch s q = None" if "q \<in> set ts" for q
  proof -
    have "task_inv ?m (ds_phase s) (ds_batch s) (unset (ds_client s) (ds_todo s))"
      using inv by (rule disp_invE)
    then show ?thesis using new that unknown_batch by (auto simp: new_task_def)
  qed
  moreover have "group_rep m1 grp l w ts"
    using grp by (rule group_rep_frame) (rule store_added_keeps[OF m1(3)])
  ultimately have "group_loop m1 (batch_add ts w c (ds_batch s)) grp 0 c ts"
    unfolding group_loop_def batch_add_def
    by (intro exI[of _ l] exI[of _ w] exI[of _ ts]) auto
  then show ?thesis
    unfolding s' using new fresh ts ti g(2) m1 store_added_ok[OF m1(3) ok]
    by (intro add_inv[OF inv pc, where v = v and h = h]) (auto simp: differs_refl)
qed

section \<open>Waiting\<close>

lemma batch_private_data:
  assumes inv: "disp_inv kd tokens env k n s" and pc: "ds_client s = C_Idle"
    and p: "ds_batch s p = Some c"
  shows "p \<noteq> NULL \<and> (\<exists>t. load_task p (ds_mem s) = Inr t \<and> task_waitable t \<and> task_private_data t = c)"
  using inv
proof (rule disp_invE)
  assume env: "env (ds_mem s) (ds_note s)"
    and ti: "task_inv (ds_mem s) (ds_phase s) (ds_batch s) (unset (ds_client s) (ds_todo s))"
    and ci: "client_pc_inv (ds_mem s) (ds_batch s) (ds_todo s) (ds_client s)"
  from ti ci pc p obtain t where t: "heap (ds_mem s) p = Some (Task t)" "task_waitable t"
    "task_private_data t = c" by (force simp: task_inv_def)
  moreover from this env have "p \<noteq> NULL" using mem_ok_live env_ok by blast
  ultimately show ?thesis by (simp add: load_task_def load_def)
qed

lemma await_call_inv:
  assumes inv: "disp_inv kd tokens env k n s" and pc: "ds_client s = C_Idle"
    and x: "target_inv (ds_mem s) (ds_batch s) x c"
  shows "disp_inv kd tokens env k n (s\<lparr>ds_client := C_Await x c\<rparr>)"
proof -
  have "client_pc_inv (ds_mem s) (ds_batch s) (ds_todo s) (ds_client s)" using inv by (rule disp_invE)
  with inv show ?thesis by (intro client_move_inv) (use x pc in auto)
qed

lemma task_wait_step_inv:
  assumes inv: "disp_inv kd tokens env k n s" and pc: "ds_client s = C_Idle"
    and task: "{p. ds_batch s p = Some c} = {task}"
    and step: "client_try s (task_wait_counter task (ds_mem s))
      (\<lambda>counter. Some (s\<lparr>ds_client := C_Await (For_Task task) counter\<rparr>)) = Some s'"
  shows "disp_inv kd tokens env k n s'"
proof -
  have "ds_batch s task = Some c" using task by blast
  then have "task_wait_counter task (ds_mem s) = Inr c"
    using batch_private_data[OF inv pc] by (fastforce simp: task_wait_counter_def)
  then have "s' = s\<lparr>ds_client := C_Await (For_Task task) c\<rparr>" using step by (simp add: client_try_def)
  then show ?thesis using await_call_inv[OF inv pc, of "For_Task task" c] task by simp
qed

lemma group_wait_step_inv:
  assumes inv: "disp_inv kd tokens env k n s" and pc: "ds_client s = C_Idle"
    and grp: "group_rep (ds_mem s) grp l True ts" and ts: "ts \<noteq> []" "distinct ts"
    and bat: "{p. ds_batch s p = Some c} = set ts"
    and step: "client_try s (group_wait_counter grp (ds_mem s))
      (\<lambda>counter. Some (s\<lparr>ds_client := C_Await (For_Group grp) counter\<rparr>)) = Some s'"
  shows "disp_inv kd tokens env k n s'"
proof -
  have "0 < length ts" using ts(1) by simp
  then obtain g where g: "load_group grp (ds_mem s) = Inr g"
    "read_ptr (group_tasks g) 0 (ds_mem s) = Inr (ts ! 0)" using group_rep_nth[OF grp] by blast
  moreover have "group_waitable g" "grp \<noteq> NULL" using group_rep_count[OF grp] g(1) by auto
  moreover have "ds_batch s (ts ! 0) = Some c" using bat \<open>0 < length ts\<close> nth_mem by blast
  ultimately have "group_wait_counter grp (ds_mem s) = Inr c"
    using batch_private_data[OF inv pc] by (fastforce simp: group_wait_counter_def)
  then have "s' = s\<lparr>ds_client := C_Await (For_Group grp) c\<rparr>" using step by (simp add: client_try_def)
  moreover have "target_inv (ds_mem s) (ds_batch s) (For_Group grp) c" using grp ts bat by auto
  ultimately show ?thesis using await_call_inv[OF inv pc] by simp
qed

text \<open>Creating a task.\<close>

lemma task_create_step_inv:
  assumes inv: "disp_inv kd tokens env k n s" and create: "dispatch_task_create f a w (ds_mem s) = Inr (p, m)"
  shows "disp_inv kd tokens env k n (s\<lparr>ds_mem := m\<rparr>)"
  using inv
proof (rule disp_invE)
  let ?P = "\<lambda>ob. ob = None \<or> task_obj ob" and ?m = "ds_mem s"
  assume env: "env ?m (ds_note s)"
    and ti: "task_inv ?m (ds_phase s) (ds_batch s) (unset (ds_client s) (ds_todo s))"
    and bi: "batch_inv kd ?m (ds_phase s) (ds_batch s)"
    and ni: "note_inv kd tokens ?m (ds_note s) (ds_phase s) (ds_batch s) (ds_worker s) (freeing (ds_client s))"
    and ci: "client_pc_inv ?m (ds_batch s) (ds_todo s) (ds_client s)"
  note m = task_create_new[OF create]
  have ok: "mem_ok ?m" using env env_ok by blast
  then have fresh: "heap ?m (Suc (brk ?m)) = None" by (simp add: mem_ok_def)
  have d: "differs ?P ?m m" using fresh by (simp add: differs_def m(3))
  have "mem_ok m" using ok by (simp add: mem_ok_def m(3))
  then have "env m (ds_note s)" by (rule env_frame[OF env _ d]) auto
  moreover have "task_inv m (ds_phase s) (ds_batch s) (unset (ds_client s) (ds_todo s))"
    using ti by (rule task_frame_same) (use fresh in \<open>auto simp: m(3)\<close>)
  moreover have at: "counter_at kd m c v \<longleftrightarrow> counter_at kd ?m c v" for c v
    using d by (rule differs_counter) (auto simp: counter_block_def)
  moreover have "batch_inv kd m (ds_phase s) (ds_batch s)" using bi unfolding batch_inv_def at .
  moreover have "note_inv kd tokens m (ds_note s) (ds_phase s) (ds_batch s) (ds_worker s) (freeing (ds_client s))"
    using ni unfolding note_inv_def at .
  moreover have "client_pc_inv m (ds_batch s) (ds_todo s) (ds_client s)"
    using ci d by (rule client_frame) auto
  ultimately show ?thesis using inv by (simp add: disp_inv_def)
qed

section \<open>The invariant of the system\<close>

lemma disp_init_inv:
  assumes "disp_init env s"
  shows "disp_inv kd tokens env k n s"
proof -
  have "ds_batch s = Map.empty" "ds_phase s = (\<lambda>p. Unknown)" "ds_worker s = (\<lambda>i. K_Receive)"
    using assms by (auto simp: disp_init_def)
  with assms show ?thesis
    by (simp add: disp_init_def disp_inv_def link_inv_def task_inv_def batch_inv_def note_inv_def
      pc_inv_def hist_inv_def)
qed

lemma disp_step_inv:
  assumes laws: laws and inv: "disp_inv kd tokens env k n s"
    and step: "disp_step F N tokens call ctx k n s s'"
  shows "disp_inv kd tokens env k n s'"
  using step
proof cases
  case (worker i)
  then show ?thesis using worker_step_inv[OF laws inv] by blast
next
  case client
  then show ?thesis using client_step_inv[OF laws inv] by blast
next
  case (task_add w task h)
  then show ?thesis using task_add_step_inv[OF inv] by blast
next
  case (group_add grp l w ts h)
  then show ?thesis using group_add_step_inv[OF inv] by blast
next
  case (task_wait c task)
  then show ?thesis using task_wait_step_inv[OF inv] by blast
next
  case (group_wait grp l ts c)
  then show ?thesis using group_wait_step_inv[OF inv] by blast
next
  case wait_all
  have "client_pc_inv (ds_mem s) (ds_batch s) (ds_todo s) (ds_client s)" using inv by (rule disp_invE)
  with inv show ?thesis unfolding wait_all(1) by (intro client_move_inv) (use wait_all in auto)
next
  case (task_create f a w task m)
  then show ?thesis using task_create_step_inv[OF inv] by blast
qed

end

section \<open>What the threads have left to do\<close>

text \<open>
  The steps that the threads take by themselves: a worker's step, or a step of the client inside
  a call other than the polling loop of \<open>dispatch_queue_wait\<close>. Each of them takes something off
  \<open>work_left\<close>.
\<close>

definition own_step :: "'n platform \<Rightarrow> 'n note_ops \<Rightarrow> (fptr \<Rightarrow> ptr \<Rightarrow> 'u \<Rightarrow> 'u) \<Rightarrow> nat \<Rightarrow> nat \<Rightarrow>
    ('n, 'u) disp_sys \<Rightarrow> ('n, 'u) disp_sys \<Rightarrow> bool" where
  "own_step F N call k n s s' \<longleftrightarrow>
     (\<exists>i < k. worker_step F N call n i s = Some s') \<or>
     \<not> polling (ds_client s) \<and> client_step F n s = Some s'"

fun worker_left :: "worker_pc \<Rightarrow> nat" where
  "worker_left (K_Claim p) = 6"
| "worker_left (K_Perform p) = 5"
| "worker_left (K_Finish p) = 4"
| "worker_left (K_Signal p c) = 3"
| "worker_left (K_Notify c) = 2"
| "worker_left K_Ready = 1"
| "worker_left c = 0"

fun client_left :: "client_pc \<Rightarrow> nat" where
  "client_left (C_Group g i c) = 2"
| "client_left (C_Send p k) = 1"
| "client_left (C_Await x c) = 2"
| "client_left (C_Free x c) = 1"
| "client_left c = 0"

definition work_left :: "nat \<Rightarrow> ('n, 'u) disp_sys \<Rightarrow> nat" where
  "work_left k s = (\<Sum>i < k. worker_left (ds_worker s i)) + 7 * length (ds_queue s) +
     10 * length (ds_todo s) + client_left (ds_client s)"

lemma sum_upd_less:
  fixes f :: "'a \<Rightarrow> nat" and i k :: nat
  assumes "i < k"
  shows "(\<Sum>j < k. f ((pcs(i := c)) j)) + f (pcs i) = (\<Sum>j < k. f (pcs j)) + f c"
proof -
  have rest: "(\<Sum>j \<in> {..<k} - {i}. f ((pcs(i := c)) j)) = (\<Sum>j \<in> {..<k} - {i}. f (pcs j))"
    by (rule sum.cong) auto
  have split: "(\<Sum>j < k. g j) = g i + (\<Sum>j \<in> {..<k} - {i}. g j)" for g :: "nat \<Rightarrow> nat"
    using assms by (intro sum.remove) auto
  show ?thesis unfolding split[of "\<lambda>j. f ((pcs(i := c)) j)"] split[of "\<lambda>j. f (pcs j)"] rest by simp
qed

lemma worker_step_left:
  assumes i: "i < k" and step: "worker_step F N call n i s = Some s'"
    and ok: "\<And>e. ds_worker s' i \<noteq> K_Fault e"
  shows "work_left k s' < work_left k s" and "ds_client s' = ds_client s"
proof -
  obtain c where c: "ds_worker s' = (ds_worker s)(i := c)" "ds_client s' = ds_client s"
      "ds_todo s' = ds_todo s"
      "worker_left c + 7 * length (ds_queue s') < worker_left (ds_worker s i) + 7 * length (ds_queue s)"
    using step ok
    by (cases "ds_worker s i")
      (auto simp: worker_step_def to_worker_def worker_try_def result_simps
        split: list.splits sum.splits if_splits)
  show "ds_client s' = ds_client s" by (rule c)
  show "work_left k s' < work_left k s"
    using c sum_upd_less[OF i, of worker_left "ds_worker s" c] by (simp add: work_left_def)
qed

lemma client_step_left:
  assumes ci: "client_pc_inv (ds_mem s) (ds_batch s) (ds_todo s) (ds_client s)"
    and np: "\<not> polling (ds_client s)" and step: "client_step F n s = Some s'"
    and ok: "\<And>e. ds_client s' \<noteq> C_Fault e"
  shows "work_left k s' < work_left k s" and "\<not> polling (ds_client s')"
proof -
  have "ds_worker s' = ds_worker s \<and> \<not> polling (ds_client s') \<and>
     7 * length (ds_queue s') + 10 * length (ds_todo s') + client_left (ds_client s') <
     7 * length (ds_queue s) + 10 * length (ds_todo s) + client_left (ds_client s)"
    using ci np step ok
    by (cases "ds_client s")
      (auto simp: client_step_def client_try_def polling_def
        split: list.splits sum.splits if_splits option.splits client_pc.splits)
  then show "work_left k s' < work_left k s" "\<not> polling (ds_client s')" by (auto simp: work_left_def)
qed

context dispatch_platform
begin

text \<open>Where the threads stop.\<close>

lemma worker_stuck:
  assumes "disp_inv kd tokens env k n s" and "worker_step F N call n i s = None"
  shows "ds_worker s i = K_Receive \<and> ds_queue s = []"
proof -
  have "pc_inv (ds_batch s) (ds_worker s)" using assms(1) by (rule disp_invE)
  then show ?thesis
    using assms(2)
    by (cases "ds_worker s i") (auto simp: worker_step_def worker_try_def pc_inv_def split: list.splits)
qed

lemma client_stuck:
  assumes inv: "disp_inv kd tokens env k n s" and np: "\<not> polling (ds_client s)"
    and stuck: "client_step F n s = None"
  shows "ds_client s = C_Idle \<or> (\<exists>p c. ds_client s = C_Send p c \<and> n \<le> length (ds_queue s)) \<or>
     (\<exists>x c v. ds_client s = C_Await x c \<and> counter_at kd (ds_mem s) c v \<and>
        await N (ds_note s) (vw_chan v) = None)"
proof (cases "\<exists>x c. ds_client s = C_Await x c")
  case True
  then obtain x c where c: "ds_client s = C_Await x c" by blast
  have env: "env (ds_mem s) (ds_note s)" and bi: "batch_inv kd (ds_mem s) (ds_phase s) (ds_batch s)"
    and ci: "client_pc_inv (ds_mem s) (ds_batch s) (ds_todo s) (ds_client s)"
    using inv by (auto elim: disp_invE)
  from ci c have "c \<in> ran (ds_batch s)" using target_ran by auto
  then obtain v where v: "counter_at kd (ds_mem s) c v" using batch_counter[OF bi] by blast
  then have "pf_wait F c (ds_mem s) (ds_note s) = Inr (await N (ds_note s) (vw_chan v))"
    using env env_ok wait_law by blast
  then have "await N (ds_note s) (vw_chan v) = None"
    using stuck c by (simp add: client_step_def client_try_def split: option.splits)
  with c v show ?thesis by blast
next
  case False
  have "client_pc_inv (ds_mem s) (ds_batch s) (ds_todo s) (ds_client s)" using inv by (rule disp_invE)
  then show ?thesis
    using stuck np False
    by (cases "ds_client s")
      (auto simp: client_step_def client_try_def polling_def split: if_splits sum.splits option.splits)
qed

lemma stuck_idle:
  assumes laws: laws and inv: "disp_inv kd tokens env k n s" and np: "\<not> polling (ds_client s)" and pos: "0 < k" "0 < n"
    and workers: "\<forall>i < k. worker_step F N call n i s = None" and client: "client_step F n s = None"
  shows "ds_client s = C_Idle \<and> ds_queue s = [] \<and> (\<forall>i. ds_worker s i = K_Receive) \<and>
     set (ds_sent s) = set (ds_done s)"
  using inv
proof (rule disp_invE)
  let ?ph = "ds_phase s"
  assume l: "link_inv ?ph (ds_todo s) (ds_queue s) (ds_worker s)"
    and ti: "task_inv (ds_mem s) ?ph (ds_batch s) (unset (ds_client s) (ds_todo s))"
    and bi: "batch_inv kd (ds_mem s) ?ph (ds_batch s)"
    and ni: "note_inv kd tokens (ds_mem s) (ds_note s) ?ph (ds_batch s) (ds_worker s) (freeing (ds_client s))"
    and hi: "hist_inv ?ph (ds_worker s) (ds_sent s) (ds_done s)"
    and ci: "client_pc_inv (ds_mem s) (ds_batch s) (ds_todo s) (ds_client s)"
    and idle: "\<forall>j \<ge> k. ds_worker s j = K_Receive"
  have xs: "ds_queue s = []" using worker_stuck[OF inv] workers pos(1) by blast
  have pcs: "ds_worker s i = K_Receive" for i
    using worker_stuck[OF inv] workers idle by (cases "i < k") auto
  have ph: "?ph p = Unknown \<or> ?ph p = Todo \<or> ?ph p = Finished" for p
    using link_phase(2)[OF l, of p] link_phase(3)[OF l, of _ p] xs pcs by (cases "?ph p") auto
  have "ds_client s = C_Idle"
  proof (rule ccontr)
    assume "ds_client s \<noteq> C_Idle"
    with client_stuck[OF inv np client] xs pos(2) obtain x c v where c: "ds_client s = C_Await x c"
      "counter_at kd (ds_mem s) c v" "await N (ds_note s) (vw_chan v) = None" by auto
    have ran: "c \<in> ran (ds_batch s)" and todo: "ds_todo s = []" using ci c(1) target_ran by auto
    have "tokens (ds_note s) (vw_chan v) = 0" using laws_note[OF laws] c(3) by (simp add: note_laws_def)
    then have "outstanding ?ph (ds_batch s) c \<noteq> {}"
      using ni ran c(2) pcs c(1) unfolding note_inv_def by fastforce
    then obtain p where "ds_batch s p = Some c" "?ph p \<noteq> Finished" by (auto simp: outstanding_def)
    then show False using ti ph[of p] link_phase(1)[OF l, of p] todo by (auto simp: task_inv_def)
  qed
  moreover have "p \<in> set (ds_sent s) \<longleftrightarrow> p \<in> set (ds_done s)" for p
    using hi ph[of p] by (auto simp: hist_inv_def)
  ultimately show ?thesis using xs pcs by auto
qed

end

section \<open>Reachable states\<close>

text \<open>The states that a system with \<open>k\<close> workers and a queue of length \<open>n\<close> can get to.\<close>

definition disp_reach :: "'n platform \<Rightarrow> 'n note_ops \<Rightarrow> ('n \<Rightarrow> nat \<Rightarrow> nat) \<Rightarrow> (mem \<Rightarrow> 'n \<Rightarrow> bool) \<Rightarrow>
    (fptr \<Rightarrow> ptr \<Rightarrow> 'u \<Rightarrow> 'u) \<Rightarrow> ptr \<Rightarrow> nat \<Rightarrow> nat \<Rightarrow> ('n, 'u) disp_sys \<Rightarrow> bool" where
  "disp_reach F N tokens env call ctx k n = reach (disp_init env) (disp_step F N tokens call ctx k n)"

lemma disp_reach_step:
  "disp_reach F N tokens env call ctx k n s \<Longrightarrow> disp_step F N tokens call ctx k n s s' \<Longrightarrow>
   disp_reach F N tokens env call ctx k n s'"
  unfolding disp_reach_def by (rule reach_step)

lemma own_step_reach:
  assumes "disp_reach F N tokens env call ctx k n s" and "own_step F N call k n s s'"
  shows "disp_reach F N tokens env call ctx k n s'"
  using assms(1)
  by (rule disp_reach_step) (use assms(2) in \<open>auto simp: own_step_def intro: disp_step.worker disp_step.client\<close>)

context dispatch_platform
begin

sublocale run: invariant_system "disp_init env" "disp_step F N tokens call ctx k n"
  "\<lambda>s. laws \<longrightarrow> disp_inv kd tokens env k n s" for call n
  by unfold_locales (auto intro: disp_init_inv disp_step_inv)

lemma disp_reach_inv:
  "disp_reach F N tokens env call ctx k n s \<Longrightarrow> laws \<Longrightarrow> disp_inv kd tokens env k n s"
  unfolding disp_reach_def by (drule run.reach_inv) simp

lemma own_step_left:
  assumes r: "disp_reach F N tokens env call ctx k n s" and laws: laws
    and step: "own_step F N call k n s s'"
  shows "work_left k s' < work_left k s" and "\<not> polling (ds_client s) \<Longrightarrow> \<not> polling (ds_client s')"
proof -
  have inv: "disp_inv kd tokens env k n s" "disp_inv kd tokens env k n s'"
    using disp_reach_inv[OF _ laws] r own_step_reach[OF r step] by blast+
  have ci: "client_pc_inv (ds_mem s) (ds_batch s) (ds_todo s) (ds_client s)" using inv(1) by (rule disp_invE)
  have pi: "ds_worker s' i \<noteq> K_Fault e" "ds_client s' \<noteq> C_Fault e" for i e
    using inv(2) by (auto simp: disp_inv_def pc_inv_def)
  have "work_left k s' < work_left k s \<and> (polling (ds_client s') \<longrightarrow> polling (ds_client s))"
    using step unfolding own_step_def
  proof (elim disjE exE conjE)
    fix i
    assume "i < k" "worker_step F N call n i s = Some s'"
    then show ?thesis using worker_step_left[of i k F N call n s] pi(1) by metis
  next
    assume "\<not> polling (ds_client s)" "client_step F n s = Some s'"
    then show ?thesis using client_step_left[OF ci] pi(2) by blast
  qed
  then show "work_left k s' < work_left k s"
    "\<not> polling (ds_client s) \<Longrightarrow> \<not> polling (ds_client s')" by blast+
qed

lemma own_run_left:
  assumes "disp_reach F N tokens env call ctx k n s" and laws: laws
    and "(own_step F N call k n ^^ j) s s'"
  shows "j + work_left k s' \<le> work_left k s"
  using assms(3,1)
proof (induction j arbitrary: s)
  case (Suc j)
  from Suc.prems(1) obtain t where t: "own_step F N call k n s t"
    "(own_step F N call k n ^^ j) t s'" by (meson relpowp_Suc_E2)
  then show ?case
    using Suc.IH[OF t(2) own_step_reach[OF Suc.prems(2) t(1)]]
      own_step_left(1)[OF Suc.prems(2) laws t(1)] by simp
qed simp

lemma own_run_idle:
  assumes "disp_reach F N tokens env call ctx k n s" and laws: laws and pos: "0 < k" "0 < n"
    and "\<not> polling (ds_client s)"
  shows "\<exists>s'. (own_step F N call k n)\<^sup>*\<^sup>* s s' \<and> ds_client s' = C_Idle \<and> ds_queue s' = [] \<and>
     (\<forall>i. ds_worker s' i = K_Receive) \<and> set (ds_sent s') = set (ds_done s')"
  using assms(1,5)
proof (induction "work_left k s" arbitrary: s rule: less_induct)
  case less
  show ?case
  proof (cases "\<exists>t. own_step F N call k n s t")
    case True
    then obtain t where t: "own_step F N call k n s t" by blast
    note t' = own_step_left[OF less.prems(1) laws t] own_step_reach[OF less.prems(1) t]
    from less.hyps[OF t'(1,3) t'(2)[OF less.prems(2)]] t show ?thesis
      by (meson converse_rtranclp_into_rtranclp)
  next
    case False
    then have "\<forall>i < k. worker_step F N call n i s = None" "client_step F n s = None"
      using less.prems(2) unfolding own_step_def by (meson not_Some_eq)+
    with stuck_idle[OF laws disp_reach_inv[OF less.prems(1) laws] less.prems(2) pos] show ?thesis by blast
  qed
qed

end

end
