(* ===== verification/Dispatch_Promises.thy ===== *)
theory Dispatch_Promises
  imports Dispatch_Correct
begin

text \<open>
  What a dispatch queue promises its client on every platform, as lemmas of the locale
  \<open>dispatch_platform\<close>: no thread faults, every task is performed once, a wait ends when its tasks
  are done and not before, one worker keeps the order.
\<close>

section \<open>Facts that need no contract\<close>

lemma group_rep_tasks: "group_rep m g l w ts \<Longrightarrow> group_rep m g l' w' ts' \<Longrightarrow> ts = ts'"
  by (rule nth_equalityI) (auto simp: group_rep_def)

text \<open>The tasks that worker \<open>0\<close> has taken and not yet performed.\<close>

fun in_hand :: "worker_pc \<Rightarrow> ptr list" where
  "in_hand (K_Claim p) = [p]"
| "in_hand (K_Perform p) = [p]"
| "in_hand c = []"

text \<open>The points at which a worker says that it is ready: its bit is set, or its flag.\<close>

fun bit_raised :: "worker_pc \<Rightarrow> bool" where
  "bit_raised K_Receive = True"
| "bit_raised (K_Claim p) = True"
| "bit_raised c = False"

lemma worker_serial:
  assumes "worker_step F N call n 0 s = Some s'" and "\<forall>e. ds_worker s' 0 \<noteq> K_Fault e"
    and "ds_sent s = ds_done s @ in_hand (ds_worker s 0) @ ds_queue s"
  shows "ds_sent s' = ds_done s' @ in_hand (ds_worker s' 0) @ ds_queue s'"
  using assms
  by (cases "ds_worker s 0")
    (auto simp: worker_step_def to_worker_def worker_try_def result_simps
      split: list.splits sum.splits if_splits)

lemma client_serial:
  assumes "disp_step F N tokens call ctx k n s s'" and "\<And>i. i < k \<Longrightarrow> worker_step F N call n i s \<noteq> Some s'"
  shows "ds_done s' = ds_done s \<and> ds_worker s' = ds_worker s \<and>
     (\<exists>ys. ds_sent s' = ds_sent s @ ys \<and> ds_queue s' = ds_queue s @ ys)"
  using assms
proof cases
  case client
  then show ?thesis
    by (cases "ds_client s")
      (auto simp: client_step_def client_try_def split: sum.splits option.splits if_splits)
qed (auto simp: client_try_def add_tasks_def split: sum.splits)

text \<open>A schedule of the threads: \<open>Some i\<close> is a step of worker \<open>i\<close>, \<open>None\<close> one of the client.\<close>

fun schedule :: "'n platform \<Rightarrow> 'n note_ops \<Rightarrow> (fptr \<Rightarrow> ptr \<Rightarrow> 'u \<Rightarrow> 'u) \<Rightarrow> nat \<Rightarrow> nat option list \<Rightarrow>
    ('n, 'u) disp_sys \<Rightarrow> ('n, 'u) disp_sys option" where
  "schedule F N call n [] s = Some s"
| "schedule F N call n (e # es) s =
     (case (case e of None \<Rightarrow> client_step F n s | Some i \<Rightarrow> worker_step F N call n i s) of
        None \<Rightarrow> None
      | Some s \<Rightarrow> schedule F N call n es s)"

lemma schedule_steps:
  assumes "schedule F N call n es s = Some s'" and "\<forall>i. Some i \<in> set es \<longrightarrow> i < k"
  shows "(disp_step F N tokens call ctx k n)\<^sup>*\<^sup>* s s'"
  using assms
proof (induction es arbitrary: s)
  case (Cons e es)
  from Cons.prems(1) obtain t where t: "schedule F N call n es t = Some s'"
    "(case e of None \<Rightarrow> client_step F n s | Some i \<Rightarrow> worker_step F N call n i s) = Some t"
    by (auto split: option.splits)
  have "disp_step F N tokens call ctx k n s t"
    using t(2) Cons.prems(2) by (cases e) (auto intro: disp_step.worker disp_step.client)
  moreover have "(disp_step F N tokens call ctx k n)\<^sup>*\<^sup>* t s'" using Cons.IH t(1) Cons.prems(2) by simp
  ultimately show ?case by (rule converse_rtranclp_into_rtranclp)
qed simp

lemma schedule_reach:
  assumes "disp_reach F N tokens env call ctx k n s" and "schedule F N call n es s = Some s'"
    and "\<forall>i. Some i \<in> set es \<longrightarrow> i < k"
  shows "disp_reach F N tokens env call ctx k n s'"
  using assms(1) schedule_steps[OF assms(2,3)] unfolding disp_reach_def by (rule reach_rtranclp)

text \<open>A step of any worker, and a step of the client inside a call.\<close>

definition workers_move :: "'n platform \<Rightarrow> 'n note_ops \<Rightarrow> (fptr \<Rightarrow> ptr \<Rightarrow> 'u \<Rightarrow> 'u) \<Rightarrow> nat \<Rightarrow> nat \<Rightarrow>
    ('n, 'u) disp_sys \<Rightarrow> ('n, 'u) disp_sys \<Rightarrow> bool" where
  "workers_move F N call k n s s' \<longleftrightarrow> (\<exists>i < k. worker_step F N call n i s = Some s')"

lemma workers_move_steps:
  "(workers_move F N call k n)\<^sup>*\<^sup>* s t \<Longrightarrow> (disp_step F N tokens call ctx k n)\<^sup>*\<^sup>* s t"
proof (induction rule: rtranclp_induct)
  case (step t u)
  from step.hyps(2) have "disp_step F N tokens call ctx k n t u"
    unfolding workers_move_def by (blast intro: disp_step.worker)
  with step.IH show ?case by (rule rtranclp.rtrancl_into_rtrancl)
qed simp

definition client_moves :: "'n platform \<Rightarrow> nat \<Rightarrow> ('n, 'u) disp_sys \<Rightarrow> ('n, 'u) disp_sys \<Rightarrow> bool" where
  "client_moves F n s s' \<longleftrightarrow> client_step F n s = Some s'"

context dispatch_platform
begin

lemma threads_safe:
  assumes "disp_reach F N tokens env call ctx k n s" and laws
  shows "\<forall>i e. ds_worker s i \<noteq> K_Fault e \<and> ds_client s \<noteq> C_Fault e"
  using disp_reach_inv[OF assms] by (auto simp: disp_inv_def pc_inv_def)

lemma tasks_once:
  assumes "disp_reach F N tokens env call ctx k n s" and laws
  shows "distinct (ds_sent s) \<and> distinct (ds_done s @ ds_queue s) \<and>
     set (ds_sent s) = set (ds_done s) \<union> set (ds_queue s) \<union>
       {p. \<exists>i < k. ds_worker s i \<in> {K_Claim p, K_Perform p}} \<and>
     (\<forall>p i. ds_worker s i \<in> {K_Claim p, K_Perform p} \<longrightarrow> p \<notin> set (ds_done s @ ds_queue s) \<and>
        (\<forall>j. ds_worker s j \<in> {K_Claim p, K_Perform p} \<longrightarrow> j = i))"
  using disp_reach_inv[OF assms]
proof (rule disp_invE)
  let ?ph = "ds_phase s" and ?pcs = "ds_worker s"
  let ?held = "\<lambda>i p. ?pcs i \<in> {K_Claim p, K_Perform p}"
  assume l: "link_inv ?ph (ds_todo s) (ds_queue s) ?pcs"
    and hi: "hist_inv ?ph ?pcs (ds_sent s) (ds_done s)" and pi: "pc_inv (ds_batch s) ?pcs"
    and idle: "\<forall>j \<ge> k. ?pcs j = K_Receive"
  have dn: "p \<in> set (ds_done s) \<longleftrightarrow> task_over ?pcs (?ph p)" for p using hi by (simp add: hist_inv_def)
  have snt: "p \<in> set (ds_sent s) \<longleftrightarrow> ?ph p \<noteq> Unknown \<and> ?ph p \<noteq> Todo" for p
    using hi by (simp add: hist_inv_def)
  have held: "?held i p \<longleftrightarrow> ?ph p = Taken i \<and> \<not> performed (?pcs i)" for i p
    using link_phase(3)[OF l, of i p, symmetric] by (cases "?pcs i") auto
  have less: "i < k" if "?held i p" for i p
    using that idle by (metis insertE linorder_not_less singletonD worker_pc.distinct(1,3))
  have "p \<in> set (ds_sent s) \<longleftrightarrow> p \<in> set (ds_done s) \<union> set (ds_queue s) \<union> {p. \<exists>i < k. ?held i p}" for p
    using less held[of _ p] dn[of p] snt[of p] link_phase(2)[OF l, of p] by (cases "?ph p") auto
  moreover have "distinct (ds_done s @ ds_queue s)"
    using l hi dn link_phase(2)[OF l] by (auto simp: link_inv_def hist_inv_def)
  moreover have "p \<notin> set (ds_done s @ ds_queue s)" "?held j p \<Longrightarrow> j = i" if "?held i p" for i j p
    using that dn link_phase(2)[OF l, of p] unfolding held by auto
  ultimately show ?thesis using hi unfolding hist_inv_def by blast
qed

lemma wait_complete:
  assumes "disp_reach F N tokens env call ctx k n s" and laws
  shows "(\<forall>task c. ds_client s = C_Free (For_Task task) c \<longrightarrow> task \<in> set (ds_done s)) \<and>
     (\<forall>grp c l w ts. ds_client s = C_Free (For_Group grp) c \<and> group_rep (ds_mem s) grp l w ts \<longrightarrow>
        set ts \<subseteq> set (ds_done s))"
  using disp_reach_inv[OF assms]
proof (rule disp_invE)
  assume ni: "note_inv kd tokens (ds_mem s) (ds_note s) (ds_phase s) (ds_batch s) (ds_worker s)
       (freeing (ds_client s))"
    and hi: "hist_inv (ds_phase s) (ds_worker s) (ds_sent s) (ds_done s)"
    and ci: "client_pc_inv (ds_mem s) (ds_batch s) (ds_todo s) (ds_client s)"
  have over: "p \<in> set (ds_done s)" if "ds_client s = C_Free x c" "ds_batch s p = Some c" for x c p
  proof -
    have "outstanding (ds_phase s) (ds_batch s) c = {}" using ni that(1) by (simp add: note_inv_def)
    then have "ds_phase s p = Finished" using that(2) by (auto simp: outstanding_def)
    then show ?thesis using hi by (simp add: hist_inv_def)
  qed
  show ?thesis
  proof (intro conjI allI impI)
    fix task c
    assume c: "ds_client s = C_Free (For_Task task) c"
    then have "{q. ds_batch s q = Some c} = {task}" using ci by simp
    then show "task \<in> set (ds_done s)" using over[OF c] by blast
  next
    fix grp c l w ts
    assume c: "ds_client s = C_Free (For_Group grp) c \<and> group_rep (ds_mem s) grp l w ts"
    then obtain l' ts' where g: "group_rep (ds_mem s) grp l' True ts'"
      "{q. ds_batch s q = Some c} = set ts'" using ci by auto
    have "ts = ts'" using group_rep_tasks[OF g(1)] c by blast
    then show "set ts \<subseteq> set (ds_done s)" using over[of "For_Group grp" c] c g(2) by blast
  qed
qed

lemma steps_bounded:
  assumes "disp_reach F N tokens env call ctx k n s" and laws
  shows "\<forall>j s'. (own_step F N call k n ^^ j) s s' \<longrightarrow> j \<le> work_left k s"
  using own_run_left[OF assms] by fastforce

lemma wait_returns:
  assumes "disp_reach F N tokens env call ctx k n s" and laws and "0 < k" "0 < n"
    and "\<not> polling (ds_client s)"
  shows "(\<exists>s'. (own_step F N call k n)\<^sup>*\<^sup>* s s' \<and> ds_client s' = C_Idle \<and> ds_queue s' = [] \<and>
       (\<forall>i. ds_worker s' i = K_Receive) \<and> set (ds_sent s') = set (ds_done s')) \<and>
     ((\<nexists>s'. own_step F N call k n s s') \<longrightarrow>
       ds_client s = C_Idle \<and> set (ds_sent s) = set (ds_done s))"
proof -
  obtain s' where s': "(own_step F N call k n)\<^sup>*\<^sup>* s s'" "ds_client s' = C_Idle" "ds_queue s' = []"
      "\<forall>i. ds_worker s' i = K_Receive" "set (ds_sent s') = set (ds_done s')"
    using own_run_idle[OF assms] by blast
  moreover have "s' = s" if "\<nexists>s'. own_step F N call k n s s'"
    using s'(1) that by (auto elim: converse_rtranclpE)
  ultimately show ?thesis by blast
qed

lemma serial_order:
  assumes one: "k = 1" and "disp_reach F N tokens env call ctx k n s" and laws
  shows "ds_sent s = ds_done s @ in_hand (ds_worker s 0) @ ds_queue s"
  using assms(2) unfolding disp_reach_def
proof (induction rule: reach.induct)
  case (reach_step s t)
  have t: "disp_reach F N tokens env call ctx k n t"
    unfolding disp_reach_def using reach_step(1,2) by (rule reach.reach_step)
  show ?case
  proof (cases "\<exists>i < k. worker_step F N call n i s = Some t")
    case True
    then have "worker_step F N call n 0 s = Some t" using one by auto
    then show ?thesis
      by (rule worker_serial)
        (use reach_step.IH disp_reach_inv[OF t assms(3)] in \<open>auto simp: disp_inv_def pc_inv_def\<close>)
  next
    case False
    then show ?thesis using client_serial[OF reach_step(2)] reach_step.IH by auto
  qed
qed (auto simp: disp_init_def)


text \<open>The workers by themselves come to rest.\<close>

lemma workers_rest:
  assumes laws: laws and "disp_reach F N tokens env call ctx k n s"
  shows "\<exists>s'. (workers_move F N call k n)\<^sup>*\<^sup>* s s' \<and> (\<nexists>t. workers_move F N call k n s' t) \<and> ds_client s' = ds_client s"
  using assms(2)
proof (induction "work_left k s" arbitrary: s rule: less_induct)
  case less
  show ?case
  proof (cases "\<exists>t. workers_move F N call k n s t")
    case True
    then obtain i t where t: "i < k" "worker_step F N call n i s = Some t" by (auto simp: workers_move_def)
    have r: "disp_reach F N tokens env call ctx k n t"
      using less.prems disp_step.worker[OF t] by (rule disp_reach_step)
    have "ds_worker t i \<noteq> K_Fault e" for e
      using disp_reach_inv[OF r laws] by (auto simp: disp_inv_def pc_inv_def)
    from less.hyps[OF worker_step_left(1)[OF t this] r] worker_step_left(2)[OF t this] t show ?thesis
      by (metis workers_move_def converse_rtranclp_into_rtranclp)
  qed blast
qed

text \<open>Where they rest nothing is left to do.\<close>

lemma workers_rest_done:
  assumes inv: "disp_inv kd tokens env k n s" and "0 < k" and rest: "\<nexists>t. workers_move F N call k n s t"
    and todo: "ds_todo s = []"
  shows "ds_queue s = []" and "ds_worker s i = K_Receive" and "set (ds_sent s) = set (ds_done s)"
proof -
  have stuck: "worker_step F N call n i s = None" if "i < k" for i
    using rest that by (meson not_Some_eq workers_move_def)
  show q: "ds_queue s = []" using worker_stuck[OF inv stuck] assms(2) by blast
  have w: "ds_worker s i = K_Receive" for i
    using worker_stuck[OF inv stuck] inv by (cases "i < k") (auto simp: disp_inv_def)
  then show "ds_worker s i = K_Receive" .
  have l: "link_inv (ds_phase s) (ds_todo s) (ds_queue s) (ds_worker s)"
    and hi: "hist_inv (ds_phase s) (ds_worker s) (ds_sent s) (ds_done s)"
    using inv by (auto elim: disp_invE)
  have ph: "ds_phase s p = Unknown \<or> ds_phase s p = Finished" for p
    using link_phase(1)[OF l, of p] link_phase(2)[OF l, of p] link_phase(3)[OF l, of _ p] q w todo
    by (cases "ds_phase s p") auto
  have "p \<in> set (ds_sent s) \<longleftrightarrow> p \<in> set (ds_done s)" for p
    using hi ph[of p] by (auto simp: hist_inv_def)
  then show "set (ds_sent s) = set (ds_done s)" by blast
qed

end

end
