(* ===== verification/Dispatch_Effects.thy ===== *)
theory Dispatch_Effects
  imports Dispatch_Promises "HOL-Library.Multiset"
begin

text \<open>
  What the tasks do to the application. Whatever the interleaving, the state of the application is
  what the functions of the performed tasks make of its start, called one after the other with
  the arguments the tasks had when they were added.
\<close>

section \<open>Functions and arguments stay\<close>

text \<open>
  No address is given back; a task in the second store at an address that the first one has handed
  out is in the first one, with the same function and argument; and every group in the first
  store is in the second one, with the same tasks.
\<close>

definition task_call :: "dispatch_task \<Rightarrow> fptr \<times> ptr" where
  "task_call t = (task_function t, task_argument t)"

definition group_block :: "obj \<Rightarrow> bool" where
  "group_block ob \<longleftrightarrow> (\<exists>g. ob = Group g) \<or> (\<exists>a. ob = Ptr_Array a)"

lemma group_block_simps [simp]:
  "group_block (Group g)" "group_block (Ptr_Array a)" "\<not> group_block (Task t)"
  "counter_block (Some ob) \<Longrightarrow> \<not> group_block ob" "word_array (Some ob) \<Longrightarrow> \<not> group_block ob"
  by (auto simp: group_block_def counter_block_def word_array_def)

definition same_calls :: "mem \<Rightarrow> mem \<Rightarrow> bool" where
  "same_calls m m' \<longleftrightarrow> brk m \<le> brk m' \<and>
     (\<forall>p t'. p \<le> brk m \<and> heap m' p = Some (Task t') \<longrightarrow> (\<exists>t. heap m p = Some (Task t) \<and> task_call t' = task_call t)) \<and>
     (\<forall>p ob. heap m p = Some ob \<and> group_block ob \<longrightarrow> heap m' p = Some ob)"

lemma same_callsD: "same_calls m m' \<Longrightarrow> heap m' p = Some (Task t') \<Longrightarrow> p \<le> brk m \<Longrightarrow>
    \<exists>t. heap m p = Some (Task t) \<and> task_call t' = task_call t"
  by (simp add: same_calls_def)

lemma same_calls_refl [simp]: "same_calls m m"
  by (simp add: same_calls_def)

lemma same_calls_trans:
  assumes "same_calls m m1" "same_calls m1 m'"
  shows "same_calls m m'"
  unfolding same_calls_def
proof (intro conjI allI impI)
  fix p t'
  assume t': "p \<le> brk m \<and> heap m' p = Some (Task t')"
  moreover have "brk m \<le> brk m1" using assms(1) by (simp add: same_calls_def)
  ultimately have "p \<le> brk m1" by linarith
  then show "\<exists>t. heap m p = Some (Task t) \<and> task_call t' = task_call t"
    using t' assms same_callsD by metis
qed (use assms in \<open>auto simp: same_calls_def\<close>)

lemma same_calls_group: "same_calls m m' \<Longrightarrow> group_rep m g l w ts \<Longrightarrow> group_rep m' g l w ts"
  by (erule group_rep_frame) (auto simp: same_calls_def)

lemma same_calls_differs:
  assumes "differs P m m'" "\<And>t. \<not> P (Some (Task t))" "\<And>ob. group_block ob \<Longrightarrow> \<not> P (Some ob)"
  shows "same_calls m m'"
  unfolding same_calls_def using differs_keep[OF assms(1)] assms(2,3) differs_brk[OF assms(1)] by blast

lemma same_calls_restrict:
  "heap m' = heap m |` A \<Longrightarrow> brk m' = brk m \<Longrightarrow> (\<And>p ob. heap m p = Some ob \<Longrightarrow> group_block ob \<Longrightarrow> p \<in> A) \<Longrightarrow> same_calls m m'"
  by (auto simp: same_calls_def restrict_map_def split: if_splits)

lemma same_calls_remove: "heap m p = Some (Task t) \<Longrightarrow> same_calls m (m\<lparr>heap := (heap m)(p := None)\<rparr>)"
  by (auto simp: same_calls_def)

lemma same_calls_set_counter:
  "heap m p = Some (Task t) \<Longrightarrow>
   same_calls m (m\<lparr>heap := (heap m)(p \<mapsto> Task (t\<lparr>task_private_data := c\<rparr>))\<rparr>)"
  by (auto simp: same_calls_def task_call_def)

lemma same_calls_counter_added:
  assumes "counter_added kd m m' c v"
  shows "same_calls m m'"
proof -
  have "counter_block (heap m' c)" "counter_block (heap m' (vw_lock v))"
    using assms counter_at_blocks by (auto simp: counter_added_def)
  then have "p \<noteq> c \<and> p \<noteq> vw_lock v" if "heap m' p = Some (Task t)" for p t using that by auto
  then have "heap m p = Some (Task t)" if "heap m' p = Some (Task t)" for p t
    using assms that unfolding counter_added_def by metis
  moreover have "brk m \<le> brk m'" using assms by (simp add: counter_added_def)
  ultimately show ?thesis using counter_added_keeps[OF assms] unfolding same_calls_def by blast
qed

lemma same_calls_create:
  assumes "dispatch_task_create f a w m = Inr (p, m')" and "mem_ok m"
  shows "same_calls m m'"
  unfolding task_create_new(3)[OF assms(1)] same_calls_def using assms(2) by (auto simp: mem_ok_def)

lemma load_task_heap: "load_task p m = Inr t \<Longrightarrow> heap m p = Some (Task t)"
  by (auto simp: load_task_def load_def elim: as_task.elims split: if_splits option.splits)

lemma dispatch_task_delete_heap:
  "dispatch_task_delete p m = Inr m' \<Longrightarrow> load_task p m = Inr t \<Longrightarrow> same_calls m m'"
  by (auto simp: dispatch_task_delete_def free_def result_simps same_calls_remove
      dest!: load_task_heap split: if_splits option.splits)

lemma group_add_next_heap: "group_add_next g i c m = Inr (r, m') \<Longrightarrow> same_calls m m'"
  using same_calls_set_counter load_task_heap
  by (fastforce simp: group_add_next_def store_def result_simps split: if_splits option.splits)

text \<open>What a step does to the application: nothing, or one call.\<close>

definition app_step :: "(fptr \<Rightarrow> ptr \<Rightarrow> 'u \<Rightarrow> 'u) \<Rightarrow> ('n, 'u) disp_sys \<Rightarrow> ('n, 'u) disp_sys \<Rightarrow> bool" where
  "app_step call s s' \<longleftrightarrow> ds_done s' = ds_done s \<and> ds_app s' = ds_app s \<or>
     (\<exists>p t. heap (ds_mem s) p = Some (Task t) \<and> ds_phase s p \<noteq> Unknown \<and> ds_done s' = ds_done s @ [p] \<and>
        ds_app s' = call (task_function t) (task_argument t) (ds_app s))"

lemma perform_app:
  "dispatch_task_perform call p m u = Inr u' \<Longrightarrow>
   \<exists>t. heap m p = Some (Task t) \<and> u' = call (task_function t) (task_argument t) u"
  by (auto simp: dispatch_task_perform_def result_simps dest!: load_task_heap
      split: if_splits)

context dispatch_platform
begin

lemma worker_step_calls:
  assumes laws: laws and inv: "disp_inv kd tokens env k n s" and i: "i < k"
    and step: "worker_step F N call n i s = Some s'"
  shows "same_calls (ds_mem s) (ds_mem s')"
proof -
  have env: "env (ds_mem s) (ds_note s)" and bi: "batch_inv kd (ds_mem s) (ds_phase s) (ds_batch s)"
    and l: "link_inv (ds_phase s) (ds_todo s) (ds_queue s) (ds_worker s)"
    and pi: "pc_inv (ds_batch s) (ds_worker s)"
    using inv by (auto elim: disp_invE)
  have flags: "same_calls m m'" if "differs word_array m m'" for m m'
    using that by (rule same_calls_differs) (auto simp: group_block_def word_array_def)
  note sims = worker_step_def worker_try_def to_worker_def
  show ?thesis
  proof (cases "ds_worker s i")
    case (K_Claim p)
    then show ?thesis using busy_law[OF laws env i] step flags by (auto simp: sims)
  next
    case K_Ready
    then show ?thesis using ready_law[OF laws env i] step flags by (auto simp: sims)
  next
    case (K_Finish p)
    then show ?thesis
      using step dispatch_task_delete_heap by (auto simp: sims result_simps split: sum.splits if_splits)
  next
    case (K_Signal p c)
    have "ds_batch s p = Some c" using pi K_Signal by (simp add: pc_inv_def)
    moreover have "ds_phase s p = Taken i" using link_phase(3)[OF l, of i p] K_Signal by simp
    ultimately obtain m' x where "pf_decrement F c (ds_mem s) = Inr (x, m')" "differs counter_block (ds_mem s) m'" "c \<noteq> NULL"
      using env env_ok batch_decrement[OF bi, of p c] by (metis task_phase.distinct(19))
    moreover from this(2) have "same_calls (ds_mem s) m'"
      by (rule same_calls_differs) (auto simp: group_block_def counter_block_def)
    ultimately show ?thesis using step K_Signal by (auto simp: sims)
  qed (use step in \<open>auto simp: sims split: sum.splits list.splits\<close>)
qed

lemma worker_step_app:
  assumes inv: "disp_inv kd tokens env k n s" and step: "worker_step F N call n i s = Some s'"
  shows "app_step call s s'"
proof (cases "ds_worker s i")
  case (K_Perform p)
  have l: "link_inv (ds_phase s) (ds_todo s) (ds_queue s) (ds_worker s)" using inv by (rule disp_invE)
  then have "ds_phase s p = Taken i" using link_phase(3)[OF l, of i p] K_Perform by simp
  then show ?thesis
    using step K_Perform perform_app
    by (fastforce simp: app_step_def worker_step_def worker_try_def to_worker_def split: sum.splits)
qed (use step in \<open>auto simp: app_step_def worker_step_def worker_try_def to_worker_def result_simps
    split: sum.splits list.splits if_splits\<close>)

lemma worker_step_phase:
  "worker_step F N call n i s = Some s' \<Longrightarrow> ds_phase s p \<noteq> Unknown \<Longrightarrow> ds_phase s' p \<noteq> Unknown"
  by (cases "ds_worker s i")
    (auto simp: worker_step_def worker_try_def to_worker_def result_simps split: sum.splits list.splits if_splits)

lemma client_step_calls:
  assumes inv: "disp_inv kd tokens env k n s" and step: "client_step F n s = Some s'"
  shows "same_calls (ds_mem s) (ds_mem s')"
proof (cases "ds_client s")
  case (C_Group g i c)
  then show ?thesis
    using step group_add_next_heap by (auto simp: client_step_def client_try_def split: sum.splits option.splits)
next
  case (C_Free x c)
  have env: "env (ds_mem s) (ds_note s)" and bi: "batch_inv kd (ds_mem s) (ds_phase s) (ds_batch s)"
    and ti: "task_inv (ds_mem s) (ds_phase s) (ds_batch s) (unset (ds_client s) (ds_todo s))"
    and ci: "client_pc_inv (ds_mem s) (ds_batch s) (ds_todo s) (ds_client s)"
    using inv by (auto elim: disp_invE)
  have x: "target_inv (ds_mem s) (ds_batch s) x c" using ci C_Free by simp
  obtain cm where cm: "counter_at kd (ds_mem s) c cm" using bi target_ran[OF x] by (rule batch_counter)
  have tasks: "\<exists>t. heap (ds_mem s) p = Some (Task t)" if "ds_batch s p = Some c" for p
    using ti that by (force simp: task_inv_def)
  let ?A = "- ({c, vw_lock cm} \<union> {p. ds_batch s p = Some c})"
  have "p \<in> ?A" if "heap (ds_mem s) p = Some ob" "group_block ob" for p ob
    using that counter_at_blocks[OF cm] tasks[of p] by auto
  then have "same_calls (ds_mem s) ((ds_mem s)\<lparr>heap := (heap (ds_mem s)) |` ?A\<rparr>)"
    by (intro same_calls_restrict) auto
  then show ?thesis
    using step C_Free wait_finish_ok[OF _ cm x tasks] env env_ok
    by (auto simp: client_step_def client_try_def)
qed (use step in \<open>auto simp: client_step_def client_try_def split: sum.splits option.splits if_splits\<close>)

lemma task_add_calls:
  assumes inv: "disp_inv kd tokens env k n s" and fresh: "fresh_channel tokens h s"
    and step: "enter_task_add F h ctx task w s = Some s'"
  shows "same_calls (ds_mem s) (ds_mem s')"
proof -
  have ok: "mem_ok (ds_mem s)" using inv env_ok by (auto elim: disp_invE)
  have "\<not> oom (ds_mem s) (brk (ds_mem s))" "\<not> oom (ds_mem s) (Suc (brk (ds_mem s)))"
    using fresh by (auto simp: fresh_channel_def)
  then obtain c m1 v where m1: "pf_create F h 1 (ds_mem s) = Inr (c, m1)" "counter_added kd (ds_mem s) m1 c v"
    using create_law[OF ok] by blast
  have "same_calls (ds_mem s) m'" if prep: "task_add_prepare (pf_create F) h ctx task (ds_mem s) = Inr m'" for m'
  proof -
    obtain t where t: "load_task task (ds_mem s) = Inr t"
      using prep by (cases "load_task task (ds_mem s)") (auto simp: task_add_prepare_def result_simps)
    note t = t load_task_heap[OF t]
    have "heap m1 task = Some (Task t)" using m1(2) t(2) by (rule counter_added_keeps)
    then have "same_calls m1 (m1\<lparr>heap := (heap m1)(task \<mapsto> Task (t\<lparr>task_private_data := c\<rparr>))\<rparr>)"
      by (rule same_calls_set_counter)
    with prep m1 t same_calls_trans[OF same_calls_counter_added[OF m1(2)]] show ?thesis
      by (auto simp: task_add_prepare_def store_def result_simps split: if_splits option.splits)
  qed
  then show ?thesis
    using step by (auto simp: client_try_def add_tasks_def result_simps split: sum.splits)
qed

lemma group_add_calls:
  assumes inv: "disp_inv kd tokens env k n s" and fresh: "fresh_channel tokens h s"
    and step: "enter_group_add F h ctx grp ts w s = Some s'"
  shows "same_calls (ds_mem s) (ds_mem s')"
proof -
  have ok: "mem_ok (ds_mem s)" using inv env_ok by (auto elim: disp_invE)
  have "\<not> oom (ds_mem s) (brk (ds_mem s))" "\<not> oom (ds_mem s) (Suc (brk (ds_mem s)))"
    using fresh by (auto simp: fresh_channel_def)
  then have "same_calls (ds_mem s) m'" if "pf_create F h cnt (ds_mem s) = Inr (c, m')" for cnt c m'
    using create_law[OF ok, of h cnt] that same_calls_counter_added by fastforce
  then show ?thesis
    using step by (auto simp: client_try_def add_tasks_def group_add_prepare_def result_simps split: sum.splits if_splits)
qed

lemma disp_step_app:
  assumes laws: laws and inv: "disp_inv kd tokens env k n s"
    and step: "disp_step F N tokens call ctx k n s s'"
  shows "same_calls (ds_mem s) (ds_mem s') \<and> app_step call s s' \<and>
    (\<forall>p. ds_phase s p \<noteq> Unknown \<longrightarrow> ds_phase s' p \<noteq> Unknown)"
  using step
proof cases
  case (worker i)
  then show ?thesis using worker_step_calls[OF laws inv] worker_step_app[OF inv] worker_step_phase by blast
next
  case client
  have "ds_done s' = ds_done s \<and> ds_app s' = ds_app s \<and> (\<forall>p. ds_phase s p \<noteq> Unknown \<longrightarrow> ds_phase s' p \<noteq> Unknown)"
    using client by (cases "ds_client s")
      (auto simp: client_step_def client_try_def split: sum.splits option.splits if_splits)
  then show ?thesis using client_step_calls[OF inv client] by (simp add: app_step_def)
next
  case (task_add w task h)
  then show ?thesis
    using task_add_calls[OF inv task_add(3,4)]
    by (auto simp: app_step_def client_try_def add_tasks_def split: sum.splits if_splits)
next
  case (group_add grp l w ts h)
  then show ?thesis
    using group_add_calls[OF inv group_add(6,7)]
    by (auto simp: app_step_def client_try_def add_tasks_def split: sum.splits if_splits)
next
  case (task_create f a w task m)
  have "mem_ok (ds_mem s)" using inv env_ok by (auto elim: disp_invE)
  then show ?thesis using task_create same_calls_create by (auto simp: app_step_def)
qed (auto simp: app_step_def client_try_def split: sum.splits)

text \<open>The tasks that were added are at addresses that have been handed out.\<close>

lemma disp_step_seen:
  assumes inv: "disp_inv kd tokens env k n s" and step: "disp_step F N tokens call ctx k n s s'"
    and p: "ds_phase s' p \<noteq> Unknown"
  shows "ds_phase s p \<noteq> Unknown \<or> p \<le> brk (ds_mem s)"
proof -
  have ok: "mem_ok (ds_mem s)" and l: "link_inv (ds_phase s) (ds_todo s) (ds_queue s) (ds_worker s)"
    and ci: "client_pc_inv (ds_mem s) (ds_batch s) (ds_todo s) (ds_client s)"
    using inv env_ok by (auto elim: disp_invE)
  have live: "q \<le> brk (ds_mem s)" if "new_task s w q" for q w
    using that ok unfolding new_task_def mem_ok_def by (metis not_le option.distinct(1))
  show ?thesis
    using step
  proof cases
    case (worker i)
    have "ds_phase s q \<noteq> Unknown" if "ds_queue s = q # xs \<or> work (ds_worker s i) = Some q" for q xs
      using that link_phase(2)[OF l, of q] link_phase(3)[OF l, of i q] by auto
    with worker(2) p show ?thesis
      by (cases "ds_worker s i")
        (auto simp: worker_step_def worker_try_def to_worker_def result_simps split: sum.splits list.splits if_splits)
  next
    case client
    have "ds_phase s q \<noteq> Unknown" if "ds_client s = C_Send q c" for q c
      using that ci link_phase(1)[OF l, of q] by auto
    with client p show ?thesis
      by (cases "ds_client s") (auto simp: client_step_def client_try_def split: sum.splits option.splits if_splits)
  next
    case (task_add w task h)
    then show ?thesis using p live by (auto simp: client_try_def add_tasks_def split: sum.splits if_splits)
  next
    case (group_add grp l w ts h)
    then have "p \<in> set ts \<Longrightarrow> p \<le> brk (ds_mem s)" using live by blast
    then show ?thesis using p group_add(7) by (auto simp: client_try_def add_tasks_def split: sum.splits if_splits)
  qed (use p in \<open>auto simp: client_try_def split: sum.splits\<close>)
qed

end

text \<open>The dispatch queue just created: its workers wait for tasks and nothing was added.\<close>

definition idle_system :: "mem \<Rightarrow> 'n \<Rightarrow> 'u \<Rightarrow> ('n, 'u) disp_sys" where
  "idle_system m nt u =
     \<lparr>ds_mem = m, ds_note = nt, ds_app = u, ds_queue = [], ds_worker = (\<lambda>_. K_Receive), ds_client = C_Idle,
      ds_todo = [], ds_phase = (\<lambda>_. Unknown), ds_batch = (\<lambda>_. None), ds_sent = [], ds_done = []\<rparr>"

lemma idle_system_simps [simp]:
  "ds_mem (idle_system m nt u) = m" "ds_note (idle_system m nt u) = nt" "ds_app (idle_system m nt u) = u"
  "ds_phase (idle_system m nt u) p = Unknown"
  by (simp_all add: idle_system_def)

lemma idle_system_init: "env m nt \<Longrightarrow> disp_init env (idle_system m nt u)"
  by (simp add: disp_init_def idle_system_def)

section \<open>The effect of a run\<close>

text \<open>\<open>spec p\<close> is the function and the argument of the task at \<open>p\<close>.\<close>

definition perform_all :: "(fptr \<Rightarrow> ptr \<Rightarrow> 'u \<Rightarrow> 'u) \<Rightarrow> (ptr \<Rightarrow> fptr \<times> ptr) \<Rightarrow> ptr list \<Rightarrow> 'u \<Rightarrow> 'u" where
  "perform_all call spec ps u = fold (\<lambda>p. call (fst (spec p)) (snd (spec p))) ps u"

definition app_inv :: "(fptr \<Rightarrow> ptr \<Rightarrow> 'u \<Rightarrow> 'u) \<Rightarrow> 'u \<Rightarrow> ('n, 'u) disp_sys \<Rightarrow> bool" where
  "app_inv call u0 s \<longleftrightarrow>
     (\<exists>spec. (\<forall>p t. ds_phase s p \<noteq> Unknown \<and> heap (ds_mem s) p = Some (Task t) \<longrightarrow> spec p = task_call t) \<and>
        ds_app s = perform_all call spec (ds_done s) u0)"

lemma app_inv_step:
  assumes inv: "app_inv call u0 s" and step: "app_step call s s'" and calls: "same_calls (ds_mem s) (ds_mem s')"
    and ph: "\<forall>p. ds_phase s p \<noteq> Unknown \<longrightarrow> ds_phase s' p \<noteq> Unknown"
    and dn: "\<And>p. p \<in> set (ds_done s) \<Longrightarrow> ds_phase s p \<noteq> Unknown"
    and seen: "\<And>p. ds_phase s p \<noteq> Unknown \<Longrightarrow> p \<le> brk (ds_mem s)"
  shows "app_inv call u0 s'"
proof -
  obtain spec where spec: "\<And>p t. ds_phase s p \<noteq> Unknown \<Longrightarrow> heap (ds_mem s) p = Some (Task t) \<Longrightarrow> spec p = task_call t"
    and app: "ds_app s = perform_all call spec (ds_done s) u0" using inv by (auto simp: app_inv_def)
  let ?spec = "\<lambda>p. if ds_phase s p \<noteq> Unknown then spec p
     else case heap (ds_mem s') p of Some (Task t) \<Rightarrow> task_call t | _ \<Rightarrow> (0, 0)"
  have old: "perform_all call ?spec (ds_done s) u0 = ds_app s"
    unfolding app perform_all_def by (rule fold_cong) (simp_all add: dn)
  have "?spec p = task_call t" if t: "heap (ds_mem s') p = Some (Task t)" for p t
  proof (cases "ds_phase s p = Unknown")
    case False
    obtain t' where "heap (ds_mem s) p = Some (Task t')" "task_call t = task_call t'"
      using same_callsD[OF calls t seen[OF False]] by blast
    with spec False show ?thesis by simp
  qed (use t in simp)
  moreover have "ds_app s' = perform_all call ?spec (ds_done s') u0"
    using step unfolding app_step_def
  proof (elim disjE exE conjE)
    fix p t
    assume p: "heap (ds_mem s) p = Some (Task t)" "ds_phase s p \<noteq> Unknown" "ds_done s' = ds_done s @ [p]"
      "ds_app s' = call (task_function t) (task_argument t) (ds_app s)"
    then have "spec p = (task_function t, task_argument t)" using spec by (simp add: task_call_def)
    then have "?spec p = (task_function t, task_argument t)" using p(2) by simp
    moreover have "perform_all call ?spec (ds_done s @ [p]) u0 =
        call (fst (?spec p)) (snd (?spec p)) (perform_all call ?spec (ds_done s) u0)"
      unfolding perform_all_def by simp
    ultimately show ?thesis unfolding p(3,4) old by simp
  next
    assume "ds_done s' = ds_done s" "ds_app s' = ds_app s"
    with old show ?thesis by (simp only:)
  qed
  ultimately show ?thesis unfolding app_inv_def by (intro exI[of _ ?spec]) blast
qed

context dispatch_platform
begin

lemma run_app_inv:
  assumes init: "disp_init env s0" and run: "(disp_step F N tokens call ctx k n)\<^sup>*\<^sup>* s0 s" and laws: laws
  shows "disp_reach F N tokens env call ctx k n s \<and> app_inv call (ds_app s0) s \<and> same_calls (ds_mem s0) (ds_mem s) \<and>
     (\<forall>p. ds_phase s p \<noteq> Unknown \<longrightarrow> p \<le> brk (ds_mem s))"
  using run
proof (induction rule: rtranclp_induct)
  case base
  have "disp_reach F N tokens env call ctx k n s0" unfolding disp_reach_def using init by (rule reach.reach_init)
  moreover have "app_inv call (ds_app s0) s0"
    using init by (simp add: app_inv_def perform_all_def disp_init_def)
  moreover have "ds_phase s0 p = Unknown" for p using init by (simp add: disp_init_def)
  ultimately show ?case by simp
next
  case (step s t)
  then have r: "disp_reach F N tokens env call ctx k n s" by blast
  note inv = disp_reach_inv[OF r laws]
  have "hist_inv (ds_phase s) (ds_worker s) (ds_sent s) (ds_done s)" using inv by (rule disp_invE)
  then have dn: "ds_phase s p \<noteq> Unknown" if "p \<in> set (ds_done s)" for p
    using that by (auto simp: hist_inv_def)
  note app = disp_step_app[OF laws inv step.hyps(2)]
  have "app_inv call (ds_app s0) s" using step.IH by blast
  then have "app_inv call (ds_app s0) t"
    by (rule app_inv_step) (use app dn step.IH in blast)+
  moreover have "p \<le> brk (ds_mem t)" if "ds_phase t p \<noteq> Unknown" for p
  proof -
    have "p \<le> brk (ds_mem s)" using disp_step_seen[OF inv step.hyps(2) that] step.IH by blast
    moreover have "brk (ds_mem s) \<le> brk (ds_mem t)" using app by (simp add: same_calls_def)
    ultimately show ?thesis by linarith
  qed
  moreover have "same_calls (ds_mem s0) (ds_mem t)" using step.IH app same_calls_trans by blast
  ultimately show ?case using disp_reach_step[OF r step.hyps(2)] by blast
qed

text \<open>
  So, in every state of a run, the application is what the tasks performed so far make of its
  start, with the functions and arguments that the tasks still alive have.
\<close>

lemma app_effect:
  assumes "disp_init env s0" and "(disp_step F N tokens call ctx k n)\<^sup>*\<^sup>* s0 s" and laws
  shows "\<exists>spec. ds_app s = perform_all call spec (ds_done s) (ds_app s0) \<and>
     (\<forall>p t. ds_phase s p \<noteq> Unknown \<and> heap (ds_mem s) p = Some (Task t) \<longrightarrow> spec p = task_call t \<and>
        (p \<le> brk (ds_mem s0) \<longrightarrow> (\<exists>t0. heap (ds_mem s0) p = Some (Task t0) \<and> spec p = task_call t0)))"
proof -
  from run_app_inv[OF assms] obtain spec where spec: "ds_app s = perform_all call spec (ds_done s) (ds_app s0)"
    "\<forall>p t. ds_phase s p \<noteq> Unknown \<and> heap (ds_mem s) p = Some (Task t) \<longrightarrow> spec p = task_call t"
    "same_calls (ds_mem s0) (ds_mem s)" unfolding app_inv_def by blast
  then show ?thesis using same_callsD[OF spec(3)] by (intro exI[of _ spec]) metis
qed

text \<open>When a wait for a group comes back, and only the tasks of the group were sent.\<close>

lemma group_effect:
  assumes init: "disp_init env s0" and run: "(disp_step F N tokens call ctx k n)\<^sup>*\<^sup>* s0 s" and laws: laws
    and c: "ds_client s = C_Free (For_Group grp) c" and grp0: "group_rep (ds_mem s0) grp l w ts"
    and only: "set (ds_sent s) \<subseteq> set ts" and old: "\<forall>p \<in> set ts. p \<le> brk (ds_mem s0)"
  shows "\<exists>ps. mset ps = mset ts \<and> (\<forall>p \<in> set ps. \<exists>t. heap (ds_mem s0) p = Some (Task t)) \<and>
     ds_app s = perform_all call (\<lambda>p. case heap (ds_mem s0) p of Some (Task t) \<Rightarrow> task_call t | _ \<Rightarrow> (0, 0)) ps (ds_app s0)"
proof -
  obtain spec where app: "ds_app s = perform_all call spec (ds_done s) (ds_app s0)"
    and spec: "\<And>p t. ds_phase s p \<noteq> Unknown \<Longrightarrow> heap (ds_mem s) p = Some (Task t) \<Longrightarrow> p \<le> brk (ds_mem s0) \<Longrightarrow>
      \<exists>t0. heap (ds_mem s0) p = Some (Task t0) \<and> spec p = task_call t0"
    using app_effect[OF init run laws] by blast
  have r: "disp_reach F N tokens env call ctx k n s" and steady: "same_calls (ds_mem s0) (ds_mem s)"
    using run_app_inv[OF init run laws] by blast+
  note grp = same_calls_group[OF steady grp0]
  have dn: "set ts \<subseteq> set (ds_done s)" using wait_complete[OF r laws] c grp by blast
  have once: "distinct (ds_done s)" "set (ds_done s) \<subseteq> set (ds_sent s)" using tasks_once[OF r laws] by auto
  note inv = disp_reach_inv[OF r laws]
  have ci: "client_pc_inv (ds_mem s) (ds_batch s) (ds_todo s) (ds_client s)"
    and ti: "task_inv (ds_mem s) (ds_phase s) (ds_batch s) (unset (ds_client s) (ds_todo s))"
    using inv by (auto elim: disp_invE)
  obtain l' ts' where g: "group_rep (ds_mem s) grp l' True ts'" "distinct ts'" "{q. ds_batch s q = Some c} = set ts'"
    using ci c by auto
  have "ts' = ts" using group_rep_tasks[OF g(1)] grp by blast
  with g have ts: "distinct ts" "\<And>p. p \<in> set ts \<Longrightarrow> ds_batch s p = Some c" by auto
  have alive: "\<exists>t0. heap (ds_mem s0) p = Some (Task t0) \<and> spec p = task_call t0" if "p \<in> set ts" for p
    using ti ts(2)[OF that] spec[of p] old that unfolding task_inv_def by blast
  have "set (ds_done s) = set ts" using dn once(2) only by blast
  then have "mset (ds_done s) = mset ts" using once(1) ts(1) set_eq_iff_mset_eq_distinct by blast
  moreover have "\<forall>p \<in> set (ds_done s). \<exists>t. heap (ds_mem s0) p = Some (Task t)"
    using alive \<open>set (ds_done s) = set ts\<close> by blast
  moreover have "ds_app s = perform_all call
      (\<lambda>p. case heap (ds_mem s0) p of Some (Task t) \<Rightarrow> task_call t | _ \<Rightarrow> (0, 0)) (ds_done s) (ds_app s0)"
    unfolding app perform_all_def
  proof (rule fold_cong)
    fix p
    assume "p \<in> set (ds_done s)"
    then obtain t0 where "heap (ds_mem s0) p = Some (Task t0)" "spec p = task_call t0"
      using alive \<open>set (ds_done s) = set ts\<close> by blast
    then show "call (fst (spec p)) (snd (spec p)) = call
        (fst (case heap (ds_mem s0) p of Some (Task t) \<Rightarrow> task_call t | _ \<Rightarrow> (0, 0)))
        (snd (case heap (ds_mem s0) p of Some (Task t) \<Rightarrow> task_call t | _ \<Rightarrow> (0, 0)))" by simp
  qed simp_all
  ultimately show ?thesis by blast
qed

text \<open>Adding a group and waiting for it, from a fresh start, is a run that comes to the end of the wait.\<close>

lemma own_steps:
  "(own_step F N call k n)\<^sup>*\<^sup>* s s' \<Longrightarrow> (disp_step F N tokens call ctx k n)\<^sup>*\<^sup>* s s'"
  by (erule rtranclp_mono[THEN predicate2D, rotated])
    (auto simp: own_step_def intro: disp_step.worker disp_step.client)

lemma own_step_client:
  assumes "own_step F N call k n s s'"
  shows "ds_client s' = ds_client s \<and> ds_batch s' = ds_batch s \<and> ds_sent s' = ds_sent s \<and> ds_todo s' = ds_todo s \<or>
    client_step F n s = Some s'"
  using assms unfolding own_step_def
proof (elim disjE exE conjE)
  fix i
  assume "worker_step F N call n i s = Some s'"
  then show ?thesis
    by (cases "ds_worker s i")
      (auto simp: worker_step_def worker_try_def to_worker_def result_simps split: sum.splits list.splits if_splits)
qed simp

text \<open>A wait comes to its end before it returns.\<close>

lemma await_passes:
  assumes r: "disp_reach F N tokens env call ctx k n s" and laws: laws and c: "ds_client s = C_Await x c"
    and run: "(own_step F N call k n)\<^sup>*\<^sup>* s s'" and idle: "ds_client s' = C_Idle"
  shows "\<exists>t. (own_step F N call k n)\<^sup>*\<^sup>* s t \<and> ds_client t = C_Free x c \<and> ds_sent t = ds_sent s"
proof -
  let ?goal = "\<exists>t. (own_step F N call k n)\<^sup>*\<^sup>* s t \<and> ds_client t = C_Free x c \<and> ds_sent t = ds_sent s"
  have "disp_reach F N tokens env call ctx k n s' \<and> (ds_client s' = C_Await x c \<and> ds_sent s' = ds_sent s \<or> ?goal)"
    using run
  proof (induction rule: rtranclp_induct)
    case base
    then show ?case using r c by simp
  next
    case (step t u)
    then have ru: "disp_reach F N tokens env call ctx k n u" using own_step_reach by blast
    have ok: "\<forall>e. ds_client u \<noteq> C_Fault e" using threads_safe[OF ru laws] by blast
    show ?case
    proof (cases ?goal)
      case False
      then have t: "ds_client t = C_Await x c" "ds_sent t = ds_sent s" using step.IH by blast+
      from own_step_client[OF step.hyps(2)] show ?thesis
      proof
        assume "client_step F n t = Some u"
        then have "ds_client u = C_Free x c" "ds_sent u = ds_sent s"
          using t ok by (auto simp: client_step_def client_try_def split: sum.splits option.splits if_splits)
        moreover have "(own_step F N call k n)\<^sup>*\<^sup>* s u" using step.hyps by simp
        ultimately show ?thesis using ru by blast
      qed (use t ru in simp)
    qed (use ru in simp)
  qed
  then show ?thesis using idle by simp
qed

text \<open>Adding a group, the client sends its tasks and returns.\<close>

lemma group_add_passes:
  assumes r: "disp_reach F N tokens env call ctx k n s" and laws: laws
    and s: "ds_client s = C_Group grp 0 c" "set (ds_sent s) \<union> set (ds_todo s) \<subseteq> A"
    and run: "(own_step F N call k n)\<^sup>*\<^sup>* s s'"
  shows "ds_batch s' = ds_batch s \<and> set (ds_sent s') \<union> set (ds_todo s') \<subseteq> A"
proof -
  let ?adding = "\<lambda>pc. pc = C_Idle \<or> (\<exists>i. pc = C_Group grp i c) \<or> (\<exists>p i. pc = C_Send p (C_Group grp i c))"
  have "disp_reach F N tokens env call ctx k n s' \<and> ?adding (ds_client s') \<and> ds_batch s' = ds_batch s \<and>
      set (ds_sent s') \<union> set (ds_todo s') \<subseteq> A"
    using run
  proof (induction rule: rtranclp_induct)
    case base
    then show ?case using r s by simp
  next
    case (step t u)
    then have rt: "disp_reach F N tokens env call ctx k n t" and ru: "disp_reach F N tokens env call ctx k n u"
      using own_step_reach by blast+
    have ok: "\<forall>e. ds_client u \<noteq> C_Fault e" using threads_safe[OF ru laws] by blast
    have ci: "client_pc_inv (ds_mem t) (ds_batch t) (ds_todo t) (ds_client t)"
      using disp_reach_inv[OF rt laws] by (rule disp_invE)
    from own_step_client[OF step.hyps(2)] show ?case
    proof
      assume u: "client_step F n t = Some u"
      have "?adding (ds_client u) \<and> ds_batch u = ds_batch t \<and> set (ds_sent u) \<union> set (ds_todo u) \<subseteq> A"
        using u step.IH ok ci
        by (auto simp: client_step_def client_try_def split: sum.splits option.splits if_splits) (blast+)
      then show ?thesis using step.IH ru by simp
    qed (use step.IH ru in simp)
  qed
  then show ?thesis by blast
qed

lemma group_run_exists:
  assumes init: "disp_init env s0" and laws: laws and pos: "0 < k" "0 < n"
    and grp: "group_rep (ds_mem s0) grp l True ts" and ts: "ts \<noteq> []" "distinct ts" "\<forall>p \<in> set ts. new_task s0 True p"
    and fresh: "fresh_channel tokens h s0"
  shows "\<exists>s c. (disp_step F N tokens call ctx k n)\<^sup>*\<^sup>* s0 s \<and> ds_client s = C_Free (For_Group grp) c \<and>
     set (ds_sent s) \<subseteq> set ts"
proof -
  let ?step = "disp_step F N tokens call ctx k n"
  have idle0: "ds_client s0 = C_Idle" "ds_sent s0 = []" "ds_todo s0 = []" "\<And>p. ds_batch s0 p = None"
    using init by (auto simp: disp_init_def)
  have r0: "disp_reach F N tokens env call ctx k n s0" unfolding disp_reach_def using init by (rule reach.reach_init)
  obtain s1 where s1: "enter_group_add F h ctx grp ts True s0 = Some s1"
    by (cases "group_add_prepare (pf_create F) h ctx grp (ds_mem s0)") (auto simp: client_try_def)
  have step1: "?step s0 s1" using idle0(1) grp ts(2) _ ts(3) fresh s1 by (rule disp_step.group_add) (simp add: ts(1))
  have r1: "disp_reach F N tokens env call ctx k n s1" using r0 step1 by (rule disp_reach_step)
  have "\<forall>e. ds_client s1 \<noteq> C_Fault e" using threads_safe[OF r1 laws] by blast
  then obtain c m where s1': "s1 = add_tasks ts True c (s0\<lparr>ds_mem := m, ds_client := C_Group grp 0 c\<rparr>)"
    using s1 by (auto simp: client_try_def split: sum.splits)
  have bat: "{p. ds_batch s1 p = Some c} = set ts" by (auto simp: s1' add_tasks_def idle0(4))
  have pc1: "ds_client s1 = C_Group grp 0 c" "set (ds_sent s1) \<union> set (ds_todo s1) \<subseteq> set ts"
    by (simp_all add: s1' add_tasks_def idle0)
  then have "\<not> polling (ds_client s1)" by (simp add: polling_def)
  then obtain s2 where s2: "(own_step F N call k n)\<^sup>*\<^sup>* s1 s2" "ds_client s2 = C_Idle"
    using own_run_idle[OF r1 laws pos] by blast
  note batch2 = group_add_passes[OF r1 laws pc1 s2(1)]
  have run2: "?step\<^sup>*\<^sup>* s0 s2" using step1 own_steps[OF s2(1)] by (rule converse_rtranclp_into_rtranclp)
  note steady = run_app_inv[OF init run2 laws]
  then have r2: "disp_reach F N tokens env call ctx k n s2" and grp2: "group_rep (ds_mem s2) grp l True ts"
    using same_calls_group[OF _ grp] by blast+
  obtain s3 where s3: "enter_group_wait grp s2 = Some s3"
    by (cases "group_wait_counter grp (ds_mem s2)") (auto simp: client_try_def)
  have "{p. ds_batch s2 p = Some c} = set ts" using bat batch2 by simp
  with s2(2) grp2 ts(1,2) have step3: "?step s2 s3" using s3 by (rule disp_step.group_wait)
  have r3: "disp_reach F N tokens env call ctx k n s3" using r2 step3 by (rule disp_reach_step)
  have "\<forall>e. ds_client s3 \<noteq> C_Fault e" using threads_safe[OF r3 laws] by blast
  then obtain c' where s3': "s3 = s2\<lparr>ds_client := C_Await (For_Group grp) c'\<rparr>"
    using s3 by (auto simp: client_try_def split: sum.splits)
  then have "\<not> polling (ds_client s3)" by (simp add: polling_def)
  then obtain s4 where s4: "(own_step F N call k n)\<^sup>*\<^sup>* s3 s4" "ds_client s4 = C_Idle"
    using own_run_idle[OF r3 laws pos] by blast
  have "ds_client s3 = C_Await (For_Group grp) c'" by (simp add: s3')
  from await_passes[OF r3 laws this s4] obtain s where s: "(own_step F N call k n)\<^sup>*\<^sup>* s3 s"
    "ds_client s = C_Free (For_Group grp) c'" "ds_sent s = ds_sent s3" by blast
  have "?step\<^sup>*\<^sup>* s0 s3" using run2 step3 by simp
  then have "?step\<^sup>*\<^sup>* s0 s" using own_steps[OF s(1)] by (rule rtranclp_trans)
  moreover have "set (ds_sent s) \<subseteq> set ts" using s(3) batch2 by (simp add: s3')
  ultimately show ?thesis using s(2) by blast
qed

end

end
