(* ===== verification/Dispatch_Calls.thy ===== *)
theory Dispatch_Calls
  imports Dispatch_Threads
begin

text \<open>
  The steps that the client takes in a call make up the call: if no worker interferes, they end
  as the definition of the whole call in theory \<open>Dispatch_Common\<close> says. This ties the interleaved
  model to the code of the calls.
\<close>

section \<open>How a call ends\<close>

abbreviation now :: "('n, 'u) disp_sys \<Rightarrow> 'n call_state" where
  "now s \<equiv> (ds_mem s, ds_note s, ds_queue s)"

abbreviation client_run :: "'n platform \<Rightarrow> nat \<Rightarrow> ('n, 'u) disp_sys \<Rightarrow> ('n, 'u) disp_sys \<Rightarrow> bool" where
  "client_run F n \<equiv> (\<lambda>s s'. client_step F n s = Some s')\<^sup>*\<^sup>*"

text \<open>
  From \<open>s\<close> the client, alone, runs into the error \<open>e\<close>; never returns; or returns with the given
  store, notifications and queue.
\<close>

definition call_ends :: "'n platform \<Rightarrow> nat \<Rightarrow> ('n, 'u) disp_sys \<Rightarrow> 'n call_state option result \<Rightarrow> bool" where
  "call_ends F n s r \<longleftrightarrow>
     (case r of
        Inl e \<Rightarrow> \<exists>s'. client_run F n s s' \<and> ds_client s' = C_Fault e
      | Inr None \<Rightarrow> \<forall>s'. client_run F n s s' \<longrightarrow> ds_client s' \<noteq> C_Idle \<and> (\<forall>e. ds_client s' \<noteq> C_Fault e)
      | Inr (Some (m, nt, q)) \<Rightarrow> \<exists>s'. client_run F n s s' \<and> ds_client s' = C_Idle \<and>
          ds_mem s' = m \<and> ds_note s' = nt \<and> ds_queue s' = q)"

lemma client_stops [simp]:
  "ds_client s = C_Idle \<Longrightarrow> client_step F n s = None"
  "ds_client s = C_Fault e \<Longrightarrow> client_step F n s = None"
  by (simp_all add: client_step_def)

lemma call_ends_None:
  "call_ends F n s (Inr None) \<longleftrightarrow>
     (\<forall>s'. client_run F n s s' \<longrightarrow> ds_client s' \<noteq> C_Idle \<and> (\<forall>e. ds_client s' \<noteq> C_Fault e))"
  by (simp add: call_ends_def)

lemma call_ends_step:
  assumes "client_step F n s = Some t" and "call_ends F n t r"
  shows "call_ends F n s r"
proof -
  have into: "client_run F n s s'" if "client_run F n t s'" for s'
    using assms(1) that by (rule converse_rtranclp_into_rtranclp)
  have run: "client_run F n s s' \<Longrightarrow> s' = s \<or> client_run F n t s'" for s'
    using assms(1) by (auto elim: converse_rtranclpE)
  have c: "ds_client s \<noteq> C_Idle" "\<And>e. ds_client s \<noteq> C_Fault e" using assms(1) by auto
  show ?thesis
  proof (cases r)
    case (Inl e)
    then show ?thesis using assms(2) into by (auto simp: call_ends_def)
  next
    case (Inr x)
    show ?thesis
    proof (cases x)
      case None
      with Inr assms(2) have "call_ends F n t (Inr None)" by simp
      then have t: "client_run F n t s' \<Longrightarrow> ds_client s' \<noteq> C_Idle \<and> (\<forall>e. ds_client s' \<noteq> C_Fault e)" for s'
        unfolding call_ends_None by blast
      have "ds_client s' \<noteq> C_Idle \<and> (\<forall>e. ds_client s' \<noteq> C_Fault e)" if "client_run F n s s'" for s'
        using run[OF that]
      proof
        assume "s' = s"
        with c show ?thesis by simp
      qed (rule t)
      then show ?thesis unfolding Inr None call_ends_None by blast
    next
      case (Some st)
      then show ?thesis using Inr assms(2) into by (cases st) (auto simp: call_ends_def)
    qed
  qed
qed

lemma call_ends_stuck:
  assumes "client_step F n s = None" and "ds_client s \<noteq> C_Idle" "\<And>e. ds_client s \<noteq> C_Fault e"
  shows "call_ends F n s (Inr None)"
proof -
  have "s' = s" if "client_run F n s s'" for s'
    using that assms(1) by (auto elim: converse_rtranclpE)
  with assms(2,3) show ?thesis unfolding call_ends_def by auto
qed

lemma call_ends_fault: "ds_client s = C_Fault e \<Longrightarrow> call_ends F n s (Inl e)"
  by (auto simp: call_ends_def)

lemma call_ends_faults: "client_step F n s = Some (s\<lparr>ds_client := C_Fault e\<rparr>) \<Longrightarrow> call_ends F n s (Inl e)"
  by (erule call_ends_step, rule call_ends_fault) simp

lemma call_ends_idle:
  "ds_client s = C_Idle \<Longrightarrow> r = Inr (Some (ds_mem s, ds_note s, ds_queue s)) \<Longrightarrow> call_ends F n s r"
  by (auto simp: call_ends_def)

text \<open>A set of states that the client cannot leave on its own, none of them the end of a call.\<close>

lemma call_ends_never:
  assumes "P s" and "\<And>s s'. P s \<Longrightarrow> client_step F n s = Some s' \<Longrightarrow> P s'"
    and "\<And>s. P s \<Longrightarrow> ds_client s \<noteq> C_Idle \<and> (\<forall>e. ds_client s \<noteq> C_Fault e)"
  shows "call_ends F n s (Inr None)"
proof -
  have "P s'" if "client_run F n s s'" for s'
    using that assms(1,2) by (induction rule: rtranclp_induct) blast+
  with assms(3) show ?thesis unfolding call_ends_None by blast
qed

section \<open>The calls\<close>

lemma load_task_prepared:
  assumes "task_add_prepare create h ctx task m = Inr m'"
  shows "\<exists>t. load_task task m' = Inr t"
  using assms
  by (auto simp: task_add_prepare_def load_task_def load_def store_def result_simps split: if_splits sum.splits)

text \<open>Sending: either there is room, and the client goes on with \<open>k\<close>, or it stays blocked.\<close>

lemma send_ends:
  assumes c: "ds_client s = C_Send task k"
    and room: "\<And>q. fifo_step n (Put task) (ds_queue s) = Some (None, q) \<Longrightarrow>
      call_ends F n (s\<lparr>ds_queue := q, ds_client := k, ds_todo := tl (ds_todo s),
         ds_phase := (ds_phase s)(task := Queued), ds_sent := ds_sent s @ [task]\<rparr>)
        (rest (Some (ds_mem s, ds_note s, q)))"
    and blocked: "rest None = Inr None"
  shows "call_ends F n s (rest (send n task (ds_mem s, ds_note s, ds_queue s)))"
proof (cases "length (ds_queue s) < n")
  case True
  then have "fifo_step n (Put task) (ds_queue s) = Some (None, ds_queue s @ [task])" by simp
  with room[OF this] c show ?thesis
    by (intro call_ends_step[of F n s]) (auto simp: client_step_def send_def)
next
  case False
  then have "client_step F n s = None" using c by (simp add: client_step_def)
  with False show ?thesis
    using c blocked by (simp add: send_def call_ends_stuck)
qed

lemma task_add_ends:
  "\<exists>s1. enter_task_add F h ctx task w s = Some s1 \<and>
     call_ends F n s1 (call_task_add (pf_create F) n h ctx task (ds_mem s, ds_note s, ds_queue s))"
proof (cases "task_add_prepare (pf_create F) h ctx task (ds_mem s)")
  case (Inl e)
  then show ?thesis by (simp add: client_try_def call_task_add_def call_ends_fault)
next
  case (Inr m)
  then obtain t where t: "load_task task m = Inr t" using load_task_prepared by blast
  let ?s = "add_tasks [task] w (task_private_data t) (s\<lparr>ds_mem := m, ds_client := C_Send task C_Idle\<rparr>)"
  have s: "ds_client ?s = C_Send task C_Idle" "ds_mem ?s = m" "ds_note ?s = ds_note s" "ds_queue ?s = ds_queue s"
    by (simp_all add: add_tasks_def)
  have "call_ends F n ?s (Inr (send n task (ds_mem ?s, ds_note ?s, ds_queue ?s)))"
    using s(1) by (rule send_ends) (simp_all add: call_ends_idle)
  with Inr t s show ?thesis by (simp add: client_try_def call_task_add_def)
qed

text \<open>The loop of \<open>dispatch_queue_group_add\<close>, from its \<open>i\<close>-th turn on.\<close>

definition group_add_loop :: "nat \<Rightarrow> dispatch_group \<Rightarrow> ptr \<Rightarrow> nat \<Rightarrow> 'n call_state option \<Rightarrow> 'n call_state option result" where
  "group_add_loop n g counter i = for_range i (unat (group_count g)) (\<lambda>i st.
     case st of
       None \<Rightarrow> Inr None
     | Some (m, nt, q) \<Rightarrow>
         bindE (read_ptr (group_tasks g) i m) (\<lambda>task.
         bindE (load_task task m) (\<lambda>t.
         bindE (store task (Task (t\<lparr>task_private_data := counter\<rparr>)) m) (\<lambda>m.
         Inr (send n task (m, nt, q))))))"

lemma group_add_loop_blocked: "group_add_loop n g counter i None = Inr None"
proof (cases "i \<le> unat (group_count g)")
  case True
  let ?body = "\<lambda>i st. case st of None \<Rightarrow> Inr None | Some (m, nt, q) \<Rightarrow>
     bindE (read_ptr (group_tasks g) i m) (\<lambda>task. bindE (load_task task m) (\<lambda>t.
     bindE (store task (Task (t\<lparr>task_private_data := counter\<rparr>)) m) (\<lambda>m. Inr (send n task (m, nt, q)))))"
  have "\<exists>st. for_range i (unat (group_count g)) ?body None = Inr st \<and> st = None"
    using True by (rule for_range_rule) simp_all
  then show ?thesis by (simp add: group_add_loop_def)
qed (simp add: group_add_loop_def)

lemma load_group_store_task:
  assumes "load_task task m = Inr t" "store task (Task t') m = Inr m'" "load_group grp m = Inr g"
  shows "load_group grp m' = Inr g"
  using assms
  by (auto simp: load_task_def load_group_def load_def store_def result_simps
      elim: as_group.elims as_task.elims split: if_splits option.splits)

lemma group_add_ends_from:
  assumes "ds_client s = C_Group grp i counter" and "load_group grp (ds_mem s) = Inr g"
  shows "call_ends F n s (group_add_loop n g counter i (Some (ds_mem s, ds_note s, ds_queue s)))"
  using assms
proof (induction "unat (group_count g) - i" arbitrary: i s)
  case 0
  then have "client_step F n s = Some (s\<lparr>ds_client := C_Idle\<rparr>)"
    by (simp add: client_step_def client_try_def group_add_next_def)
  moreover have "call_ends F n (s\<lparr>ds_client := C_Idle\<rparr>) (Inr (Some (ds_mem s, ds_note s, ds_queue s)))"
    by (simp add: call_ends_idle)
  ultimately show ?case using 0 by (simp add: group_add_loop_def call_ends_step)
next
  case (Suc j)
  then have i: "i < unat (group_count g)" by simp
  let ?next = "group_add_next grp i counter (ds_mem s)"
  let ?st = "Some (ds_mem s, ds_note s, ds_queue s)"
  show ?case
  proof (cases ?next)
    case (Inl e)
    then have step: "client_step F n s = Some (s\<lparr>ds_client := C_Fault e\<rparr>)"
      using Suc.prems by (simp add: client_step_def client_try_def)
    have "group_add_loop n g counter i ?st = Inl e"
      using Inl i Suc.prems(2)
      by (auto simp: group_add_loop_def for_range_step group_add_next_def result_simps split: sum.splits)
    with step show ?thesis by (simp add: call_ends_faults)
  next
    case (Inr x)
    then obtain task t m where t: "?next = Inr (Some task, m)" "read_ptr (group_tasks g) i (ds_mem s) = Inr task"
      "load_task task (ds_mem s) = Inr t" "store task (Task (t\<lparr>task_private_data := counter\<rparr>)) (ds_mem s) = Inr m"
      using i Suc.prems(2) by (auto simp: group_add_next_def result_simps)
    let ?s = "s\<lparr>ds_mem := m, ds_client := C_Send task (C_Group grp (Suc i) counter)\<rparr>"
    have step: "client_step F n s = Some ?s"
      using Suc.prems(1) t(1) by (simp add: client_step_def client_try_def)
    have g: "load_group grp m = Inr g" using t(3,4) Suc.prems(2) by (rule load_group_store_task)
    have "call_ends F n ?s (group_add_loop n g counter (Suc i) (send n task (ds_mem ?s, ds_note ?s, ds_queue ?s)))"
    proof (rule send_ends)
      fix q
      let ?t = "?s\<lparr>ds_queue := q, ds_client := C_Group grp (Suc i) counter, ds_todo := tl (ds_todo ?s),
         ds_phase := (ds_phase ?s)(task := Queued), ds_sent := ds_sent ?s @ [task]\<rparr>"
      have "call_ends F n ?t (group_add_loop n g counter (Suc i) (Some (ds_mem ?t, ds_note ?t, ds_queue ?t)))"
        by (rule Suc.hyps(1)) (use Suc.hyps(2) g in simp_all)
      then show "call_ends F n ?t (group_add_loop n g counter (Suc i) (Some (ds_mem ?s, ds_note ?s, q)))" by simp
    qed (simp_all add: group_add_loop_blocked)
    moreover have "group_add_loop n g counter i ?st = group_add_loop n g counter (Suc i) (send n task (m, ds_note s, ds_queue s))"
      using i t by (simp add: group_add_loop_def for_range_step)
    ultimately show ?thesis using step by (simp add: call_ends_step)
  qed
qed

lemma group_add_ends:
  "\<exists>s1. enter_group_add F h ctx grp ts w s = Some s1 \<and>
     call_ends F n s1 (call_group_add (pf_create F) n h ctx grp (ds_mem s, ds_note s, ds_queue s))"
proof (cases "group_add_prepare (pf_create F) h ctx grp (ds_mem s)")
  case (Inl e)
  then show ?thesis by (simp add: client_try_def call_group_add_def call_ends_fault)
next
  case (Inr x)
  then obtain counter m where m: "group_add_prepare (pf_create F) h ctx grp (ds_mem s) = Inr (counter, m)"
    by (cases x) auto
  let ?s = "add_tasks ts w counter (s\<lparr>ds_mem := m, ds_client := C_Group grp 0 counter\<rparr>)"
  have s: "ds_client ?s = C_Group grp 0 counter" "ds_mem ?s = m" "ds_note ?s = ds_note s" "ds_queue ?s = ds_queue s"
    by (simp_all add: add_tasks_def)
  have "call_ends F n ?s (bindE (load_group grp m) (\<lambda>g. group_add_loop n g counter 0 (Some (m, ds_note s, ds_queue s))))"
  proof (cases "load_group grp m")
    case (Inl e)
    then have "client_step F n ?s = Some (?s\<lparr>ds_client := C_Fault e\<rparr>)"
      using s by (simp add: client_step_def client_try_def group_add_next_def)
    with Inl show ?thesis by (simp add: call_ends_faults)
  next
    case (Inr g)
    then show ?thesis using group_add_ends_from[OF s(1), of g F n] s by simp
  qed
  with m show ?thesis by (simp add: client_try_def call_group_add_def group_add_loop_def)
qed

lemma await_ends:
  assumes "ds_client s = C_Await target counter"
  shows "call_ends F n s (call_wait (pf_wait F) (Inr counter) (wait_finish (pf_delete F) target)
     (ds_mem s, ds_note s, ds_queue s))"
proof (cases "pf_wait F counter (ds_mem s) (ds_note s)")
  case (Inl e)
  then have "client_step F n s = Some (s\<lparr>ds_client := C_Fault e\<rparr>)"
    using assms by (simp add: client_step_def client_try_def)
  with Inl show ?thesis by (simp add: call_wait_def call_ends_faults)
next
  case r: (Inr r)
  show ?thesis
  proof (cases r)
    case None
    then show ?thesis
      using assms r by (auto simp: call_wait_def client_step_def client_try_def intro!: call_ends_stuck)
  next
    case (Some nt)
    let ?s = "s\<lparr>ds_note := nt, ds_client := C_Free target counter\<rparr>"
    have step: "client_step F n s = Some ?s"
      using assms r Some by (simp add: client_step_def client_try_def)
    have "call_ends F n ?s (bindE (wait_finish (pf_delete F) target counter (ds_mem s))
        (\<lambda>m. Inr (Some (m, nt, ds_queue s))))"
    proof (cases "wait_finish (pf_delete F) target counter (ds_mem s)")
      case (Inl e)
      then have "client_step F n ?s = Some (?s\<lparr>ds_client := C_Fault e\<rparr>)"
        by (simp add: client_step_def client_try_def)
      with Inl show ?thesis by (simp add: call_ends_faults)
    next
      case (Inr m)
      then have "client_step F n ?s = Some (?s\<lparr>ds_mem := m, ds_client := C_Idle,
          ds_batch := (\<lambda>p. if ds_batch ?s p = Some counter then None else ds_batch ?s p)\<rparr>)"
        by (simp add: client_step_def client_try_def)
      then have "call_ends F n ?s (Inr (Some (m, nt, ds_queue s)))"
        by (rule call_ends_step) (simp add: call_ends_idle)
      with Inr show ?thesis by simp
    qed
    with step r Some show ?thesis by (simp add: call_wait_def call_ends_step)
  qed
qed

lemma call_wait_counter: "call_wait wait (Inl e) finish st = Inl e"
  by (cases st) (simp add: call_wait_def)

lemma task_wait_ends:
  "\<exists>s1. enter_task_wait task s = Some s1 \<and>
     call_ends F n s1 (call_task_wait (pf_wait F) (pf_delete F) task (ds_mem s, ds_note s, ds_queue s))"
proof (cases "task_wait_counter task (ds_mem s)")
  case (Inl e)
  then show ?thesis by (simp add: client_try_def call_task_wait_def call_wait_counter call_ends_fault)
next
  case (Inr c)
  then show ?thesis
    using await_ends[of "s\<lparr>ds_client := C_Await (For_Task task) c\<rparr>" "For_Task task" c F n]
    by (simp add: client_try_def call_task_wait_def wait_finish_def[abs_def])
qed

lemma group_wait_ends:
  "\<exists>s1. enter_group_wait grp s = Some s1 \<and>
     call_ends F n s1 (call_group_wait (pf_wait F) (pf_delete F) grp (ds_mem s, ds_note s, ds_queue s))"
proof (cases "group_wait_counter grp (ds_mem s)")
  case (Inl e)
  then show ?thesis by (simp add: client_try_def call_group_wait_def call_wait_counter call_ends_fault)
next
  case (Inr c)
  then show ?thesis
    using await_ends[of "s\<lparr>ds_client := C_Await (For_Group grp) c\<rparr>" "For_Group grp" c F n]
    by (simp add: client_try_def call_group_wait_def wait_finish_def[abs_def])
qed

section \<open>One turn of a worker\<close>

text \<open>
  What a worker does with a task that it has received, undisturbed: \<open>event_counter_signal\<close> put together
  from its parts, and the body of the loop of \<open>dispatch_queue_worker\<close>.
\<close>

definition signal_by :: "'n platform \<Rightarrow> 'n note_ops \<Rightarrow> ptr \<Rightarrow> mem \<times> 'n \<Rightarrow> (mem \<times> 'n) result" where
  "signal_by F N counter = (\<lambda>(m, nt).
     bindE (assertE (counter \<noteq> NULL)) (\<lambda>_.
     bindE (pf_decrement F counter m) (\<lambda>(signal, m).
     if signal then bindE (pf_channel F counter m) (\<lambda>h. Inr (m, notify N nt h))
     else Inr (m, nt))))"

definition worker_turn :: "'n platform \<Rightarrow> 'n note_ops \<Rightarrow> (fptr \<Rightarrow> ptr \<Rightarrow> 'u \<Rightarrow> 'u) \<Rightarrow> nat \<Rightarrow> ptr \<Rightarrow>
    mem \<times> 'n \<times> 'u \<Rightarrow> (mem \<times> 'n \<times> 'u) result" where
  "worker_turn F N call i task = (\<lambda>(m, nt, u).
     bindE (pf_busy F i m nt) (\<lambda>(m, nt).
     bindE (run_task (signal_by F N) call task m nt u) (\<lambda>(m, nt, u).
     bindE (pf_ready F i m nt) (\<lambda>(m, nt).
     Inr (m, nt, u)))))"

definition worker_ends :: "'n platform \<Rightarrow> 'n note_ops \<Rightarrow> (fptr \<Rightarrow> ptr \<Rightarrow> 'u \<Rightarrow> 'u) \<Rightarrow> nat \<Rightarrow> nat \<Rightarrow>
    ('n, 'u) disp_sys \<Rightarrow> (mem \<times> 'n \<times> 'u) result \<Rightarrow> bool" where
  "worker_ends F N call n i s r \<longleftrightarrow>
     (\<exists>s'. (\<lambda>s s'. worker_step F N call n i s = Some s')\<^sup>*\<^sup>* s s' \<and>
       (case r of
          Inl e \<Rightarrow> ds_worker s' i = K_Fault e
        | Inr (m, nt, u) \<Rightarrow> ds_worker s' i = K_Receive \<and> ds_mem s' = m \<and> ds_note s' = nt \<and> ds_app s' = u))"

lemma worker_ends_step:
  "worker_step F N call n i s = Some t \<Longrightarrow> worker_ends F N call n i t r \<Longrightarrow> worker_ends F N call n i s r"
  unfolding worker_ends_def by (meson converse_rtranclp_into_rtranclp)

lemma worker_ends_receive:
  "ds_worker s i = K_Receive \<Longrightarrow> worker_ends F N call n i s (Inr (ds_mem s, ds_note s, ds_app s))"
  unfolding worker_ends_def by (intro exI[of _ s]) simp

text \<open>A step that tries \<open>r\<close> fails with its error or goes on with its result.\<close>

lemma worker_ends_try:
  assumes step: "worker_step F N call n i s = worker_try i s r f"
    and rest: "\<And>x. r = Inr x \<Longrightarrow> worker_ends F N call n i (f x) (rest x)"
  shows "worker_ends F N call n i s (bindE r rest)"
proof (cases r)
  case (Inl e)
  let ?t = "to_worker i (K_Fault e) s"
  have "worker_ends F N call n i ?t (Inl e)"
    unfolding worker_ends_def by (intro exI[of _ ?t]) (simp add: to_worker_def)
  with Inl step show ?thesis by (auto simp: worker_try_def intro: worker_ends_step)
next
  case (Inr x)
  with rest[OF Inr] step show ?thesis by (auto simp: worker_try_def intro: worker_ends_step)
qed

lemma ready_ends:
  assumes "ds_worker s i = K_Ready"
  shows "worker_ends F N call n i s
     (bindE (pf_ready F i (ds_mem s) (ds_note s)) (\<lambda>(m, nt). Inr (m, nt, ds_app s)))"
proof (rule worker_ends_try)
  fix x
  show "worker_ends F N call n i (case x of (m, nt) \<Rightarrow> to_worker i K_Receive (s\<lparr>ds_mem := m, ds_note := nt\<rparr>))
      (case x of (m, nt) \<Rightarrow> Inr (m, nt, ds_app s))"
    using worker_ends_receive[of "to_worker i K_Receive (s\<lparr>ds_mem := fst x, ds_note := snd x\<rparr>)" i F N call n]
    by (cases x) (simp add: to_worker_def)
qed (use assms in \<open>simp add: worker_step_def\<close>)

text \<open>The rest of a turn after the signal, or the deletion, of the task.\<close>

abbreviation turn_end :: "'n platform \<Rightarrow> nat \<Rightarrow> 'u \<Rightarrow> mem \<times> 'n \<Rightarrow> (mem \<times> 'n \<times> 'u) result" where
  "turn_end F i u \<equiv> (\<lambda>(m, nt). bindE (pf_ready F i m nt) (\<lambda>(m, nt). Inr (m, nt, u)))"

lemma notify_ends:
  assumes "ds_worker s i = K_Notify c"
  shows "worker_ends F N call n i s
     (bindE (pf_channel F c (ds_mem s)) (\<lambda>h. turn_end F i (ds_app s) (ds_mem s, notify N (ds_note s) h)))"
proof (rule worker_ends_try)
  fix h
  show "worker_ends F N call n i (to_worker i K_Ready (s\<lparr>ds_note := notify N (ds_note s) h\<rparr>))
      (turn_end F i (ds_app s) (ds_mem s, notify N (ds_note s) h))"
    using ready_ends[of "to_worker i K_Ready (s\<lparr>ds_note := notify N (ds_note s) h\<rparr>)" i F N call n]
    by (simp add: to_worker_def)
qed (use assms in \<open>simp add: worker_step_def\<close>)

lemma signal_ends:
  assumes "ds_worker s i = K_Signal task c"
  shows "worker_ends F N call n i s
     (bindE (signal_by F N c (ds_mem s, ds_note s)) (turn_end F i (ds_app s)))"
proof -
  let ?f = "\<lambda>(signal, m). to_worker i (if signal then K_Notify c else K_Ready)
     (s\<lparr>ds_mem := m, ds_phase := (ds_phase s)(task := Finished)\<rparr>)"
  let ?rest = "\<lambda>(signal, m). bindE (if signal then bindE (pf_channel F c m) (\<lambda>h. Inr (m, notify N (ds_note s) h))
     else Inr (m, ds_note s)) (turn_end F i (ds_app s))"
  have "worker_ends F N call n i s
      (bindE (bindE (assertE (c \<noteq> NULL)) (\<lambda>_. pf_decrement F c (ds_mem s))) ?rest)"
  proof (rule worker_ends_try)
    fix x
    show "worker_ends F N call n i (?f x) (?rest x)"
      using notify_ends[of "?f (True, snd x)" i c F N call n] ready_ends[of "?f (False, snd x)" i F N call n]
      by (cases x; cases "fst x") (simp_all add: to_worker_def bindE_assoc)
  qed (use assms in \<open>simp add: worker_step_def\<close>)
  then show ?thesis by (simp add: signal_by_def bindE_assoc split_def cong: if_cong)
qed

lemma finish_ends:
  assumes "ds_worker s i = K_Finish task"
  shows "worker_ends F N call n i s
     (bindE (load_task task (ds_mem s)) (\<lambda>t.
      bindE (if task_waitable t then signal_by F N (task_private_data t) (ds_mem s, ds_note s)
             else bindE (dispatch_task_delete task (ds_mem s)) (\<lambda>m. Inr (m, ds_note s)))
        (turn_end F i (ds_app s))))"
proof (cases "load_task task (ds_mem s)")
  case (Inl e)
  have "worker_ends F N call n i s (bindE (Inl e) (\<lambda>x. Inr x))"
    by (rule worker_ends_try[where f = "\<lambda>_. s"]) (use assms Inl in \<open>simp_all add: worker_step_def worker_try_def\<close>)
  with Inl show ?thesis by simp
next
  case (Inr t)
  let ?sig = "to_worker i (K_Signal task (task_private_data t)) s"
  let ?del = "\<lambda>m. to_worker i K_Ready (s\<lparr>ds_mem := m, ds_phase := (ds_phase s)(task := Finished)\<rparr>)"
  show ?thesis
  proof (cases "task_waitable t")
    case True
    then have "worker_step F N call n i s = Some ?sig"
      using assms Inr by (simp add: worker_step_def worker_try_def)
    then show ?thesis
      using signal_ends[of ?sig i task "task_private_data t" F N call n] True Inr
      by (simp add: to_worker_def worker_ends_step)
  next
    case False
    have "worker_ends F N call n i s
        (bindE (dispatch_task_delete task (ds_mem s)) (\<lambda>m. turn_end F i (ds_app s) (m, ds_note s)))"
    proof (rule worker_ends_try[where f = ?del])
      show "worker_step F N call n i s = worker_try i s (dispatch_task_delete task (ds_mem s)) ?del"
        using assms Inr False by (simp add: worker_step_def worker_try_def bindE_def split: sum.splits)
      fix m
      show "worker_ends F N call n i (?del m) (turn_end F i (ds_app s) (m, ds_note s))"
        using ready_ends[of "?del m" i F N call n] by (simp add: to_worker_def)
    qed
    with Inr False show ?thesis by (simp add: bindE_assoc)
  qed
qed

lemma perform_ends:
  assumes "ds_worker s i = K_Perform task"
  shows "worker_ends F N call n i s
     (bindE (run_task (signal_by F N) call task (ds_mem s) (ds_note s) (ds_app s)) (\<lambda>(m, nt, u). turn_end F i u (m, nt)))"
proof -
  let ?f = "\<lambda>u. to_worker i (K_Finish task) (s\<lparr>ds_app := u, ds_done := ds_done s @ [task]\<rparr>)"
  let ?rest = "\<lambda>u. bindE (load_task task (ds_mem s)) (\<lambda>t.
      bindE (if task_waitable t then signal_by F N (task_private_data t) (ds_mem s, ds_note s)
             else bindE (dispatch_task_delete task (ds_mem s)) (\<lambda>m. Inr (m, ds_note s)))
        (turn_end F i u))"
  have "worker_ends F N call n i s (bindE (dispatch_task_perform call task (ds_mem s) (ds_app s)) ?rest)"
  proof (rule worker_ends_try[where f = ?f])
    fix u
    show "worker_ends F N call n i (?f u) (?rest u)"
      using finish_ends[of "?f u" i task F N call n] by (simp add: to_worker_def cong: if_cong)
  qed (use assms in \<open>simp add: worker_step_def\<close>)
  then show ?thesis
    by (simp add: run_task_def bindE_assoc split_def if_distrib[of "\<lambda>r. bindE r _"] cong: if_cong)
qed

lemma claim_ends:
  assumes "ds_worker s i = K_Claim task"
  shows "worker_ends F N call n i s (worker_turn F N call i task (ds_mem s, ds_note s, ds_app s))"
proof -
  let ?f = "\<lambda>(m, nt). to_worker i (K_Perform task) (s\<lparr>ds_mem := m, ds_note := nt\<rparr>)"
  have "worker_ends F N call n i s (bindE (pf_busy F i (ds_mem s) (ds_note s)) (\<lambda>(m, nt).
      bindE (run_task (signal_by F N) call task m nt (ds_app s)) (\<lambda>(m, nt, u). turn_end F i u (m, nt))))"
  proof (rule worker_ends_try[where f = ?f])
    fix x
    show "worker_ends F N call n i (?f x) (case x of (m, nt) \<Rightarrow>
        bindE (run_task (signal_by F N) call task m nt (ds_app s)) (\<lambda>(m, nt, u). turn_end F i u (m, nt)))"
      using perform_ends[of "?f x" i task F N call n] by (cases x) (simp add: to_worker_def)
  qed (use assms in \<open>simp add: worker_step_def\<close>)
  then show ?thesis by (simp add: worker_turn_def)
qed

end
