(* ===== verification/Dispatch_Queue_Metal.thy ===== *)
theory Dispatch_Queue_Metal
  imports Dispatch_Common Queue_Metal
begin

text \<open>
  The bare-metal dispatch queue, after \<open>dispatch_queue_metal.c\<close>: its sequential operations over
  the store. A worker is started by \<open>run_async\<close> of the xcore library, which is not part of
  the program: \<open>dispatch_queue_init\<close> returns what it asks that library to start, as a list of
  \<open>launch\<close>es. The channel ends and the mutex that the library hands out are arguments. The code
  under \<open>use_callers_thread\<close>, which no configuration of the repository defines, is left out.
  How the workers and the client run together is the subject of theory \<open>Dispatch_Threads\<close>.
\<close>

section \<open>Workers\<close>

definition DISPATCH_WORKER_BUSY_STATUS :: size_t where
  "DISPATCH_WORKER_BUSY_STATUS = 0"

definition DISPATCH_WORKER_READY_STATUS :: size_t where
  "DISPATCH_WORKER_READY_STATUS = 1"

section \<open>Creation\<close>

text \<open>
  The arguments of one \<open>run_async\<close>: the element of \<open>worker_data\<close> the worker gets, the block and
  the byte offset of its stack, and the size of the stack in words.
\<close>

record launch =
  la_data :: "ptr \<times> nat"
  la_stack :: ptr
  la_offset :: size_t
  la_words :: size_t

definition dispatch_queue_init_metal :: "ptr \<Rightarrow> mem \<Rightarrow> (mem \<times> launch list) result" where
  "dispatch_queue_init_metal ctx m =
     bindE (assertE (ctx \<noteq> NULL)) (\<lambda>_.
     bindE (load_dispatch_metal ctx m) (\<lambda>d.
     bindE (for_range 0 (unat (dx_thread_count d)) (\<lambda>i (m, stack_offset, ls).
       bindE (write_word (dx_thread_status d) i DISPATCH_WORKER_READY_STATUS m) (\<lambda>m.
       bindE (write_worker_metal (dx_worker_data d) i
                \<lparr>wm_status = (dx_thread_status d, i), wm_parent = ctx, wm_queue = dx_queue d\<rparr> m) (\<lambda>m.
       Inr (m, stack_offset + dx_thread_stack_size d * 4,
            ls @ [\<lparr>la_data = (dx_worker_data d, i), la_stack = dx_thread_stack d,
                   la_offset = stack_offset, la_words = dx_thread_stack_size d\<rparr>]))))
       (m, 0, [])) (\<lambda>(m, _, ls).
     Inr (m, ls))))"

definition sizeof_worker_data :: size_t where
  "sizeof_worker_data = 12"

definition dispatch_queue_create_metal ::
  "chanend \<Rightarrow> nat \<Rightarrow> size_t \<Rightarrow> size_t \<Rightarrow> size_t \<Rightarrow> mem \<Rightarrow> (ptr \<times> mem \<times> launch list) result" where
  "dispatch_queue_create_metal cend mutex len thread_count thread_stack_size m =
     (let (ctx, m) = malloc 32 m;
          d = \<lparr>dx_length = len, dx_thread_count = thread_count, dx_thread_stack_size = 0,
               dx_queue = NULL, dx_cend = cend, dx_thread_stack = NULL, dx_thread_status = NULL,
               dx_worker_data = NULL\<rparr>
      in bindE (store ctx (Dispatch_Metal d) m) (\<lambda>m.
         bindE (queue_create mutex len m) (\<lambda>(queue, m).
         let (status, m) = malloc_array 4 (\<lambda>k. Word_Array (replicate k None)) thread_count m;
             (data, m) = malloc_array sizeof_worker_data (\<lambda>k. Workers_Metal (replicate k None))
                           thread_count m;
             (stack, m) = malloc (thread_stack_size * thread_count) m
         in bindE (store ctx (Dispatch_Metal (d\<lparr>dx_queue := queue, dx_thread_status := status,
                     dx_worker_data := data, dx_thread_stack_size := thread_stack_size,
                     dx_thread_stack := stack\<rparr>)) m) (\<lambda>m.
            bindE (dispatch_queue_init_metal ctx m) (\<lambda>(m, ls).
            Inr (ctx, m, ls))))))"

section \<open>Busy workers\<close>

definition count_busy :: "dispatch_xcore \<Rightarrow> nat \<Rightarrow> nat \<Rightarrow> mem \<Rightarrow> nat result" where
  "count_busy d i busy_count m =
     bindE (read_word (dx_thread_status d) i m) (\<lambda>status.
     Inr (if status = DISPATCH_WORKER_BUSY_STATUS then Suc busy_count else busy_count))"

definition busy_workers :: "ptr \<Rightarrow> mem \<Rightarrow> nat result" where
  "busy_workers ctx m =
     bindE (load_dispatch_metal ctx m) (\<lambda>d.
     for_range 0 (unat (dx_thread_count d)) (\<lambda>i busy_count. count_busy d i busy_count m) 0)"

section \<open>Calls\<close>

text \<open>
  The calls of a client from entry to return, for an undisturbed client (theory \<open>Dispatch_Common\<close>),
  linked with the bare-metal event counter. \<open>dispatch_queue_wait\<close> returns in its first round or never.
\<close>

definition dispatch_queue_task_add_metal :: "nat \<Rightarrow> nat \<Rightarrow> ptr \<Rightarrow> ptr \<Rightarrow> 'n call_state \<Rightarrow> 'n call_state option result" where
  "dispatch_queue_task_add_metal = call_task_add event_counter_create_metal"

definition dispatch_queue_group_add_metal :: "nat \<Rightarrow> nat \<Rightarrow> ptr \<Rightarrow> ptr \<Rightarrow> 'n call_state \<Rightarrow> 'n call_state option result" where
  "dispatch_queue_group_add_metal = call_group_add event_counter_create_metal"

definition dispatch_queue_task_wait_metal :: "'n note_ops \<Rightarrow> ptr \<Rightarrow> 'n call_state \<Rightarrow> 'n call_state option result" where
  "dispatch_queue_task_wait_metal N = call_task_wait (event_counter_wait_metal N) event_counter_delete_metal"

definition dispatch_queue_group_wait_metal :: "'n note_ops \<Rightarrow> ptr \<Rightarrow> 'n call_state \<Rightarrow> 'n call_state option result" where
  "dispatch_queue_group_wait_metal N = call_group_wait (event_counter_wait_metal N) event_counter_delete_metal"

definition dispatch_queue_wait_metal :: "ptr \<Rightarrow> 'n call_state \<Rightarrow> 'n call_state option result" where
  "dispatch_queue_wait_metal ctx = (\<lambda>(m, nt, q).
     bindE (assertE (ctx \<noteq> NULL)) (\<lambda>_.
     bindE (busy_workers ctx m) (\<lambda>busy_count.
     Inr (if busy_count + length q = 0 then Some (m, nt, q) else None))))"

section \<open>Deletion\<close>

definition dispatch_queue_delete_metal ::
  "'c chan_ops \<Rightarrow> ptr \<Rightarrow> mem \<Rightarrow> 'c \<Rightarrow> (mem \<times> 'c) result option" where
  "dispatch_queue_delete_metal P ctx m c =
     (case bindE (assertE (ctx \<noteq> NULL)) (\<lambda>_.
           bindE (load_dispatch_metal ctx m) (\<lambda>d.
           bindE (assertE (dx_thread_status d \<noteq> NULL \<and> dx_worker_data d \<noteq> NULL \<and>
                    dx_thread_stack d \<noteq> NULL \<and> dx_queue d \<noteq> NULL)) (\<lambda>_.
           Inr d))) of
        Inl e \<Rightarrow> Some (Inl e)
      | Inr d \<Rightarrow>
          map_option (\<lambda>r.
            bindE r (\<lambda>(m, c).
            bindE (free (dx_thread_stack d) m) (\<lambda>m.
            bindE (free (dx_worker_data d) m) (\<lambda>m.
            bindE (free (dx_thread_status d) m) (\<lambda>m.
            bindE (free ctx m) (\<lambda>m.
            Inr (m, c)))))))
          (queue_delete P (dx_queue d) (dx_cend d) m c))"

section \<open>What creation leaves\<close>

definition worker_launch :: "dispatch_xcore \<Rightarrow> nat \<Rightarrow> launch" where
  "worker_launch d i =
     \<lparr>la_data = (dx_worker_data d, i), la_stack = dx_thread_stack d,
      la_offset = of_nat i * (dx_thread_stack_size d * 4), la_words = dx_thread_stack_size d\<rparr>"

definition worker_init :: "ptr \<Rightarrow> dispatch_xcore \<Rightarrow> nat \<Rightarrow> worker_data_metal" where
  "worker_init ctx d i =
     \<lparr>wm_status = (dx_thread_status d, i), wm_parent = ctx, wm_queue = dx_queue d\<rparr>"

lemma dispatch_queue_init_ok:
  assumes ctx: "ctx \<noteq> NULL" "heap m ctx = Some (Dispatch_Metal d)" "unat (dx_thread_count d) = k"
    and st: "dx_thread_status d \<noteq> NULL" "heap m (dx_thread_status d) = Some (Word_Array ss)"
      "length ss = k"
    and wd: "dx_worker_data d \<noteq> NULL" "heap m (dx_worker_data d) = Some (Workers_Metal ws)"
      "length ws = k"
  shows "dispatch_queue_init_metal ctx m = Inr (m\<lparr>heap := (heap m)
       (dx_thread_status d \<mapsto> Word_Array (map (\<lambda>i. Some DISPATCH_WORKER_READY_STATUS) [0..<k]),
        dx_worker_data d \<mapsto> Workers_Metal (map (\<lambda>i. Some (worker_init ctx d i)) [0..<k]))\<rparr>,
     map (worker_launch d) [0..<k])"
proof -
  let ?st = "dx_thread_status d" and ?wd = "dx_worker_data d"
  let ?m = "\<lambda>i. m\<lparr>heap := (heap m)
       (?st \<mapsto> Word_Array (map (\<lambda>i. Some DISPATCH_WORKER_READY_STATUS) [0..<i] @ drop i ss),
        ?wd \<mapsto> Workers_Metal (map (\<lambda>i. Some (worker_init ctx d i)) [0..<i] @ drop i ws))\<rparr>"
  let ?P = "\<lambda>i s. s = (?m i, of_nat i * (dx_thread_stack_size d * 4), map (worker_launch d) [0..<i])"
  let ?body = "\<lambda>i (m, stack_offset, ls).
       bindE (write_word ?st i DISPATCH_WORKER_READY_STATUS m) (\<lambda>m.
       bindE (write_worker_metal ?wd i
                \<lparr>wm_status = (?st, i), wm_parent = ctx, wm_queue = dx_queue d\<rparr> m) (\<lambda>m.
       Inr (m, stack_offset + dx_thread_stack_size d * 4,
            ls @ [\<lparr>la_data = (?wd, i), la_stack = dx_thread_stack d,
                   la_offset = stack_offset, la_words = dx_thread_stack_size d\<rparr>])))"
  have ne: "?st \<noteq> ?wd" using st(2) wd(2) by auto
  have start: "?P 0 (m, 0, [])" using st(2) wd(2) by (simp add: fun_upd_idem)
  have "\<exists>s. for_range 0 k ?body (m, 0, []) = Inr s \<and> ?P k s"
  proof (rule for_range_rule[where P = ?P])
    show "?P 0 (m, 0, [])" by (rule start)
    fix i s
    assume i: "i < k" and s: "?P i s"
    have "write_word ?st i DISPATCH_WORKER_READY_STATUS (?m i) = Inr ((?m i)\<lparr>heap := (heap (?m i))
        (?st \<mapsto> Word_Array (map (\<lambda>i. Some DISPATCH_WORKER_READY_STATUS) [0..<Suc i] @ drop (Suc i) ss))\<rparr>)"
      using i st ne fill_slots[of i ss "\<lambda>i. Some DISPATCH_WORKER_READY_STATUS"]
      by (simp add: write_word_def load_word_array_def load_def write_slot_def store_def)
    moreover have "write_worker_metal ?wd i (worker_init ctx d i) ((?m i)\<lparr>heap := (heap (?m i))
        (?st \<mapsto> Word_Array (map (\<lambda>i. Some DISPATCH_WORKER_READY_STATUS) [0..<Suc i] @ drop (Suc i) ss))\<rparr>)
      = Inr (?m (Suc i))"
      using i wd ne fill_slots[of i ws "\<lambda>i. Some (worker_init ctx d i)"]
      by (simp add: write_worker_metal_def load_workers_metal_def load_def write_slot_def store_def
          fun_upd_twist)
    ultimately show "\<exists>s'. ?body i s = Inr s' \<and> ?P (Suc i) s'"
      using s by (simp add: worker_init_def worker_launch_def distrib_right add.commute)
  qed simp
  then obtain s where "for_range 0 k ?body (m, 0, []) = Inr s" "?P k s" by blast
  then show ?thesis
    using ctx st(3) wd(3) by (simp add: dispatch_queue_init_metal_def load_dispatch_metal_def load_def)
qed

text \<open>The blocks of a new dispatch queue, from the break \<open>b\<close> of the store upwards.\<close>

definition xcore_at :: "nat \<Rightarrow> chanend \<Rightarrow> size_t \<Rightarrow> size_t \<Rightarrow> size_t \<Rightarrow> dispatch_xcore" where
  "xcore_at b cend len thread_count thread_stack_size =
     \<lparr>dx_length = len, dx_thread_count = thread_count, dx_thread_stack_size = thread_stack_size,
      dx_queue = b + 2, dx_cend = cend, dx_thread_stack = b + 8, dx_thread_status = b + 6,
      dx_worker_data = b + 7\<rparr>"

definition created_mem :: "chanend \<Rightarrow> nat \<Rightarrow> size_t \<Rightarrow> size_t \<Rightarrow> size_t \<Rightarrow> mem \<Rightarrow> mem" where
  "created_mem cend mutex len thread_count thread_stack_size m =
     (let b = brk m; k = unat thread_count;
          d = xcore_at b cend len thread_count thread_stack_size
      in m\<lparr>brk := b + 8, heap := (heap m)
       (b + 1 \<mapsto> Dispatch_Metal d,
        b + 2 \<mapsto> Queue \<lparr>q_ring_buffer = b + 3, q_cv = b + 4, q_head = 0, q_tail = 0,
            q_length = len, q_mutex = mutex, q_full = False\<rparr>,
        b + 3 \<mapsto> Ptr_Array (replicate (unat len) None),
        b + 4 \<mapsto> Cond_Var \<lparr>cv_lock = b + 5, cv_waiters = NULL\<rparr>,
        b + 5 \<mapsto> Spinlock SPINLOCK_INITIAL_VALUE,
        b + 6 \<mapsto> Word_Array (map (\<lambda>i. Some DISPATCH_WORKER_READY_STATUS) [0..<k]),
        b + 7 \<mapsto> Workers_Metal (map (\<lambda>i. Some (worker_init (b + 1) d i)) [0..<k]),
        b + 8 \<mapsto> Raw (thread_stack_size * thread_count))\<rparr>)"

lemma dispatch_queue_create_ok:
  assumes len: "0 < len" "unat len < 2 ^ 30" and count: "12 * unat thread_count < 2 ^ 32"
    and mem: "\<And>i. i < 8 \<Longrightarrow> \<not> oom m (brk m + i)"
  shows "dispatch_queue_create_metal cend mutex len thread_count thread_stack_size m =
     Inr (brk m + 1, created_mem cend mutex len thread_count thread_stack_size m,
       map (worker_launch (xcore_at (brk m) cend len thread_count thread_stack_size))
         [0..<unat thread_count])"
proof -
  let ?b = "brk m" and ?k = "unat thread_count"
  let ?d = "xcore_at ?b cend len thread_count thread_stack_size"
  let ?e = "\<lparr>dx_length = len, dx_thread_count = thread_count, dx_thread_stack_size = 0,
     dx_queue = NULL, dx_cend = cend, dx_thread_stack = NULL, dx_thread_status = NULL,
     dx_worker_data = NULL\<rparr>"
  let ?mq = "m\<lparr>brk := Suc ?b, heap := (heap m)(Suc ?b \<mapsto> Dispatch_Metal ?e)\<rparr>"
  have nooom: "\<not> oom m ?b" "\<not> oom m (?b + 5)" "\<not> oom m (?b + 6)" "\<not> oom m (?b + 7)"
    using mem[of 0] mem[of 5] mem[of 6] mem[of 7] by simp_all
  have m1: "\<And>i. i < 4 \<Longrightarrow> \<not> oom ?mq (brk ?mq + i)" using mem[of "Suc _"] by simp
  have slots: "unat (4 * thread_count) div unat (4 :: size_t) = ?k"
    "unat (sizeof_worker_data * thread_count) div unat sizeof_worker_data = ?k"
    using count array_slots[of 4 thread_count] array_slots[of sizeof_worker_data thread_count]
    by (simp_all add: sizeof_worker_data_def)
  define m2 where "m2 = m\<lparr>brk := ?b + 5, heap := (heap m)
       (?b + 1 \<mapsto> Dispatch_Metal ?e,
        ?b + 2 \<mapsto> Queue \<lparr>q_ring_buffer = ?b + 3, q_cv = ?b + 4, q_head = 0, q_tail = 0,
            q_length = len, q_mutex = mutex, q_full = False\<rparr>,
        ?b + 3 \<mapsto> Ptr_Array (replicate (unat len) None),
        ?b + 4 \<mapsto> Cond_Var \<lparr>cv_lock = ?b + 5, cv_waiters = NULL\<rparr>,
        ?b + 5 \<mapsto> Spinlock SPINLOCK_INITIAL_VALUE)\<rparr>"
  define m5 where "m5 = m2\<lparr>brk := ?b + 8, heap := (heap m2)
       (?b + 1 \<mapsto> Dispatch_Metal ?d, ?b + 6 \<mapsto> Word_Array (replicate ?k None),
        ?b + 7 \<mapsto> Workers_Metal (replicate ?k None),
        ?b + 8 \<mapsto> Raw (thread_stack_size * thread_count))\<rparr>"
  have q: "queue_create mutex len ?mq = Inr (?b + 2, m2)"
    using queue_create_ok[OF len m1, of mutex] by (simp add: m2_def numeral_eq_Suc)
  have init: "dispatch_queue_init_metal (?b + 1) m5 =
      Inr (created_mem cend mutex len thread_count thread_stack_size m, map (worker_launch ?d) [0..<?k])"
    using dispatch_queue_init_ok[of "?b + 1" m5 ?d ?k "replicate ?k None" "replicate ?k None"]
    by (simp add: m5_def m2_def xcore_at_def created_mem_def Let_def fun_upd_twist)
  have "dispatch_queue_create_metal cend mutex len thread_count thread_stack_size m =
      bindE (dispatch_queue_init_metal (?b + 1) m5) (\<lambda>(m, ls). Inr (?b + 1, m, ls))"
    using nooom q slots
    by (simp add: dispatch_queue_create_metal_def malloc_ok store_def malloc_array_ok m5_def m2_def
        xcore_at_def Let_def numeral_eq_Suc fun_upd_twist)
  with init show ?thesis by simp
qed

text \<open>\<open>busy_workers\<close> is the number of flags that say busy.\<close>

lemma busy_workers_rep:
  assumes "ctx \<noteq> NULL" "heap m ctx = Some (Dispatch_Metal d)" "unat (dx_thread_count d) = length ss"
    "dx_thread_status d \<noteq> NULL" "heap m (dx_thread_status d) = Some (Word_Array (map Some ss))"
  shows "busy_workers ctx m = Inr (length (filter (\<lambda>w. w = DISPATCH_WORKER_BUSY_STATUS) ss))"
proof -
  let ?body = "\<lambda>i busy_count.
       bindE (read_word (dx_thread_status d) i m) (\<lambda>status.
       Inr (if status = DISPATCH_WORKER_BUSY_STATUS then Suc busy_count else busy_count))"
  let ?P = "\<lambda>i b. b = length (filter (\<lambda>w. w = DISPATCH_WORKER_BUSY_STATUS) (take i ss))"
  have "\<exists>b. for_range 0 (length ss) ?body 0 = Inr b \<and> ?P (length ss) b"
  proof (rule for_range_rule[where P = ?P])
    fix i b
    assume "i < length ss" "?P i b"
    moreover from this have "read_word (dx_thread_status d) i m = Inr (ss ! i)"
      using assms(4,5) by (simp add: read_word_def load_word_array_def load_def read_slot_def)
    ultimately show "\<exists>b'. ?body i b = Inr b' \<and> ?P (Suc i) b'"
      by (simp add: take_Suc_conv_app_nth)
  qed simp_all
  then show ?thesis
    using assms(1-3) by (auto simp: busy_workers_def count_busy_def load_dispatch_metal_def load_def)
qed

section \<open>Properties\<close>

text \<open>Creating a bare-metal dispatch queue. For a positive length, a worker count whose arrays
  do not wrap and enough memory, creation succeeds: the queue is empty and has the length
  asked for; exactly \<open>thread_count\<close> workers are launched, the \<open>i\<close>-th on its own element of
  \<open>worker_data\<close>, which holds the queue and the address of the \<open>i\<close>-th status flag; and all flags
  say ready, so that \<open>busy_workers\<close> is zero.\<close>

theorem dispatch_queue_create_workers:
  assumes "0 < len" "unat len < 2 ^ 30" and "12 * unat thread_count < 2 ^ 32"
    and "\<And>i. i < 8 \<Longrightarrow> \<not> oom m (brk m + i)"
  shows "\<exists>ctx m' ls d ws. dispatch_queue_create_metal cend mutex len thread_count thread_stack_size m =
       Inr (ctx, m', ls) \<and>
     heap m' ctx = Some (Dispatch_Metal d) \<and> queue_rep m' (dx_queue d) (unat len) [] \<and>
     length ls = unat thread_count \<and> heap m' (dx_worker_data d) = Some (Workers_Metal ws) \<and>
     (\<forall>i < unat thread_count. la_data (ls ! i) = (dx_worker_data d, i) \<and>
        ws ! i = Some \<lparr>wm_status = (dx_thread_status d, i), wm_parent = ctx, wm_queue = dx_queue d\<rparr>) \<and>
     busy_workers ctx m' = Inr 0"
proof -
  let ?b = "brk m" and ?m = "created_mem cend mutex len thread_count thread_stack_size m"
  let ?d = "xcore_at ?b cend len thread_count thread_stack_size"
  have "0 < unat len" using assms(1) by (simp add: word_less_nat_alt)
  then have "queue_rep ?m (dx_queue ?d) (unat len) []"
    by (simp add: queue_rep_def created_mem_def Let_def xcore_at_def)
  moreover have "busy_workers (?b + 1) ?m = Inr 0"
    using busy_workers_rep[of "?b + 1" ?m ?d
        "map (\<lambda>i. DISPATCH_WORKER_READY_STATUS) [0..<unat thread_count]"]
    by (simp add: created_mem_def Let_def xcore_at_def comp_def DISPATCH_WORKER_READY_STATUS_def
        DISPATCH_WORKER_BUSY_STATUS_def)
  moreover have "heap ?m (?b + 1) = Some (Dispatch_Metal ?d)"
    "heap ?m (dx_worker_data ?d) =
      Some (Workers_Metal (map (\<lambda>i. Some (worker_init (?b + 1) ?d i)) [0..<unat thread_count]))"
    by (simp_all add: created_mem_def Let_def xcore_at_def)
  ultimately show ?thesis
    using dispatch_queue_create_ok[OF assms, of cend mutex thread_stack_size]
    by (simp add: worker_launch_def worker_init_def)
qed

theorem dispatch_queue_create_workers_witness:
  "\<exists>ctx m' ls. dispatch_queue_create_metal 9 0 4 3 1000 empty_mem = Inr (ctx, m', ls) \<and>
     length ls = 3 \<and> busy_workers ctx m' = Inr 0"
  using dispatch_queue_create_workers[of 4 3 empty_mem 9 0 1000] by auto

text \<open>C30: the worker stacks do not fit. The header gives \<open>thread_stack_size\<close> in words and
  \<open>run_async\<close> is told so, but \<open>dispatch_queue_create\<close> allocates \<open>thread_stack_size * thread_count\<close>
  bytes. Whenever there is a worker with a stack, the stack of the last worker ends beyond the
  allocated block; with two workers or more it starts beyond it.\<close>

theorem dispatch_stacks_overflow:
  assumes "0 < len" "unat len < 2 ^ 30" and "12 * unat thread_count < 2 ^ 32"
    and "\<And>i. i < 8 \<Longrightarrow> \<not> oom m (brk m + i)"
    and "0 < thread_count" "0 < thread_stack_size"
    and "4 * (unat thread_stack_size * unat thread_count) < 2 ^ 32"
  shows "\<exists>ctx m' ls size. dispatch_queue_create_metal cend mutex len thread_count thread_stack_size m =
       Inr (ctx, m', ls) \<and> heap m' (la_stack (last ls)) = Some (Raw size) \<and>
     unat size < unat (la_offset (last ls)) + 4 * unat (la_words (last ls)) \<and>
     (2 \<le> unat thread_count \<longrightarrow> unat size \<le> unat (la_offset (last ls)))"
proof -
  let ?k = "unat thread_count" and ?s = "unat thread_stack_size" and ?b = "brk m"
  let ?d = "xcore_at ?b cend len thread_count thread_stack_size"
  let ?off = "of_nat (?k - 1) * (thread_stack_size * 4) :: size_t"
  have pos: "0 < ?k" "0 < ?s" using assms(5,6) by (simp_all add: word_less_nat_alt)
  have le: "(?k - 1) * (?s * 4) \<le> 4 * (?s * ?k)" by (simp add: diff_le_self)
  have "?s * 1 \<le> ?s * ?k" using pos by (intro mult_le_mono) simp_all
  then have "?s * 4 < 2 ^ 32" using assms(7) by linarith
  then have s4: "unat (thread_stack_size * 4) = ?s * 4" by (simp add: unat_word_ariths)
  have km: "unat (of_nat (?k - 1) :: size_t) = ?k - 1"
    using unsigned_less[of thread_count, where 'a = nat] by (simp add: unat_of_nat)
  have "(?k - 1) * (?s * 4) < 2 ^ 32" using le assms(7) by linarith
  then have off: "unat ?off = (?k - 1) * (?s * 4)"
    using unat_mult_lem[of "of_nat (?k - 1) :: size_t" "thread_stack_size * 4"]
    unfolding km s4 by simp
  have "?s * ?k < 2 ^ 32" using assms(7) by linarith
  then have size: "unat (thread_stack_size * thread_count) = ?s * ?k"
    using unat_mult_lem[of thread_stack_size thread_count] by simp
  obtain j where j: "?k = Suc j" using pos(1) by (cases ?k) auto
  have ends: "?s * ?k < (?k - 1) * (?s * 4) + 4 * ?s" using pos(2) j by (simp add: algebra_simps)
  have starts: "?s * ?k \<le> (?k - 1) * (?s * 4)" if "2 \<le> ?k"
  proof -
    have "?k \<le> (?k - 1) * 4" using that by simp
    then have "?s * ?k \<le> ?s * ((?k - 1) * 4)" by (rule mult_le_mono2)
    then show ?thesis by (simp add: ac_simps)
  qed
  let ?l = "last (map (worker_launch ?d) [0..<?k])"
  have "?l = worker_launch ?d (?k - 1)" using j by simp
  then have "la_stack ?l = ?b + 8" "la_offset ?l = ?off" "la_words ?l = thread_stack_size"
    by (simp_all only: worker_launch_def xcore_at_def launch.simps dispatch_xcore.simps)
  moreover have "heap (created_mem cend mutex len thread_count thread_stack_size m) (?b + 8) =
      Some (Raw (thread_stack_size * thread_count))"
    by (simp add: created_mem_def Let_def)
  ultimately show ?thesis
    using dispatch_queue_create_ok[OF assms(1-4), of cend mutex thread_stack_size] off size ends starts
    by (metis (no_types, lifting))
qed

theorem dispatch_stacks_overflow_witness:
  "\<exists>ctx m' ls size. dispatch_queue_create_metal 9 0 4 3 1000 empty_mem = Inr (ctx, m', ls) \<and>
     heap m' (la_stack (last ls)) = Some (Raw size) \<and> unat size \<le> unat (la_offset (last ls))"
  using dispatch_stacks_overflow[of 4 3 empty_mem 1000 9 0] by auto

text \<open>C31: creating a bare-metal dispatch queue and deleting it again, before any worker has come to
  wait, gives back every block of memory that the creation took.\<close>

theorem dispatch_queue_create_delete:
  assumes ok: "mem_ok m" and args: "0 < len" "unat len < 2 ^ 30" "12 * unat thread_count < 2 ^ 32"
    and mem: "\<And>i. i < 8 \<Longrightarrow> \<not> oom m (brk m + i)" and laws: "chan_laws P inbox"
  shows "\<exists>ctx m1 ls m2 c2.
     dispatch_queue_create_metal cend mutex len thread_count thread_stack_size m = Inr (ctx, m1, ls) \<and>
     dispatch_queue_delete_metal P ctx m1 c = Some (Inr (m2, c2)) \<and> heap m2 = heap m"
proof -
  let ?b = "brk m" and ?m = "created_mem cend mutex len thread_count thread_stack_size m"
  let ?bs = "[?b + 2, ?b + 3, ?b + 4, ?b + 5]"
  have cv: "cv_rep ?m (?bs ! 2) []" by (simp add: cv_rep_def created_mem_def Let_def)
  have "queue_blocks ?m (?b + 2) ?bs" by (simp add: queue_blocks_def created_mem_def Let_def)
  from queue_delete_ok[OF laws this cv, of cend c] obtain m2 c2 where
    del: "queue_delete P (?b + 2) cend ?m c = Some (Inr (m2, c2))"
      "heap m2 = (heap ?m) |` (- set ?bs)" by blast
  let ?m' = "m2\<lparr>heap := (heap m2)(?b + 8 := None, ?b + 7 := None, ?b + 6 := None, ?b + 1 := None)\<rparr>"
  have live: "heap m2 (?b + 8) \<noteq> None" "heap m2 (?b + 7) \<noteq> None" "heap m2 (?b + 6) \<noteq> None"
    "heap m2 (?b + 1) \<noteq> None"
    by (simp_all add: del(2) created_mem_def Let_def)
  have "dispatch_queue_delete_metal P (?b + 1) ?m c = Some (Inr (?m', c2))"
    using del(1) live
    by (simp add: dispatch_queue_delete_metal_def load_dispatch_metal_def load_def created_mem_def
        Let_def xcore_at_def free_def)
  moreover have "heap ?m' = heap m"
    using ok by (auto simp: del(2) fun_eq_iff restrict_map_def created_mem_def Let_def mem_ok_def)
  ultimately show ?thesis
    using dispatch_queue_create_ok[OF args mem, of cend mutex thread_stack_size] by auto
qed

theorem dispatch_queue_create_delete_witness:
  "\<exists>ctx m1 ls m2 c2. dispatch_queue_create_metal 9 0 4 3 1000 empty_mem = Inr (ctx, m1, ls) \<and>
     dispatch_queue_delete_metal list_chans ctx m1 (\<lambda>_. 0, \<lambda>_. []) = Some (Inr (m2, c2)) \<and>
     heap m2 = Map.empty"
  using dispatch_queue_create_delete[of empty_mem 4 3 list_chans snd 9 0 1000 "(\<lambda>_. 0, \<lambda>_. [])"]
  by (auto simp: list_chans_laws)

end
