(* ===== verification/Dispatch_Metal.thy ===== *)
theory Dispatch_Metal
  imports Dispatch_Effects Dispatch_Calls Dispatch_Queue_Metal
begin

text \<open>
  The running dispatch queue of the bare-metal target: the system of theory \<open>Dispatch_Threads\<close> over
  the primitives of \<open>dispatch_queue_metal.c\<close>, the bare-metal event counter and the array of status
  flags. It interprets the contract \<open>dispatch_platform\<close>; the properties are the promises of theory
  \<open>Dispatch_Promises\<close> for this platform, with a small system in which their hypotheses hold.
\<close>

section \<open>The platform\<close>

text \<open>
  A worker stores its status in its element of the array at \<open>st\<close>. \<open>dispatch_queue_wait\<close> counts the
  busy workers, then adds the tasks in the queue, and starts again unless the sum is zero.
\<close>

definition poll_metal :: "ptr \<Rightarrow> client_pc \<Rightarrow> nat \<Rightarrow> mem \<Rightarrow> client_pc option result" where
  "poll_metal ctx c waiting_count m =
     (case c of
        C_Busy i b \<Rightarrow>
          bindE (load_dispatch_metal ctx m) (\<lambda>d.
          if i < unat (dx_thread_count d) then
            bindE (count_busy d i b m) (\<lambda>b. Inr (Some (C_Busy (Suc i) b)))
          else Inr (Some (C_Size b)))
      | C_Size b \<Rightarrow> Inr (Some (if b + waiting_count = 0 then C_Idle else C_Busy 0 0))
      | _ \<Rightarrow> Inr None)"

definition metal_platform :: "'n note_ops \<Rightarrow> ptr \<Rightarrow> ptr \<Rightarrow> 'n platform" where
  "metal_platform N ctx st =
     \<lparr>pf_create = event_counter_create_metal,
      pf_decrement = event_counter_decrement_metal,
      pf_channel = (\<lambda>c m. bindE (load_counter_metal c m) (\<lambda>cm. Inr (ec_cend cm))),
      pf_wait = event_counter_wait_metal N,
      pf_delete = event_counter_delete_metal,
      pf_busy = (\<lambda>i m nt. bindE (write_word st i DISPATCH_WORKER_BUSY_STATUS m) (\<lambda>m. Inr (m, nt))),
      pf_ready = (\<lambda>i m nt. bindE (write_word st i DISPATCH_WORKER_READY_STATUS m) (\<lambda>m. Inr (m, nt))),
      pf_poll = (\<lambda>c waiting_count m nt. poll_metal ctx c waiting_count m)\<rparr>"

lemma metal_platform_simps [simp]:
  "pf_create (metal_platform N ctx st) = event_counter_create_metal"
  "pf_decrement (metal_platform N ctx st) = event_counter_decrement_metal"
  "pf_channel (metal_platform N ctx st) c m = bindE (load_counter_metal c m) (\<lambda>cm. Inr (ec_cend cm))"
  "pf_wait (metal_platform N ctx st) = event_counter_wait_metal N"
  "pf_delete (metal_platform N ctx st) = event_counter_delete_metal"
  "pf_busy (metal_platform N ctx st) i m nt =
     bindE (write_word st i DISPATCH_WORKER_BUSY_STATUS m) (\<lambda>m. Inr (m, nt))"
  "pf_ready (metal_platform N ctx st) i m nt =
     bindE (write_word st i DISPATCH_WORKER_READY_STATUS m) (\<lambda>m. Inr (m, nt))"
  "pf_poll (metal_platform N ctx st) pc waiting_count m nt = poll_metal ctx pc waiting_count m"
  by (simp_all add: metal_platform_def)

text \<open>The store holds the dispatch queue at \<open>ctx\<close> and its \<open>k\<close> status flags at \<open>st\<close>.\<close>

definition metal_env :: "ptr \<Rightarrow> ptr \<Rightarrow> nat \<Rightarrow> mem \<Rightarrow> 'n \<Rightarrow> bool" where
  "metal_env ctx st k m nt \<longleftrightarrow> mem_ok m \<and> ctx \<noteq> NULL \<and> st \<noteq> NULL \<and>
     (\<exists>d ss. heap m ctx = Some (Dispatch_Metal d) \<and> dx_thread_status d = st \<and>
        unat (dx_thread_count d) = k \<and> heap m st = Some (Word_Array (map Some ss)) \<and> length ss = k)"

lemma status_write:
  assumes env: "metal_env ctx st k m nt" and i: "i < k"
  obtains m' where "write_word st i v m = Inr m'" "metal_env ctx st k m' nt" "differs word_array m m'"
proof -
  from env obtain d ss where a: "mem_ok m" "ctx \<noteq> NULL" "st \<noteq> NULL"
    "heap m ctx = Some (Dispatch_Metal d)" "dx_thread_status d = st" "unat (dx_thread_count d) = k"
    "heap m st = Some (Word_Array (map Some ss))" "length ss = k" by (auto simp: metal_env_def)
  let ?m = "m\<lparr>heap := (heap m)(st \<mapsto> Word_Array (map Some (ss[i := v])))\<rparr>"
  have "write_word st i v m = Inr ?m"
    using a i by (simp add: write_word_def load_word_array_def load_def write_slot_def store_def
        map_update)
  moreover have "mem_ok ?m" using a(1,7) by (rule mem_ok_upd)
  then have "metal_env ctx st k ?m nt" using a unfolding metal_env_def by (auto intro!: exI[of _ "ss[i := v]"])
  moreover have "differs word_array m ?m" using a by (simp add: differs_def)
  ultimately show thesis by (rule that)
qed

lemma metal_poll_env:
  assumes "metal_env ctx st k m nt"
  shows "poll_metal ctx (C_Busy i b) q m = Inr (Some (C_Size b)) \<or>
     (\<exists>b'. poll_metal ctx (C_Busy i b) q m = Inr (Some (C_Busy (Suc i) b')))"
proof -
  from assms obtain d ss where "ctx \<noteq> NULL" "st \<noteq> NULL" "heap m ctx = Some (Dispatch_Metal d)"
    "dx_thread_status d = st" "unat (dx_thread_count d) = k" "heap m st = Some (Word_Array (map Some ss))"
    "length ss = k" by (auto simp: metal_env_def)
  then show ?thesis
    by (cases "i < k")
      (auto simp: poll_metal_def count_busy_def load_dispatch_metal_def load_def read_word_def
        load_word_array_def read_slot_def)
qed

text \<open>The bare-metal event counter keeps the contract.\<close>

lemma metal_create:
  assumes "mem_ok m" "\<not> oom m (brk m)" "\<not> oom m (Suc (brk m))"
  shows "\<exists>c m' v. event_counter_create_metal h cnt m = Inr (c, m') \<and> counter_added Metal_Counter m m' c v \<and>
     vw_chan v = h \<and> vw_count v = cnt"
proof -
  let ?c = "Suc (brk m)"
  let ?v = "\<lparr>vw_chan = h, vw_count = cnt, vw_lock = Suc ?c\<rparr>"
  let ?m = "m\<lparr>brk := Suc ?c, heap := (heap m)
       (?c \<mapsto> Counter_Metal \<lparr>ec_lock = Suc ?c, ec_cend = h, ec_count = cnt\<rparr>,
        Suc ?c \<mapsto> Spinlock SPINLOCK_INITIAL_VALUE)\<rparr>"
  have "counter_added Metal_Counter m ?m ?c ?v" using assms(1) by (auto simp: counter_added_def counter_at_def mem_ok_def)
  then show ?thesis
    using event_counter_create_metal_ok[OF assms(2,3), of h cnt]
    by (intro exI[of _ ?c] exI[of _ ?m] exI[of _ ?v]) simp
qed

lemma metal_counterE:
  assumes "counter_at Metal_Counter m c v" and "mem_ok m"
  obtains cm w where "heap m c = Some (Counter_Metal cm)" "heap m (ec_lock cm) = Some (Spinlock w)"
    "v = \<lparr>vw_chan = ec_cend cm, vw_count = ec_count cm, vw_lock = ec_lock cm\<rparr>" "c \<noteq> NULL"
    "ec_lock cm \<noteq> NULL" "ec_lock cm \<noteq> c"
  using assms mem_ok_live[OF assms(2)] by (fastforce simp: counter_at_def)

lemma metal_decrement:
  assumes ok: "mem_ok m" and c: "counter_at Metal_Counter m c v" and "vw_count v > 0"
  shows "\<exists>m'. event_counter_decrement_metal c m = Inr (vw_count v - 1 = 0, m') \<and> mem_ok m' \<and>
     counter_at Metal_Counter m' c (v\<lparr>vw_count := vw_count v - 1\<rparr>) \<and> brk m' = brk m \<and> (\<forall>p. p \<noteq> c \<longrightarrow> heap m' p = heap m p)"
  using c ok
proof (rule metal_counterE)
  fix cm w
  assume a: "heap m c = Some (Counter_Metal cm)" "heap m (ec_lock cm) = Some (Spinlock w)"
    "v = \<lparr>vw_chan = ec_cend cm, vw_count = ec_count cm, vw_lock = ec_lock cm\<rparr>" "c \<noteq> NULL" "ec_lock cm \<noteq> c"
  let ?m = "m\<lparr>heap := (heap m)(c \<mapsto> Counter_Metal (cm\<lparr>ec_count := ec_count cm - 1\<rparr>))\<rparr>"
  have "event_counter_decrement_metal c m = Inr (vw_count v - 1 = 0, ?m)"
    using a assms(3)
    by (simp add: event_counter_decrement_metal_def load_counter_metal_def load_def store_def)
  moreover have "mem_ok ?m" using ok a(1) by (rule mem_ok_upd)
  ultimately show ?thesis using a by (intro exI[of _ ?m]) (simp add: counter_at_def)
qed

lemma metal_delete:
  assumes ok: "mem_ok m" and c: "counter_at Metal_Counter m c v"
  shows "event_counter_delete_metal c m = Inr (m\<lparr>heap := (heap m) |` (- {c, vw_lock v})\<rparr>)"
  using c ok
  by (rule metal_counterE)
    (auto simp: event_counter_delete_metal_def load_counter_metal_def load_def spinlock_delete_def
      free_def restrict_map_def fun_eq_iff)

lemma metal_channel:
  assumes "mem_ok m" "counter_at Metal_Counter m c v"
  shows "bindE (load_counter_metal c m) (\<lambda>cm. Inr (ec_cend cm)) = Inr (vw_chan v)"
    and "event_counter_wait_metal N c m nt = Inr (await N nt (vw_chan v))"
  by (rule metal_counterE[OF assms(2,1)],
      simp add: load_counter_metal_def load_def event_counter_wait_metal_def)+

lemma metal_poll:
  assumes "metal_env ctx st k m nt" "polling c"
  shows "\<exists>r. poll_metal ctx c q m = Inr r \<and> (\<forall>c'. r = Some c' \<longrightarrow> polling c' \<or> c' = C_Idle)"
  using assms(2)
proof (cases c)
  case (C_Busy i b)
  then show ?thesis using metal_poll_env[OF assms(1), of i b q] by (auto simp: polling_def)
qed (auto simp: polling_def poll_metal_def)

lemma metal_env_store:
  assumes "metal_env ctx st k m nt" "mem_ok m'" and d: "differs transient m m'"
  shows "metal_env ctx st k m' nt"
  using assms(1,2) differs_keep[OF d] by (auto simp: metal_env_def transient_def)

lemma metal_status:
  assumes "metal_env ctx st k m nt" "i < k"
  shows "\<exists>m' nt'. bindE (write_word st i v m) (\<lambda>m. Inr (m, nt)) = Inr (m', nt') \<and> metal_env ctx st k m' nt' \<and>
     differs word_array m m' \<and> tokens nt' = tokens nt"
proof -
  obtain m' where "write_word st i v m = Inr m'" "metal_env ctx st k m' nt" "differs word_array m m'"
    using assms by (rule status_write)
  then show ?thesis by (intro exI[of _ m'] exI[of _ nt]) simp
qed

interpretation metal: dispatch_platform Metal_Counter "metal_platform N ctx st" N tokens
  "metal_env ctx st k" ctx k "note_laws N tokens" for N tokens ctx st k
  apply unfold_locales
  apply (unfold metal_platform_simps)
  subgoal .
  subgoal by (rule metal_create)
  subgoal by (rule metal_decrement)
  subgoal by (rule metal_channel)
  subgoal by (rule metal_channel)
  subgoal by (rule metal_delete)
  subgoal by (rule metal_status)
  subgoal by (rule metal_status)
  subgoal by (rule metal_poll)
  subgoal by (simp add: metal_env_def)
  subgoal by (rule metal_env_store)
  subgoal by (simp add: metal_env_def)
  subgoal by (simp add: metal_env_def)
  done

section \<open>Reachable states\<close>

definition metal_reach :: "'n note_ops \<Rightarrow> ('n \<Rightarrow> nat \<Rightarrow> nat) \<Rightarrow> (fptr \<Rightarrow> ptr \<Rightarrow> 'u \<Rightarrow> 'u) \<Rightarrow> ptr \<Rightarrow> ptr \<Rightarrow> nat \<Rightarrow> nat \<Rightarrow>
    ('n, 'u) disp_sys \<Rightarrow> bool" where
  "metal_reach N tokens call ctx st k n =
     disp_reach (metal_platform N ctx st) N tokens (metal_env ctx st k) call ctx k n"

text \<open>A system starts with all flags ready, as \<open>dispatch_queue_create\<close> leaves them.\<close>

definition metal_init :: "ptr \<Rightarrow> ptr \<Rightarrow> nat \<Rightarrow> ('n, 'u) disp_sys \<Rightarrow> bool" where
  "metal_init ctx st k s \<longleftrightarrow> disp_init (metal_env ctx st k) s \<and>
     heap (ds_mem s) st = Some (Word_Array (replicate k (Some DISPATCH_WORKER_READY_STATUS)))"

definition metal_run :: "'n note_ops \<Rightarrow> ('n \<Rightarrow> nat \<Rightarrow> nat) \<Rightarrow> (fptr \<Rightarrow> ptr \<Rightarrow> 'u \<Rightarrow> 'u) \<Rightarrow> ptr \<Rightarrow> ptr \<Rightarrow> nat \<Rightarrow> nat \<Rightarrow>
    ('n, 'u) disp_sys \<Rightarrow> bool" where
  "metal_run N tokens call ctx st k n =
     reach (metal_init ctx st k) (disp_step (metal_platform N ctx st) N tokens call ctx k n)"

lemma metal_run_disp_reach:
  assumes "metal_run N tokens call ctx st k n s"
  shows "disp_reach (metal_platform N ctx st) N tokens (metal_env ctx st k) call ctx k n s"
  using assms unfolding metal_run_def disp_reach_def
  by (induction rule: reach.induct) (auto simp: metal_init_def intro: reach.intros)

lemmas metal_run_reach = metal_run_disp_reach[folded metal_reach_def]

section \<open>A small system\<close>

text \<open>One worker, room for one task, a waitable task and one that is not.\<close>

definition demo_mem :: mem where
  "demo_mem = \<lparr>brk = 9, oom = (\<lambda>_. False), heap = [
     1 \<mapsto> Dispatch_Metal \<lparr>dx_length = 1, dx_thread_count = 1, dx_thread_stack_size = 64, dx_queue = 9,
       dx_cend = 0, dx_thread_stack = 9, dx_thread_status = 2, dx_worker_data = 9\<rparr>,
     2 \<mapsto> Word_Array [Some DISPATCH_WORKER_READY_STATUS],
     3 \<mapsto> Task \<lparr>task_function = 7, task_argument = NULL, task_waitable = True, task_private_data = NULL\<rparr>,
     4 \<mapsto> Task \<lparr>task_function = 7, task_argument = NULL, task_waitable = False, task_private_data = NULL\<rparr>]\<rparr>"

definition demo_sys :: "(nat \<Rightarrow> nat, nat) disp_sys" where
  "demo_sys = \<lparr>ds_mem = demo_mem, ds_note = (\<lambda>_. 0), ds_app = 0, ds_queue = [],
     ds_worker = (\<lambda>_. K_Receive), ds_client = C_Idle, ds_todo = [], ds_phase = (\<lambda>_. Unknown),
     ds_batch = (\<lambda>_. None), ds_sent = [], ds_done = []\<rparr>"

definition demo_call :: "fptr \<Rightarrow> ptr \<Rightarrow> nat \<Rightarrow> nat" where
  "demo_call f a u = u + 1"

definition demo_platform :: "(nat \<Rightarrow> nat) platform" where
  "demo_platform = metal_platform binary_notes 1 2"

abbreviation demo_schedule :: "nat option list \<Rightarrow> (nat \<Rightarrow> nat, nat) disp_sys \<Rightarrow> (nat \<Rightarrow> nat, nat) disp_sys option" where
  "demo_schedule \<equiv> schedule demo_platform binary_notes demo_call 1"

abbreviation demo_reach :: "(nat \<Rightarrow> nat, nat) disp_sys \<Rightarrow> bool" where
  "demo_reach \<equiv> metal_reach binary_notes (\<lambda>n. n) demo_call 1 2 1 1"

lemma demo_step:
  "demo_reach s \<Longrightarrow> disp_step demo_platform binary_notes (\<lambda>n. n) demo_call 1 1 1 s s' \<Longrightarrow> demo_reach s'"
  unfolding metal_reach_def demo_platform_def by (rule disp_reach_step)

lemma demo_init: "disp_init (metal_env 1 2 1) demo_sys"
  by (auto simp: disp_init_def metal_env_def demo_sys_def demo_mem_def mem_ok_def
      intro: exI[of _ "[DISPATCH_WORKER_READY_STATUS]"])

lemma demo_fresh: "fresh_channel (\<lambda>n. n) 6 demo_sys"
  by (auto simp: fresh_channel_def demo_sys_def demo_mem_def split: if_splits)

text \<open>The client has added the task at \<open>p\<close>.\<close>

definition demo_added :: "ptr \<Rightarrow> (nat \<Rightarrow> nat, nat) disp_sys" where
  "demo_added p = the (client_try demo_sys (bindE (task_add_prepare event_counter_create_metal 6 1 p demo_mem) (\<lambda>m.
                  bindE (load_task p m) (\<lambda>t. Inr (m, task_private_data t))))
      (\<lambda>(m, counter). Some (add_tasks [p] (p = 3) counter
         (demo_sys\<lparr>ds_mem := m, ds_client := C_Send p C_Idle\<rparr>))))"

lemma demo_added_step:
  assumes "p = 3 \<or> p = 4"
  shows "disp_step demo_platform binary_notes (\<lambda>n. n) demo_call 1 1 1 demo_sys (demo_added p)"
proof (rule disp_step.task_add[where w = "p = 3" and task = p and h = 6])
  have "ds_mem demo_sys = demo_mem" by (simp add: demo_sys_def)
  then show "enter_task_add demo_platform 6 1 p (p = 3) demo_sys = Some (demo_added p)"
    by (auto simp: demo_added_def client_try_def demo_platform_def split: sum.splits)
  show "new_task demo_sys (p = 3) p" using assms by (auto simp: new_task_def demo_sys_def demo_mem_def)
qed (use demo_fresh in \<open>auto simp: demo_sys_def\<close>)

lemma demo_added_reach:
  assumes "p = 3 \<or> p = 4"
  shows "demo_reach (demo_added p)"
proof -
  have "demo_reach demo_sys" unfolding metal_reach_def disp_reach_def using demo_init by (rule reach_init)
  then show ?thesis using demo_added_step[OF assms] by (rule demo_step)
qed

lemma schedule_demo:
  assumes "demo_reach s" "set es \<subseteq> {None, Some 0}"
    "demo_schedule es s \<noteq> None"
  shows "demo_reach (the (demo_schedule es s))"
proof -
  obtain s' where s': "demo_schedule es s = Some s'" using assms(3) by blast
  have "\<forall>i. Some i \<in> set es \<longrightarrow> i < 1" using assms(2) by blast
  with schedule_reach[OF assms(1)[unfolded metal_reach_def, folded demo_platform_def] s'] s' show ?thesis
    by (simp add: metal_reach_def demo_platform_def)
qed

text \<open>It has sent the waitable task and waits for it; the worker has performed it.\<close>

definition demo_waiting :: "(nat \<Rightarrow> nat, nat) disp_sys" where
  "demo_waiting = (the (client_step demo_platform 1 (demo_added 3)))\<lparr>ds_client := C_Await (For_Task 3) 10\<rparr>"

definition demo_released :: "(nat \<Rightarrow> nat, nat) disp_sys" where
  "demo_released = the (demo_schedule
     [Some 0, Some 0, Some 0, Some 0, Some 0, Some 0, None] demo_waiting)"

lemmas demo_simps = demo_added_def demo_sys_def demo_mem_def client_try_def task_add_prepare_def
  load_task_def load_def store_def event_counter_create_metal_ok add_tasks_def client_step_def

lemma demo_waiting_reach: "demo_reach demo_waiting"
proof -
  let ?s = "the (client_step demo_platform 1 (demo_added 3))"
  have some: "client_step demo_platform 1 (demo_added 3) \<noteq> None" by code_simp
  have "demo_reach ?s"
    using disp_step.client[of demo_platform 1 "demo_added 3" ?s] some
    by (intro demo_step[OF demo_added_reach[of 3]]) auto
  then show ?thesis
  proof (rule demo_step)
    have idle: "ds_client ?s = C_Idle" by code_simp
    have bat: "{p. ds_batch ?s p = Some 10} = {3}" by (auto simp: demo_simps split: if_splits)
    have "task_wait_counter 3 (ds_mem ?s) = Inr 10" by code_simp
    then show "disp_step demo_platform binary_notes (\<lambda>n. n) demo_call 1 1 1 ?s demo_waiting"
      by (intro disp_step.task_wait[OF idle bat]) (simp add: client_try_def demo_waiting_def)
  qed
qed

lemma demo_released_reach: "demo_reach demo_released"
  unfolding demo_released_def
proof (rule schedule_demo[OF demo_waiting_reach])
  show "demo_schedule [Some 0, Some 0, Some 0, Some 0, Some 0, Some 0, None]
      demo_waiting \<noteq> None" by code_simp
qed simp

section \<open>Properties\<close>

text \<open>C1: no thread faults. In no reachable state has a worker or the client of the bare-metal
  dispatch queue run into an error: no assertion fails, and nothing that was deleted is used or
  deleted again, although the client deletes tasks and event counters that it shares with the
  workers.\<close>

theorem dispatch_threads_safe:
  assumes "metal_reach N tokens call ctx st k n s" and "note_laws N tokens"
  shows "\<forall>i e. ds_worker s i \<noteq> K_Fault e \<and> ds_client s \<noteq> C_Fault e"
  using assms unfolding metal_reach_def by (rule metal.threads_safe)

theorem dispatch_threads_safe_witness:
  "demo_reach demo_released \<and> ds_worker demo_released 0 \<noteq> K_Fault Invalid_Pointer"
  using dispatch_threads_safe[OF demo_released_reach binary_notes_laws] demo_released_reach by blast

text \<open>C2: every task is performed at most once, and none is lost. The tasks that were sent are
  those that were performed, those in the queue, and those that a worker has taken and not yet
  performed; a task is in one of these places only, no task is sent or performed twice, and no
  two workers have the same task.\<close>

theorem dispatch_tasks_once:
  assumes "metal_reach N tokens call ctx st k n s" and "note_laws N tokens"
  shows "distinct (ds_sent s) \<and> distinct (ds_done s @ ds_queue s) \<and>
     set (ds_sent s) = set (ds_done s) \<union> set (ds_queue s) \<union>
       {p. \<exists>i < k. ds_worker s i \<in> {K_Claim p, K_Perform p}} \<and>
     (\<forall>p i. ds_worker s i \<in> {K_Claim p, K_Perform p} \<longrightarrow> p \<notin> set (ds_done s @ ds_queue s) \<and>
        (\<forall>j. ds_worker s j \<in> {K_Claim p, K_Perform p} \<longrightarrow> j = i))"
  using assms unfolding metal_reach_def by (rule metal.tasks_once)

theorem dispatch_tasks_once_witness:
  "distinct (ds_sent demo_released) \<and> ds_sent demo_released = [3] \<and> ds_done demo_released = [3]"
proof (intro conjI)
  show "distinct (ds_sent demo_released)"
    using dispatch_tasks_once[OF demo_released_reach binary_notes_laws] by blast
qed code_simp+

text \<open>C3: waiting waits for the end. When \<open>dispatch_queue_task_wait\<close> comes back from the event
  counter the task has been performed, and when \<open>dispatch_queue_group_wait\<close> does, every task of
  the group has been.\<close>

theorem dispatch_wait_complete:
  assumes "metal_reach N tokens call ctx st k n s" and "note_laws N tokens"
  shows "(\<forall>task c. ds_client s = C_Free (For_Task task) c \<longrightarrow> task \<in> set (ds_done s)) \<and>
     (\<forall>grp c l w ts. ds_client s = C_Free (For_Group grp) c \<and> group_rep (ds_mem s) grp l w ts \<longrightarrow>
        set ts \<subseteq> set (ds_done s))"
  using assms unfolding metal_reach_def by (rule metal.wait_complete)

theorem dispatch_wait_complete_witness:
  "ds_client demo_released = C_Free (For_Task 3) 10 \<and> 3 \<in> set (ds_done demo_released)"
proof -
  have c: "ds_client demo_released = C_Free (For_Task 3) 10" by code_simp
  then show ?thesis
    using dispatch_wait_complete[OF demo_released_reach binary_notes_laws] by blast
qed

text \<open>C6: the threads come to rest. From a reachable state, the threads can take at most
  \<open>work_left\<close> steps of their own, the polling of \<open>dispatch_queue_wait\<close> aside, before the client makes
  another call.\<close>

theorem dispatch_steps_bounded:
  assumes "metal_reach N tokens call ctx st k n s" and "note_laws N tokens"
  shows "\<forall>j s'. (own_step (metal_platform N ctx st) N call k n ^^ j) s s' \<longrightarrow> j \<le> work_left k s"
  using assms unfolding metal_reach_def by (rule metal.steps_bounded)

theorem dispatch_steps_bounded_witness:
  "work_left 1 (demo_added 3) = 11 \<and>
   (\<nexists>s'. (own_step demo_platform binary_notes demo_call 1 1 ^^ 12) (demo_added 3) s')"
proof -
  have w: "work_left 1 (demo_added 3) = 11" by code_simp
  have "\<forall>j s'. (own_step demo_platform binary_notes demo_call 1 1 ^^ j) (demo_added 3) s' \<longrightarrow> j \<le> 11"
    using dispatch_steps_bounded[OF demo_added_reach[of 3] binary_notes_laws] w by (simp add: demo_platform_def)
  from this[rule_format, of 12] have "(own_step demo_platform binary_notes demo_call 1 1 ^^ 12) (demo_added 3) s' \<Longrightarrow> False" for s'
    by fastforce
  with w show ?thesis by blast
qed

text \<open>C4: waits return. With at least one worker and room for one task, whatever call the client is
  in (an addition to a full queue, a wait for a task or for a group), the threads' own steps lead
  to a state in which the call has returned, every task that was sent has been performed and
  all workers wait for the next; and wherever no thread can take a step, this is so.\<close>

theorem dispatch_wait_returns:
  assumes "metal_reach N tokens call ctx st k n s" and "note_laws N tokens" and "0 < k" "0 < n"
    and "\<not> polling (ds_client s)"
  shows "(\<exists>s'. (own_step (metal_platform N ctx st) N call k n)\<^sup>*\<^sup>* s s' \<and> ds_client s' = C_Idle \<and> ds_queue s' = [] \<and>
       (\<forall>i. ds_worker s' i = K_Receive) \<and> set (ds_sent s') = set (ds_done s')) \<and>
     ((\<nexists>s'. own_step (metal_platform N ctx st) N call k n s s') \<longrightarrow>
       ds_client s = C_Idle \<and> set (ds_sent s) = set (ds_done s))"
  using assms unfolding metal_reach_def by (rule metal.wait_returns)

theorem dispatch_wait_returns_witness:
  "ds_client demo_waiting = C_Await (For_Task 3) 10 \<and>
   (\<exists>s'. (own_step demo_platform binary_notes demo_call 1 1)\<^sup>*\<^sup>* demo_waiting s' \<and> ds_client s' = C_Idle)"
proof -
  have c: "ds_client demo_waiting = C_Await (For_Task 3) 10" by (simp add: demo_waiting_def)
  then have "\<not> polling (ds_client demo_waiting)" by (simp add: polling_def)
  with c show ?thesis
    using dispatch_wait_returns[OF demo_waiting_reach binary_notes_laws] by (auto simp: demo_platform_def)
qed

text \<open>C7: a queue with one worker is serial. The tasks are performed in the order in which they were
  sent: what was performed is an initial part of what was sent, followed by the task in the
  worker's hands and by the queue.\<close>

theorem dispatch_serial_order:
  assumes "metal_reach N tokens call ctx st 1 n s" and "note_laws N tokens"
  shows "ds_sent s = ds_done s @ in_hand (ds_worker s 0) @ ds_queue s"
  using refl assms unfolding metal_reach_def by (rule metal.serial_order)

theorem dispatch_serial_order_witness:
  "ds_sent demo_released = ds_done demo_released @ in_hand (ds_worker demo_released 0) @ ds_queue demo_released"
  using dispatch_serial_order[OF demo_released_reach binary_notes_laws] .

text \<open>\<open>dispatch_queue_wait\<close> can return too early. A worker takes a task off the queue before it
  sets its flag to busy. If the client looks at the flags and at the queue in between, it finds no
  busy worker and an empty queue, and \<open>dispatch_queue_wait\<close> returns although a task that was
  sent before has not been performed.\<close>

theorem dispatch_queue_wait_early:
  "\<exists>s s'. demo_reach s \<and> ds_client s = C_Size 0 \<and> client_step demo_platform 1 s = Some s' \<and>
     ds_client s' = C_Idle \<and> ds_sent s' = [4] \<and> ds_done s' = []"
proof -
  let ?run = "demo_schedule"
  let ?s = "the (?run [None, Some 0] (demo_added 4))"
  let ?t = "the (?run [None, None] (?s\<lparr>ds_client := C_Busy 0 0\<rparr>))"
  have "?run [None, Some 0] (demo_added 4) \<noteq> None" by code_simp
  then have "demo_reach ?s" using demo_added_reach by (intro schedule_demo) auto
  moreover have "ds_client ?s = C_Idle" by code_simp
  ultimately have "demo_reach (?s\<lparr>ds_client := C_Busy 0 0\<rparr>)"
    by (intro demo_step[OF _ disp_step.wait_all]) auto
  moreover have "?run [None, None] (?s\<lparr>ds_client := C_Busy 0 0\<rparr>) \<noteq> None" by code_simp
  ultimately have "demo_reach ?t" by (intro schedule_demo) auto
  moreover have c: "ds_client ?t = C_Size 0" by code_simp
  moreover have "ds_queue ?t = []" "ds_sent ?t = [4]" "ds_done ?t = []" by code_simp+
  ultimately show ?thesis
    by (intro exI[of _ ?t] exI[of _ "?t\<lparr>ds_client := C_Idle\<rparr>"]) (simp add: client_step_def client_try_def demo_platform_def poll_metal_def)
qed

text \<open>C12: creation establishes what the threads start from. The store that \<open>dispatch_queue_create\<close>
  leaves, with the workers it launches waiting in \<open>queue_receive\<close> and nothing added, is a start
  of the system of workers and client, with the number of workers asked for and all their flags ready.\<close>

theorem dispatch_create_ready:
  assumes "mem_ok m" "0 < len" "unat len < 2 ^ 30" "12 * unat thread_count < 2 ^ 32"
    and "\<And>i. i < 8 \<Longrightarrow> \<not> oom m (brk m + i)"
  shows "\<exists>ctx m' ls d. dispatch_queue_create_metal cend mutex len thread_count thread_stack_size m =
       Inr (ctx, m', ls) \<and> heap m' ctx = Some (Dispatch_Metal d) \<and> length ls = unat thread_count \<and>
     metal_init ctx (dx_thread_status d) (length ls)
       \<lparr>ds_mem = m', ds_note = nt, ds_app = u, ds_queue = [], ds_worker = (\<lambda>_. K_Receive),
        ds_client = C_Idle, ds_todo = [], ds_phase = (\<lambda>_. Unknown), ds_batch = (\<lambda>_. None),
        ds_sent = [], ds_done = []\<rparr>"
proof -
  let ?m = "created_mem cend mutex len thread_count thread_stack_size m"
  let ?d = "xcore_at (brk m) cend len thread_count thread_stack_size"
  let ?ss = "map (\<lambda>i. DISPATCH_WORKER_READY_STATUS) [0..<unat thread_count]"
  have "mem_ok ?m" using assms(1) by (auto simp: mem_ok_def created_mem_def Let_def)
  moreover have ctx: "heap ?m (brk m + 1) = Some (Dispatch_Metal ?d)"
    "heap ?m (dx_thread_status ?d) = Some (Word_Array (map Some ?ss))" "dx_thread_status ?d \<noteq> NULL"
    "unat (dx_thread_count ?d) = length ?ss"
    by (simp_all add: created_mem_def Let_def xcore_at_def comp_def)
  ultimately have "metal_env (brk m + 1) (dx_thread_status ?d) (unat thread_count) ?m nt"
    unfolding metal_env_def by (metis add_is_0 diff_zero length_map length_upt one_neq_zero)
  moreover have "map Some ?ss = replicate (unat thread_count) (Some DISPATCH_WORKER_READY_STATUS)"
    by (simp add: map_replicate_const)
  ultimately show ?thesis
    using dispatch_queue_create_ok[OF assms(2-5), of cend mutex thread_stack_size] ctx(1,2)
    by (simp add: metal_init_def disp_init_def)
qed

theorem dispatch_create_ready_witness:
  "\<exists>ctx m' ls d s. dispatch_queue_create_metal 9 0 4 3 1000 empty_mem = Inr (ctx, m', ls) \<and>
     heap m' ctx = Some (Dispatch_Metal d) \<and> length ls = 3 \<and> ds_mem s = m' \<and> metal_init ctx (dx_thread_status d) 3 (s :: (nat, nat) disp_sys)"
proof -
  obtain ctx m' ls d where "dispatch_queue_create_metal 9 0 4 3 1000 empty_mem = Inr (ctx, m', ls)"
    "heap m' ctx = Some (Dispatch_Metal d)" "length ls = 3" "metal_init ctx (dx_thread_status d) 3
       \<lparr>ds_mem = m', ds_note = (0 :: nat), ds_app = (0 :: nat), ds_queue = [], ds_worker = (\<lambda>_. K_Receive),
        ds_client = C_Idle, ds_todo = [], ds_phase = (\<lambda>_. Unknown), ds_batch = (\<lambda>_. None),
        ds_sent = [], ds_done = []\<rparr>"
    using dispatch_create_ready[of empty_mem 4 3 9 0 1000 "0 :: nat" "0 :: nat"] by auto
  then show ?thesis by (meson disp_sys.select_convs(1))
qed

section \<open>The calls\<close>

text \<open>Counting the busy workers, step by step.\<close>

lemma count_ends:
  fixes s :: "('n, 'u) disp_sys"
  assumes "ds_client s = C_Busy i b" and d: "load_dispatch_metal ctx (ds_mem s) = Inr d"
    and "\<And>t b'. for_range i (unat (dx_thread_count d)) (\<lambda>i b. count_busy d i b (ds_mem s)) b = Inr b' \<Longrightarrow>
       t = s\<lparr>ds_client := C_Size b'\<rparr> \<Longrightarrow> call_ends (metal_platform N ctx st) n t (rest b')"
  shows "call_ends (metal_platform N ctx st) n s
     (bindE (for_range i (unat (dx_thread_count d)) (\<lambda>i b. count_busy d i b (ds_mem s)) b) rest)"
  using assms
proof (induction "unat (dx_thread_count d) - i" arbitrary: i b s)
  case 0
  then have "client_step (metal_platform N ctx st) n s = Some (s\<lparr>ds_client := C_Size b\<rparr>)"
    by (simp add: client_step_def client_try_def poll_metal_def)
  then show ?case using 0 by (simp add: call_ends_step)
next
  case (Suc j)
  then have i: "i < unat (dx_thread_count d)" by simp
  show ?case
  proof (cases "count_busy d i b (ds_mem s)")
    case (Inl e)
    then have "client_step (metal_platform N ctx st) n s = Some (s\<lparr>ds_client := C_Fault e\<rparr>)"
      using Suc.prems(1,2) i by (simp add: client_step_def client_try_def poll_metal_def)
    with Inl i show ?thesis by (simp add: for_range_step call_ends_faults)
  next
    case (Inr b1)
    let ?s = "s\<lparr>ds_client := C_Busy (Suc i) b1\<rparr>"
    have "client_step (metal_platform N ctx st) n s = Some ?s"
      using Inr Suc.prems(1,2) i by (simp add: client_step_def client_try_def poll_metal_def)
    moreover have "call_ends (metal_platform N ctx st) n ?s
       (bindE (for_range (Suc i) (unat (dx_thread_count d)) (\<lambda>i b. count_busy d i b (ds_mem ?s)) b1) rest)"
      by (rule Suc.hyps(1)) (use Suc.hyps(2) Suc.prems(2,3) Inr i in \<open>simp_all add: for_range_step\<close>)
    ultimately show ?thesis using i Inr by (simp add: for_range_step call_ends_step)
  qed
qed

text \<open>If some worker is busy, or a task waits, an undisturbed \<open>dispatch_queue_wait\<close> polls forever.\<close>

lemma poll_never:
  fixes s :: "('n, 'u) disp_sys"
  assumes c: "ds_client s = C_Size b" and d: "load_dispatch_metal ctx (ds_mem s) = Inr d"
    and b: "busy_workers ctx (ds_mem s) = Inr b" and busy: "b + length (ds_queue s) \<noteq> 0"
  shows "call_ends (metal_platform N ctx st) n s (Inr None)"
proof -
  let ?m = "ds_mem s" and ?q = "ds_queue s" and ?n = "unat (dx_thread_count d)"
  let ?loop = "\<lambda>i. for_range 0 i (\<lambda>i b. count_busy d i b ?m) 0"
  let ?P = "\<lambda>t. ds_mem t = ?m \<and> ds_queue t = ?q \<and>
     (ds_client t = C_Size b \<or> (\<exists>i b'. i \<le> ?n \<and> ds_client t = C_Busy i b' \<and> ?loop i = Inr b'))"
  have total: "?loop ?n = Inr b" using b d by (simp add: busy_workers_def)
  have one: "\<exists>b2. count_busy d i b1 ?m = Inr b2 \<and> ?loop (Suc i) = Inr b2" if "i < ?n" "?loop i = Inr b1" for i b1
  proof -
    have "bindE (?loop (Suc i)) (for_range (Suc i) ?n (\<lambda>i b. count_busy d i b ?m)) = Inr b"
      using total that(1) for_range_split[of 0 "Suc i" ?n "\<lambda>i b. count_busy d i b ?m" 0] by simp
    then obtain b2 where "?loop (Suc i) = Inr b2" by (cases "?loop (Suc i)") auto
    with that(2) show ?thesis by (auto simp: for_range_snoc)
  qed
  show ?thesis
  proof (rule call_ends_never[where P = ?P])
    fix t t' :: "('n, 'u) disp_sys"
    assume t: "?P t" and step: "client_step (metal_platform N ctx st) n t = Some t'"
    show "?P t'"
    proof (cases "ds_client t = C_Size b")
      case True
      then show ?thesis using step t busy by (auto simp: client_step_def client_try_def poll_metal_def)
    next
      case False
      then obtain i b' where i: "i \<le> ?n" "ds_client t = C_Busy i b'" "?loop i = Inr b'" using t by blast
      show ?thesis
      proof (cases "i < ?n")
        case True
        with one[OF True i(3)] i step t d show ?thesis
          by (auto simp: client_step_def client_try_def poll_metal_def)
      next
        case False
        with i total step t d show ?thesis by (auto simp: client_step_def client_try_def poll_metal_def)
      qed
    qed
  qed (use c in auto)
qed

lemma metal_wait_ends:
  "\<exists>s1. enter_wait ctx s = Some s1 \<and>
     call_ends (metal_platform N ctx st) n s1 (dispatch_queue_wait_metal ctx (ds_mem s, ds_note s, ds_queue s))"
proof (cases "ctx = NULL")
  case True
  then show ?thesis by (simp add: client_try_def dispatch_queue_wait_metal_def assertE_def call_ends_fault)
next
  case False
  let ?s = "s\<lparr>ds_client := C_Busy 0 0\<rparr>"
  have "call_ends (metal_platform N ctx st) n ?s (dispatch_queue_wait_metal ctx (ds_mem s, ds_note s, ds_queue s))"
  proof (cases "load_dispatch_metal ctx (ds_mem s)")
    case (Inl e)
    then have "client_step (metal_platform N ctx st) n ?s = Some (?s\<lparr>ds_client := C_Fault e\<rparr>)"
      by (simp add: client_step_def client_try_def poll_metal_def)
    with Inl False show ?thesis by (simp add: dispatch_queue_wait_metal_def busy_workers_def call_ends_faults)
  next
    case (Inr d)
    let ?rest = "\<lambda>b. Inr (if b + length (ds_queue s) = 0 then Some (ds_mem s, ds_note s, ds_queue s) else None)"
    have "call_ends (metal_platform N ctx st) n ?s
       (bindE (for_range 0 (unat (dx_thread_count d)) (\<lambda>i b. count_busy d i b (ds_mem ?s)) 0) ?rest)"
    proof (rule count_ends)
      fix t b'
      assume b': "for_range 0 (unat (dx_thread_count d)) (\<lambda>i b. count_busy d i b (ds_mem ?s)) 0 = Inr b'"
        and t: "t = ?s\<lparr>ds_client := C_Size b'\<rparr>"
      show "call_ends (metal_platform N ctx st) n t (?rest b')"
      proof (cases "b' + length (ds_queue s) = 0")
        case True
        then have "client_step (metal_platform N ctx st) n t = Some (t\<lparr>ds_client := C_Idle\<rparr>)"
          using t by (simp add: client_step_def client_try_def poll_metal_def)
        then show ?thesis using True t by (intro call_ends_step[OF _ call_ends_idle]) auto
      next
        case False
        then show ?thesis using poll_never[of t b' ctx d N st n] t b' Inr by (auto simp: busy_workers_def)
      qed
    qed (use Inr in simp_all)
    with Inr False show ?thesis by (simp add: dispatch_queue_wait_metal_def busy_workers_def)
  qed
  with False show ?thesis by (simp add: client_try_def)
qed

text \<open>The steps of the client make up the calls. Entered in any state and left alone by the workers,
  each call of the bare-metal dispatch queue ends as the definition of the whole call says: with its
  error, blocked forever, or returned with the store, the notifications and the queue that it
  computes.\<close>

theorem dispatch_calls_steps:
  "(\<exists>s1. enter_task_add (metal_platform N ctx st) h ctx task w s = Some s1 \<and>
       call_ends (metal_platform N ctx st) n s1 (dispatch_queue_task_add_metal n h ctx task (now s))) \<and>
   (\<exists>s1. enter_group_add (metal_platform N ctx st) h ctx grp ts w s = Some s1 \<and>
       call_ends (metal_platform N ctx st) n s1 (dispatch_queue_group_add_metal n h ctx grp (now s))) \<and>
   (\<exists>s1. enter_task_wait task s = Some s1 \<and>
       call_ends (metal_platform N ctx st) n s1 (dispatch_queue_task_wait_metal N task (now s))) \<and>
   (\<exists>s1. enter_group_wait grp s = Some s1 \<and>
       call_ends (metal_platform N ctx st) n s1 (dispatch_queue_group_wait_metal N grp (now s))) \<and>
   (\<exists>s1. enter_wait ctx s = Some s1 \<and>
       call_ends (metal_platform N ctx st) n s1 (dispatch_queue_wait_metal ctx (now s)))"
proof (intro conjI)
  let ?F = "metal_platform N ctx st"
  note link = dispatch_queue_task_add_metal_def dispatch_queue_group_add_metal_def
    dispatch_queue_task_wait_metal_def dispatch_queue_group_wait_metal_def
  show "\<exists>s1. enter_task_add ?F h ctx task w s = Some s1 \<and>
      call_ends ?F n s1 (dispatch_queue_task_add_metal n h ctx task (now s))"
    using task_add_ends[where F = ?F] unfolding link metal_platform_simps .
  show "\<exists>s1. enter_group_add ?F h ctx grp ts w s = Some s1 \<and>
      call_ends ?F n s1 (dispatch_queue_group_add_metal n h ctx grp (now s))"
    using group_add_ends[where F = ?F] unfolding link metal_platform_simps .
  show "\<exists>s1. enter_task_wait task s = Some s1 \<and> call_ends ?F n s1 (dispatch_queue_task_wait_metal N task (now s))"
    using task_wait_ends[where F = ?F] unfolding link metal_platform_simps .
  show "\<exists>s1. enter_group_wait grp s = Some s1 \<and> call_ends ?F n s1 (dispatch_queue_group_wait_metal N grp (now s))"
    using group_wait_ends[where F = ?F] unfolding link metal_platform_simps .
qed (rule metal_wait_ends)

text \<open>One turn of a worker, undisturbed.\<close>

definition dispatch_queue_worker_metal :: "'n note_ops \<Rightarrow> ptr \<Rightarrow> (fptr \<Rightarrow> ptr \<Rightarrow> 'u \<Rightarrow> 'u) \<Rightarrow> nat \<Rightarrow> ptr \<Rightarrow>
    mem \<times> 'n \<times> 'u \<Rightarrow> (mem \<times> 'n \<times> 'u) result" where
  "dispatch_queue_worker_metal N st call i task = (\<lambda>(m, nt, u).
     bindE (write_word st i DISPATCH_WORKER_BUSY_STATUS m) (\<lambda>m.
     bindE (run_task (event_counter_signal_metal N) call task m nt u) (\<lambda>(m, nt, u).
     bindE (write_word st i DISPATCH_WORKER_READY_STATUS m) (\<lambda>m.
     Inr (m, nt, u)))))"

lemma signal_by_metal: "signal_by (metal_platform N ctx st) N = event_counter_signal_metal N"
  by (simp add: fun_eq_iff signal_by_def event_counter_signal_metal_def bindE_assoc cong: if_cong)

lemma worker_turn_metal:
  "worker_turn (metal_platform N ctx st) N call i task = dispatch_queue_worker_metal N st call i task"
  by (simp add: fun_eq_iff worker_turn_def dispatch_queue_worker_metal_def signal_by_metal bindE_assoc split_def)

text \<open>The steps of a worker make up a turn of its loop. Once it has received a task, a worker that
  is not disturbed ends its turn as \<open>dispatch_queue_worker\<close> and \<open>run_task\<close> say: waiting for the next
  task, with the store, the notifications and the application state that they compute, or in their
  error.\<close>

theorem dispatch_worker_turn:
  assumes "ds_worker s i = K_Claim task"
  shows "worker_ends (metal_platform N ctx st) N call n i s
     (dispatch_queue_worker_metal N st call i task (ds_mem s, ds_note s, ds_app s))"
  using claim_ends[OF assms, where F = "metal_platform N ctx st" and N = N] unfolding worker_turn_metal .

theorem dispatch_worker_turn_witness:
  "\<exists>s s'. ds_worker s 0 = K_Claim 3 \<and>
     (\<lambda>s s'. worker_step demo_platform binary_notes demo_call 1 0 s = Some s')\<^sup>*\<^sup>* s s' \<and>
     ds_worker s' 0 = K_Receive \<and> ds_app s' = 1"
proof -
  let ?s = "the (demo_schedule [Some 0] demo_waiting)"
  let ?r = "dispatch_queue_worker_metal binary_notes 2 demo_call 0 3 (ds_mem ?s, ds_note ?s, ds_app ?s)"
  have w: "ds_worker ?s 0 = K_Claim 3" by code_simp
  have "map_sum id (\<lambda>(m, nt, u). u) ?r = Inr 1" by code_simp
  then obtain m nt where "?r = Inr (m, nt, 1)" by (cases ?r) auto
  then show ?thesis
    using dispatch_worker_turn[OF w, of binary_notes 1 2 demo_call 1] w
    unfolding worker_ends_def demo_platform_def by auto
qed

end
