(* ===== verification/Dispatch_Flags.thy ===== *)
theory Dispatch_Flags
  imports Dispatch_Metal
begin

text \<open>
  The status flags of the bare-metal dispatch queue and \<open>dispatch_queue_wait\<close>: what the array of flags says in
  every state that a new dispatch queue gets to, and that the polling loop comes to an end when the workers
  have run.
\<close>

section \<open>What the client leaves alone\<close>

text \<open>Everything but tasks and event counters stays as it is.\<close>

definition fixed_kept :: "mem \<Rightarrow> mem \<Rightarrow> bool" where
  "fixed_kept m m' \<longleftrightarrow> (\<forall>p ob. heap m p = Some ob \<and> \<not> transient (Some ob) \<longrightarrow> heap m' p = Some ob)"

lemma fixed_kept_refl [simp]: "fixed_kept m m"
  by (simp add: fixed_kept_def)

lemma fixed_kept_trans: "fixed_kept m m1 \<Longrightarrow> fixed_kept m1 m' \<Longrightarrow> fixed_kept m m'"
  by (simp add: fixed_kept_def)

lemma fixed_kept_task:
  "heap m p = Some (Task t) \<Longrightarrow> fixed_kept m (m\<lparr>heap := (heap m)(p \<mapsto> Task t')\<rparr>)"
  by (auto simp: fixed_kept_def)

lemma fixed_kept_differs: "differs transient m m' \<Longrightarrow> fixed_kept m m'"
  unfolding fixed_kept_def using differs_keep by blast

lemma group_add_next_fixed: "group_add_next g i c m = Inr (r, m') \<Longrightarrow> fixed_kept m m'"
  using fixed_kept_task load_task_heap
  by (fastforce simp: group_add_next_def store_def result_simps split: if_splits option.splits)

context dispatch_platform
begin

lemma client_step_fixed:
  assumes inv: "disp_inv kd tokens env k n s" and step: "client_step F n s = Some s'"
  shows "fixed_kept (ds_mem s) (ds_mem s')"
proof (cases "ds_client s")
  case (C_Group g i c)
  then show ?thesis
    using step group_add_next_fixed by (auto simp: client_step_def client_try_def split: sum.splits option.splits)
next
  case (C_Free x c)
  have env: "env (ds_mem s) (ds_note s)" and bi: "batch_inv kd (ds_mem s) (ds_phase s) (ds_batch s)"
    and ti: "task_inv (ds_mem s) (ds_phase s) (ds_batch s) (unset (ds_client s) (ds_todo s))"
    and ci: "client_pc_inv (ds_mem s) (ds_batch s) (ds_todo s) (ds_client s)"
    using inv by (auto elim: disp_invE)
  have x: "target_inv (ds_mem s) (ds_batch s) x c" using ci C_Free by simp
  obtain cm where cm: "counter_at kd (ds_mem s) c cm" using bi target_ran[OF x] by (rule batch_counter)
  have tasks: "\<exists>t. heap (ds_mem s) p = Some (Task t)" if "ds_batch s p = Some c" for p
    using ti that by (force simp: task_inv_def)
  let ?A = "- ({c, vw_lock cm} \<union> {p. ds_batch s p = Some c})"
  have "transient (heap (ds_mem s) p)" if "p \<notin> ?A" for p
    using that counter_at_blocks[OF cm] tasks[of p] by auto
  then have "fixed_kept (ds_mem s) ((ds_mem s)\<lparr>heap := (heap (ds_mem s)) |` ?A\<rparr>)"
    by (auto simp: fixed_kept_def restrict_map_def) metis+
  then show ?thesis
    using step C_Free wait_finish_ok[OF _ cm x tasks] env env_ok
    by (auto simp: client_step_def client_try_def)
qed (use step in \<open>auto simp: client_step_def client_try_def split: sum.splits option.splits if_splits\<close>)

lemma create_fixed:
  assumes inv: "disp_inv kd tokens env k n s" and fresh: "fresh_channel tokens h s"
    and create: "pf_create F h cnt (ds_mem s) = Inr (c, m)"
  shows "fixed_kept (ds_mem s) m"
proof -
  have ok: "mem_ok (ds_mem s)" using inv env_ok by (auto elim: disp_invE)
  have "\<not> oom (ds_mem s) (brk (ds_mem s))" "\<not> oom (ds_mem s) (Suc (brk (ds_mem s)))"
    using fresh by (auto simp: fresh_channel_def)
  then obtain v where "counter_added kd (ds_mem s) m c v" using create_law[OF ok, of h cnt] create by auto
  then show ?thesis using counter_added_differs fixed_kept_differs by blast
qed

lemma call_fixed:
  assumes inv: "disp_inv kd tokens env k n s" and step: "disp_step F N tokens call ctx k n s s'"
    and worker: "\<And>i. i < k \<Longrightarrow> worker_step F N call n i s \<noteq> Some s'"
  shows "fixed_kept (ds_mem s) (ds_mem s') \<and> ds_worker s' = ds_worker s"
  using step
proof cases
  case (worker i)
  then show ?thesis using assms(3) by blast
next
  case client
  have "ds_worker s' = ds_worker s"
    using client by (cases "ds_client s") (auto simp: client_step_def client_try_def split: sum.splits option.splits if_splits)
  then show ?thesis using client_step_fixed[OF inv client] by simp
next
  case (task_add w task h)
  have "fixed_kept (ds_mem s) m'" if prep: "task_add_prepare (pf_create F) h ctx task (ds_mem s) = Inr m'" for m'
  proof -
    obtain t where t: "load_task task (ds_mem s) = Inr t"
      using prep by (cases "load_task task (ds_mem s)") (auto simp: task_add_prepare_def result_simps)
    show ?thesis
    proof (cases "task_waitable t")
      case True
      then obtain c m1 where m1: "pf_create F h 1 (ds_mem s) = Inr (c, m1)" "store task (Task (t\<lparr>task_private_data := c\<rparr>)) m1 = Inr m'"
        using prep t by (auto simp: task_add_prepare_def result_simps split: if_splits)
      have keep: "fixed_kept (ds_mem s) m1" by (rule create_fixed[OF inv task_add(3) m1(1)])
      have "heap (ds_mem s) task = Some (Task t)" using t by (rule load_task_heap)
      then have "heap m' p = Some ob" if "heap (ds_mem s) p = Some ob" "\<not> transient (Some ob)" for p ob
        using that keep m1(2) by (auto simp: fixed_kept_def store_def split: if_splits)
      then show ?thesis by (simp add: fixed_kept_def)
    next
      case False
      have "heap (ds_mem s) task = Some (Task t)" using t by (rule load_task_heap)
      then show ?thesis using False prep t fixed_kept_task
        by (auto simp: task_add_prepare_def result_simps store_def split: if_splits)
    qed
  qed
  then show ?thesis using task_add(4) by (auto simp: client_try_def add_tasks_def result_simps split: sum.splits)
next
  case (group_add grp l w ts h)
  then show ?thesis
    using create_fixed[OF inv group_add(6)]
    by (auto simp: client_try_def add_tasks_def group_add_prepare_def result_simps split: sum.splits if_splits)
next
  case (task_create f a w task m)
  have "mem_ok (ds_mem s)" using inv env_ok by (auto elim: disp_invE)
  then show ?thesis using task_create task_create_new(3)[OF task_create(3)] by (auto simp: fixed_kept_def mem_ok_def)
qed (auto simp: client_try_def split: sum.splits)

end

section \<open>The status flags\<close>

text \<open>The flag of a worker says busy from its setting to its resetting in \<open>dispatch_queue_worker\<close>.\<close>

definition flag_of :: "worker_pc \<Rightarrow> size_t" where
  "flag_of c = (if bit_raised c then DISPATCH_WORKER_READY_STATUS else DISPATCH_WORKER_BUSY_STATUS)"

definition flags_at :: "ptr \<Rightarrow> nat \<Rightarrow> mem \<Rightarrow> (nat \<Rightarrow> worker_pc) \<Rightarrow> bool" where
  "flags_at st k m pcs \<longleftrightarrow> heap m st = Some (Word_Array (map (\<lambda>i. Some (flag_of (pcs i))) [0..<k]))"

lemma flags_same: "flags_at st k m pcs \<Longrightarrow> flag_of c = flag_of (pcs i) \<Longrightarrow> flags_at st k m (pcs(i := c))"
  by (auto simp: flags_at_def)

lemma flags_write:
  assumes f: "flags_at st k m pcs" and w: "write_word st i (flag_of c) m = Inr m'"
  shows "flags_at st k m' (pcs(i := c))"
proof -
  let ?ws = "map (\<lambda>i. Some (flag_of (pcs i))) [0..<k]"
  have "heap m' st = Some (Word_Array (?ws[i := Some (flag_of c)]))"
    using f w by (auto simp: flags_at_def write_word_def result_simps mem_simps store_def split: if_splits)
  moreover have "?ws[i := Some (flag_of c)] = map (\<lambda>j. Some (flag_of ((pcs(i := c)) j))) [0..<k]"
    by (rule nth_equalityI) (auto simp: nth_list_update)
  ultimately show ?thesis by (simp add: flags_at_def)
qed

lemma flags_store: "flags_at st k m pcs \<Longrightarrow> heap m' st = heap m st \<Longrightarrow> flags_at st k m' pcs"
  by (simp add: flags_at_def)

lemma flags_fixed: "flags_at st k m pcs \<Longrightarrow> fixed_kept m m' \<Longrightarrow> flags_at st k m' pcs"
  by (auto simp: flags_at_def fixed_kept_def transient_def)

lemma worker_flags:
  fixes s :: "('n, 'u) disp_sys"
  assumes step: "worker_step (metal_platform N ctx st) N call n i s = Some s'"
    and ok: "\<forall>e. ds_worker s' i \<noteq> K_Fault e" and inv: "flags_at st k (ds_mem s) (ds_worker s)"
  shows "flags_at st k (ds_mem s') (ds_worker s')"
proof (cases "ds_worker s i")
  case (K_Claim p)
  with step ok show ?thesis
    using flags_write[OF inv, of i "K_Perform p"]
    by (auto simp: worker_step_def worker_try_def to_worker_def result_simps flag_of_def split: sum.splits)
next
  case K_Ready
  with step ok show ?thesis
    using flags_write[OF inv, of i K_Receive]
    by (auto simp: worker_step_def worker_try_def to_worker_def result_simps flag_of_def split: sum.splits)
next
  case (K_Signal p c)
  with step ok obtain sig m where m: "event_counter_decrement_metal c (ds_mem s) = Inr (sig, m)"
    "ds_mem s' = m" "ds_worker s' = (ds_worker s)(i := if sig then K_Notify c else K_Ready)"
    by (auto simp: worker_step_def worker_try_def to_worker_def result_simps split: sum.splits)
  have "heap m st = heap (ds_mem s) st"
    using m(1) inv
    by (auto simp: event_counter_decrement_metal_def result_simps mem_simps store_def flags_at_def split: if_splits)
  then show ?thesis
    using flags_same[OF flags_store[OF inv], of m "if sig then K_Notify c else K_Ready" i] m K_Signal
    by (auto simp: flag_of_def)
next
  case (K_Finish p)
  have "heap (ds_mem s') st = heap (ds_mem s) st \<and> (\<exists>c. ds_worker s' = (ds_worker s)(i := c) \<and> \<not> bit_raised c)"
    using K_Finish step ok inv
    by (auto simp: worker_step_def worker_try_def to_worker_def result_simps mem_simps dispatch_task_delete_def
        free_def flags_at_def split: sum.splits if_splits)
  then show ?thesis
    using flags_same[OF flags_store[OF inv]] K_Finish by (auto simp: flag_of_def)
qed (use step ok inv in \<open>auto simp: worker_step_def worker_try_def to_worker_def flag_of_def result_simps
      intro!: flags_same split: sum.splits list.splits\<close>)

lemma metal_run_inv:
  assumes "metal_run N tokens call ctx st k n s" "note_laws N tokens"
  shows "disp_inv Metal_Counter tokens (metal_env ctx st k) k n s"
  using metal.disp_reach_inv[OF metal_run_disp_reach[OF assms(1)] assms(2)] .

lemma metal_flags:
  assumes "metal_run N tokens call ctx st k n s" and laws: "note_laws N tokens"
  shows "flags_at st k (ds_mem s) (ds_worker s)"
  using assms(1) unfolding metal_run_def
proof (induction rule: reach.induct)
  case (reach_init s)
  then show ?case
    by (auto simp: metal_init_def disp_init_def flags_at_def flag_of_def map_replicate_const)
next
  case (reach_step s t)
  have r: "metal_run N tokens call ctx st k n s" "metal_run N tokens call ctx st k n t"
    unfolding metal_run_def using reach_step(1,2) by (auto intro: reach.reach_step)
  have ok: "\<forall>e. ds_worker t i \<noteq> K_Fault e" for i
    using metal_run_inv[OF r(2) laws] by (auto simp: disp_inv_def pc_inv_def)
  show ?case
  proof (cases "\<exists>i < k. worker_step (metal_platform N ctx st) N call n i s = Some t")
    case True
    then show ?thesis using worker_flags ok reach_step.IH by blast
  next
    case False
    then have "fixed_kept (ds_mem s) (ds_mem t) \<and> ds_worker t = ds_worker s"
      by (intro metal.call_fixed[OF metal_run_inv[OF r(1) laws] reach_step(2)]) auto
    then show ?thesis using flags_fixed[OF reach_step.IH] by simp
  qed
qed

section \<open>The end of \<open>dispatch_queue_wait\<close>\<close>

text \<open>The polling client returns within two rounds, with every task that was sent performed.\<close>

definition wait_all_ends :: "'n platform \<Rightarrow> nat \<Rightarrow> nat \<Rightarrow> ('n, 'u) disp_sys \<Rightarrow> bool" where
  "wait_all_ends F k n s \<longleftrightarrow> (\<exists>j \<le> 2 * k + 4. (client_moves F n ^^ j) s (s\<lparr>ds_client := C_Idle\<rparr>)) \<and>
     ds_queue s = [] \<and> set (ds_sent s) = set (ds_done s)"

text \<open>With all flags ready the client counts no busy worker more, and its next round is the last.\<close>

lemma poll_round:
  fixes s :: "('n, 'u) disp_sys"
  assumes "metal_env ctx st k (ds_mem s) (ds_note s)" "flags_at st k (ds_mem s) (ds_worker s)"
    and "\<And>i. ds_worker s i = K_Receive"
  shows "(client_moves (metal_platform N ctx st) n ^^ Suc (k - i)) (s\<lparr>ds_client := C_Busy i b\<rparr>) (s\<lparr>ds_client := C_Size b\<rparr>)"
proof -
  obtain d where d: "ctx \<noteq> NULL" "st \<noteq> NULL" "heap (ds_mem s) ctx = Some (Dispatch_Metal d)"
    "dx_thread_status d = st" "unat (dx_thread_count d) = k"
    using assms(1) by (auto simp: metal_env_def)
  have ready: "count_busy d i b (ds_mem s) = Inr b" if "i < k" for i b
    using that d assms(2,3)
    by (simp add: count_busy_def read_word_def load_word_array_def load_def read_slot_def flags_at_def
        flag_of_def DISPATCH_WORKER_READY_STATUS_def DISPATCH_WORKER_BUSY_STATUS_def)
  have step: "client_step (metal_platform N ctx st) n (s\<lparr>ds_client := C_Busy i b\<rparr>) =
      Some (s\<lparr>ds_client := if i < k then C_Busy (Suc i) b else C_Size b\<rparr>)" for i
    using d ready by (simp add: client_step_def client_try_def poll_metal_def load_dispatch_metal_def load_def)
  show ?thesis
  proof (induction "k - i" arbitrary: i)
    case 0
    with step[of i] show ?case by (simp add: client_moves_def eq_OO)
  next
    case (Suc j)
    then have "(client_moves (metal_platform N ctx st) n ^^ Suc (k - Suc i))
        (s\<lparr>ds_client := C_Busy (Suc i) b\<rparr>) (s\<lparr>ds_client := C_Size b\<rparr>)" by simp
    moreover have "client_moves (metal_platform N ctx st) n (s\<lparr>ds_client := C_Busy i b\<rparr>)
        (s\<lparr>ds_client := C_Busy (Suc i) b\<rparr>)"
      using step[of i] Suc.hyps(2) by (simp add: client_moves_def)
    moreover have "k - i = Suc (k - Suc i)" using Suc.hyps(2) by simp
    ultimately show ?case by (metis relpowp_Suc_I2)
  qed
qed

lemma poll_ends:
  fixes s :: "('n, 'u) disp_sys"
  assumes "metal_env ctx st k (ds_mem s) (ds_note s)" "flags_at st k (ds_mem s) (ds_worker s)"
    and "\<And>i. ds_worker s i = K_Receive" and q: "ds_queue s = []" and "polling (ds_client s)"
  shows "\<exists>j \<le> 2 * k + 4. (client_moves (metal_platform N ctx st) n ^^ j) s (s\<lparr>ds_client := C_Idle\<rparr>)"
proof -
  let ?R = "client_moves (metal_platform N ctx st) n"
  note round = poll_round[OF assms(1-3), where N = N and n = n]
  have last: "?R (s\<lparr>ds_client := C_Size 0\<rparr>) (s\<lparr>ds_client := C_Idle\<rparr>)"
    and again: "b \<noteq> 0 \<Longrightarrow> ?R (s\<lparr>ds_client := C_Size b\<rparr>) (s\<lparr>ds_client := C_Busy 0 0\<rparr>)" for b
    using q by (simp_all add: client_moves_def client_step_def client_try_def poll_metal_def)
  have size: "\<exists>j \<le> k + 3. (?R ^^ j) (s\<lparr>ds_client := C_Size b\<rparr>) (s\<lparr>ds_client := C_Idle\<rparr>)" for b
  proof (cases "b = 0")
    case True
    with last have "(?R ^^ 1) (s\<lparr>ds_client := C_Size b\<rparr>) (s\<lparr>ds_client := C_Idle\<rparr>)" by (simp add: eq_OO)
    then show ?thesis by (intro exI[of _ 1]) simp
  next
    case False
    have "(?R ^^ (Suc k + 1)) (s\<lparr>ds_client := C_Busy 0 0\<rparr>) (s\<lparr>ds_client := C_Idle\<rparr>)"
      using round[of 0 0] last by (auto simp: relpowp_add)
    with again[OF False] have "(?R ^^ Suc (Suc k + 1)) (s\<lparr>ds_client := C_Size b\<rparr>) (s\<lparr>ds_client := C_Idle\<rparr>)"
      by (rule relpowp_Suc_I2)
    then show ?thesis by (rule exI[of _ "Suc (Suc k + 1)", OF conjI, rotated]) simp
  qed
  have self: "s\<lparr>ds_client := ds_client s\<rparr> = s" by simp
  from assms(5) consider i b where "ds_client s = C_Busy i b" | b where "ds_client s = C_Size b"
    by (cases "ds_client s") (auto simp: polling_def)
  then consider i b where "s\<lparr>ds_client := C_Busy i b\<rparr> = s" | b where "s\<lparr>ds_client := C_Size b\<rparr> = s"
    using self by cases metis+
  then show ?thesis
  proof cases
    case 1
    from size[of b] obtain j where j: "j \<le> k + 3" "(?R ^^ j) (s\<lparr>ds_client := C_Size b\<rparr>) (s\<lparr>ds_client := C_Idle\<rparr>)" by blast
    then have "(?R ^^ (Suc (k - i) + j)) s (s\<lparr>ds_client := C_Idle\<rparr>)"
      using relpowp_trans[OF round[of i b]] unfolding 1 by blast
    then show ?thesis using j(1) by (intro exI[of _ "Suc (k - i) + j"]) simp
  next
    case 2
    from size[of b] obtain j where "j \<le> k + 3" "(?R ^^ j) s (s\<lparr>ds_client := C_Idle\<rparr>)"
      unfolding 2 by blast
    then show ?thesis by (intro exI[of _ j]) simp
  qed
qed

section \<open>A small system\<close>

text \<open>The client of the system of theory \<open>Dispatch_Metal\<close> has sent a task and polls; the worker has it in hand.\<close>

abbreviation demo_run :: "(nat \<Rightarrow> nat, nat) disp_sys \<Rightarrow> bool" where
  "demo_run \<equiv> metal_run binary_notes (\<lambda>n. n) demo_call 1 2 1 1"

definition demo_taken :: "(nat \<Rightarrow> nat, nat) disp_sys" where
  "demo_taken = the (demo_schedule [None, Some 0, Some 0] (demo_added 4))"

definition demo_polling :: "(nat \<Rightarrow> nat, nat) disp_sys" where
  "demo_polling = demo_taken\<lparr>ds_client := C_Busy 0 0\<rparr>"

lemma demo_polling_run: "demo_run demo_polling"
proof -
  let ?step = "disp_step demo_platform binary_notes (\<lambda>n. n) demo_call 1 1 1"
  have "demo_schedule [None, Some 0, Some 0] (demo_added 4) \<noteq> None" by code_simp
  then have "demo_schedule [None, Some 0, Some 0] (demo_added 4) = Some demo_taken" by (auto simp: demo_taken_def)
  then have "?step\<^sup>*\<^sup>* (demo_added 4) demo_taken" by (rule schedule_steps) auto
  then have "?step\<^sup>*\<^sup>* demo_sys demo_taken" using demo_added_step[of 4] by (auto intro: converse_rtranclp_into_rtranclp)
  moreover have "ds_client demo_taken = C_Idle" by code_simp
  then have "?step demo_taken demo_polling" unfolding demo_polling_def by (intro disp_step.wait_all) auto
  ultimately have run: "?step\<^sup>*\<^sup>* demo_sys demo_polling" by simp
  have "metal_init 1 2 1 demo_sys"
    using demo_init by (simp add: metal_init_def demo_sys_def demo_mem_def)
  then show ?thesis
    unfolding metal_run_def by (intro reach_rtranclp[OF reach_init run[unfolded demo_platform_def]])
qed

section \<open>Properties\<close>

text \<open>C8: the status flags say what the workers do. In every state that a new dispatch queue gets to, the
  flag of a worker is busy exactly from the point where it has set it for a task to the point where it resets
  it, whatever has been created and deleted meanwhile, and counting the busy flags gives the number of these
  workers.\<close>

theorem dispatch_status_flags:
  assumes "metal_run N tokens call ctx st k n s" and "note_laws N tokens"
  shows "(\<forall>i < k. read_word st i (ds_mem s) =
       Inr (if bit_raised (ds_worker s i) then DISPATCH_WORKER_READY_STATUS else DISPATCH_WORKER_BUSY_STATUS)) \<and>
     busy_workers ctx (ds_mem s) = Inr (card {i. i < k \<and> \<not> bit_raised (ds_worker s i)})"
proof -
  let ?ss = "map (\<lambda>i. flag_of (ds_worker s i)) [0..<k]"
  have "metal_env ctx st k (ds_mem s) (ds_note s)" using metal_run_inv[OF assms] by (rule disp_invE)
  moreover have f: "heap (ds_mem s) st = Some (Word_Array (map Some ?ss))"
    using metal_flags[OF assms] by (simp add: flags_at_def comp_def)
  ultimately obtain d where d: "ctx \<noteq> NULL" "st \<noteq> NULL" "heap (ds_mem s) ctx = Some (Dispatch_Metal d)"
    "dx_thread_status d = st" "unat (dx_thread_count d) = length ?ss" by (auto simp: metal_env_def)
  have "busy_workers ctx (ds_mem s) = Inr (length (filter (\<lambda>w. w = DISPATCH_WORKER_BUSY_STATUS) ?ss))"
    by (rule busy_workers_rep[where d = d]) (simp_all only: d f not_False_eq_True)
  moreover have "length (filter (\<lambda>w. w = DISPATCH_WORKER_BUSY_STATUS) ?ss) = card {i. i < k \<and> \<not> bit_raised (ds_worker s i)}"
    by (simp add: length_filter_conv_card flag_of_def DISPATCH_WORKER_READY_STATUS_def
        DISPATCH_WORKER_BUSY_STATUS_def conj_commute cong: conj_cong)
  ultimately show ?thesis
    using f d(2) by (simp add: read_word_def load_word_array_def load_def read_slot_def flag_of_def)
qed

theorem dispatch_status_flags_witness:
  "demo_run demo_polling \<and> ds_worker demo_polling 0 = K_Perform 4 \<and> busy_workers 1 (ds_mem demo_polling) = Inr 1"
proof -
  have w: "ds_worker demo_polling 0 = K_Perform 4" by code_simp
  then have "{i. i < (1 :: nat) \<and> \<not> bit_raised (ds_worker demo_polling i)} = {0}" by auto
  then show ?thesis
    using w demo_polling_run dispatch_status_flags[OF demo_polling_run binary_notes_laws] by simp
qed

text \<open>C5: \<open>dispatch_queue_wait\<close> returns. While the client polls, the workers' steps lead to a state in which
  they can take no more, and the client, wherever its loop is, then returns within two rounds, with every
  task that was sent performed. So it is in every state in which the workers rest.\<close>

theorem dispatch_wait_all_returns:
  assumes run: "metal_run N tokens call ctx st k n s" and laws: "note_laws N tokens" and "0 < k"
    and poll: "polling (ds_client s)"
  shows "(\<exists>t. (workers_move (metal_platform N ctx st) N call k n)\<^sup>*\<^sup>* s t \<and> wait_all_ends (metal_platform N ctx st) k n t) \<and>
     ((\<nexists>t. workers_move (metal_platform N ctx st) N call k n s t) \<longrightarrow> wait_all_ends (metal_platform N ctx st) k n s)"
proof -
  let ?F = "metal_platform N ctx st"
  let ?ends = "wait_all_ends ?F k n"
  have rest: "?ends t" if t: "metal_run N tokens call ctx st k n t" "polling (ds_client t)"
    "\<nexists>u. workers_move ?F N call k n t u" for t
  proof -
    have inv: "disp_inv Metal_Counter tokens (metal_env ctx st k) k n t" using t(1) laws by (rule metal_run_inv)
    then have env: "metal_env ctx st k (ds_mem t) (ds_note t)" by (rule disp_invE)
    have "client_pc_inv (ds_mem t) (ds_batch t) (ds_todo t) (ds_client t)" using inv by (rule disp_invE)
    then have todo: "ds_todo t = []" using t(2) by (cases "ds_client t") (auto simp: polling_def)
    note fin = metal.workers_rest_done[OF inv assms(3) t(3) todo]
    have "\<exists>j \<le> 2 * k + 4. (client_moves ?F n ^^ j) t (t\<lparr>ds_client := C_Idle\<rparr>)"
      using env metal_flags[OF t(1) laws] fin(2,1) t(2) by (rule poll_ends)
    with fin(1,3) show ?thesis by (simp add: wait_all_ends_def)
  qed
  obtain t where t: "(workers_move ?F N call k n)\<^sup>*\<^sup>* s t" "\<nexists>u. workers_move ?F N call k n t u"
    "ds_client t = ds_client s"
    using metal.workers_rest[OF laws metal_run_disp_reach[OF run]] by blast
  have "metal_run N tokens call ctx st k n t"
    using run workers_move_steps[OF t(1)] unfolding metal_run_def by (rule reach_rtranclp)
  then have "?ends t" using t(2,3) poll by (intro rest) auto
  with t(1) rest[OF run poll] show ?thesis by blast
qed

theorem dispatch_wait_all_returns_witness:
  "\<exists>t. (workers_move demo_platform binary_notes demo_call 1 1)\<^sup>*\<^sup>* demo_polling t \<and>
     wait_all_ends demo_platform 1 1 t \<and> ds_done demo_polling = [] \<and> 4 \<in> set (ds_sent demo_polling)"
proof -
  have "polling (ds_client demo_polling)" by (simp add: demo_polling_def polling_def)
  then obtain t where "(workers_move demo_platform binary_notes demo_call 1 1)\<^sup>*\<^sup>* demo_polling t"
    "wait_all_ends demo_platform 1 1 t"
    using dispatch_wait_all_returns[OF demo_polling_run binary_notes_laws] by (auto simp: demo_platform_def)
  moreover have "ds_done demo_polling = []" "ds_sent demo_polling = [4]" by code_simp+
  ultimately show ?thesis by (metis list.set_intros(1))
qed

end
