(* ===== verification/Dispatch_Types.thy ===== *)
theory Dispatch_Types
  imports Dispatch_Metal
begin

text \<open>
  The types of the store. C has \<open>void *\<close> for a task's argument and its private data, and the store of the
  model holds blocks of every kind. Here is what the pointers that the threads of a bare-metal dispatch queue
  hold point to, wherever the threads are.
\<close>

section \<open>Pointers with a type\<close>

text \<open>A task that may be performed; a waitable one; an event counter with its lock; a group with its array.\<close>

definition task_typed :: "mem \<Rightarrow> ptr \<Rightarrow> bool" where
  "task_typed m p \<longleftrightarrow> p \<noteq> NULL \<and> (case heap m p of Some (Task t) \<Rightarrow> task_function t \<noteq> NULL | _ \<Rightarrow> False)"

definition counter_typed :: "mem \<Rightarrow> ptr \<Rightarrow> bool" where
  "counter_typed m c \<longleftrightarrow> c \<noteq> NULL \<and>
     (case heap m c of
        Some (Counter_Metal cm) \<Rightarrow>
          ec_lock cm \<noteq> NULL \<and> (case heap m (ec_lock cm) of Some (Spinlock v) \<Rightarrow> True | _ \<Rightarrow> False)
      | _ \<Rightarrow> False)"

definition waitable_typed :: "mem \<Rightarrow> ptr \<Rightarrow> ptr \<Rightarrow> bool" where
  "waitable_typed m p c \<longleftrightarrow> p \<noteq> NULL \<and>
     (case heap m p of Some (Task t) \<Rightarrow> task_waitable t \<and> task_private_data t = c | _ \<Rightarrow> False) \<and> counter_typed m c"

definition group_typed :: "mem \<Rightarrow> ptr \<Rightarrow> bool" where
  "group_typed m g \<longleftrightarrow> g \<noteq> NULL \<and>
     (case heap m g of
        Some (Group gr) \<Rightarrow> group_tasks gr \<noteq> NULL \<and>
          (case heap m (group_tasks gr) of
             Some (Ptr_Array xs) \<Rightarrow> unat (group_count gr) \<le> length xs \<and> None \<notin> set (take (unat (group_count gr)) xs)
           | _ \<Rightarrow> False)
      | _ \<Rightarrow> False)"

text \<open>Worker and client at their places in the code.\<close>

fun worker_typed :: "mem \<Rightarrow> worker_pc \<Rightarrow> bool" where
  "worker_typed m (K_Claim p) = task_typed m p"
| "worker_typed m (K_Perform p) = task_typed m p"
| "worker_typed m (K_Finish p) = task_typed m p"
| "worker_typed m (K_Signal p c) = (task_typed m p \<and> waitable_typed m p c)"
| "worker_typed m (K_Notify c) = counter_typed m c"
| "worker_typed m (K_Fault e) = False"
| "worker_typed m c = True"

fun target_typed :: "mem \<Rightarrow> wait_target \<Rightarrow> ptr \<Rightarrow> bool" where
  "target_typed m (For_Task p) c = waitable_typed m p c"
| "target_typed m (For_Group g) c = (group_typed m g \<and> counter_typed m c)"

fun client_typed :: "mem \<Rightarrow> client_pc \<Rightarrow> bool" where
  "client_typed m (C_Send p k) = (task_typed m p \<and> client_typed m k)"
| "client_typed m (C_Group g i c) = group_typed m g"
| "client_typed m (C_Await x c) = target_typed m x c"
| "client_typed m (C_Free x c) = target_typed m x c"
| "client_typed m (C_Fault e) = False"
| "client_typed m c = True"

section \<open>From the invariant\<close>

lemma active_typed:
  assumes "task_inv m ph bat un" "active (ph p)" "mem_ok m"
  shows "task_typed m p"
  using assms(1,2) mem_ok_live[OF assms(3)] by (fastforce simp: task_inv_def task_typed_def)

lemma batch_typed:
  assumes bi: "batch_inv Metal_Counter m ph bat" and "c \<in> ran bat" "mem_ok m"
  shows "counter_typed m c"
proof -
  obtain v where v: "counter_at Metal_Counter m c v" using bi assms(2) by (rule batch_counter)
  then show ?thesis using assms(3) by (rule metal_counterE) (simp add: counter_typed_def)
qed

lemma private_typed:
  assumes "task_inv m ph bat un" "batch_inv Metal_Counter m ph bat" "mem_ok m" "bat p = Some c" "p \<notin> set un"
  shows "waitable_typed m p c"
proof -
  have "counter_typed m c" using assms(2) ranI[of bat p c, OF assms(4)] assms(3) by (rule batch_typed)
  then show ?thesis
    using assms(1,4,5) mem_ok_live[OF assms(3)] by (fastforce simp: task_inv_def waitable_typed_def)
qed

lemma rep_typed: "group_rep m g l w ts \<Longrightarrow> group_typed m g"
  by (rule group_repE) (auto simp: group_typed_def in_set_conv_nth)

text \<open>Every pointer of a state that satisfies the invariant has its type.\<close>

lemma metal_inv_typed:
  assumes "disp_inv Metal_Counter tokens (metal_env ctx st k) k n s"
  shows "worker_typed (ds_mem s) (ds_worker s i)" and "client_typed (ds_mem s) (ds_client s)"
    and "p \<in> set (ds_todo s @ ds_queue s) \<Longrightarrow> task_typed (ds_mem s) p"
    and "ds_batch s p = Some c \<Longrightarrow> p \<notin> set (ds_todo s) \<Longrightarrow> waitable_typed (ds_mem s) p c"
proof -
  let ?m = "ds_mem s" and ?ph = "ds_phase s" and ?bat = "ds_batch s" and ?un = "unset (ds_client s) (ds_todo s)"
  have ok: "mem_ok ?m" using assms by (auto simp: metal_env_def elim: disp_invE)
  have l: "link_inv ?ph (ds_todo s) (ds_queue s) (ds_worker s)" and ti: "task_inv ?m ?ph ?bat ?un"
    and bi: "batch_inv Metal_Counter ?m ?ph ?bat" and pi: "pc_inv ?bat (ds_worker s)"
    and ni: "note_inv Metal_Counter tokens ?m (ds_note s) ?ph ?bat (ds_worker s) (freeing (ds_client s))"
    and ci: "client_pc_inv ?m ?bat (ds_todo s) (ds_client s)"
    using assms by (auto elim: disp_invE)
  note task = active_typed[OF ti _ ok] and counter = batch_typed[OF bi _ ok] and own = private_typed[OF ti bi ok]
  have un: "set ?un \<subseteq> set (ds_todo s)" by (cases "ds_client s"; cases "ds_todo s") auto
  show todo: "p \<in> set (ds_todo s @ ds_queue s) \<Longrightarrow> task_typed ?m p" for p
    using link_phase(1,2)[OF l, of p] by (intro task) auto
  show bat: "?bat p = Some c \<Longrightarrow> p \<notin> set (ds_todo s) \<Longrightarrow> waitable_typed ?m p c" for p c
    using own un by blast
  have held: "task_typed ?m p" if "work (ds_worker s i) = Some p" for p
    using that unfolding link_phase(3)[OF l] by (intro task) simp
  show "worker_typed ?m (ds_worker s i)"
  proof (cases "ds_worker s i")
    case (K_Signal p c)
    then have ph: "?ph p = Taken i" using link_phase(3)[OF l, of i p] by simp
    then have "p \<notin> set (ds_todo s)" using link_phase(1)[OF l, of p] by simp
    moreover have "?bat p = Some c" using pi K_Signal by (simp add: pc_inv_def)
    ultimately show ?thesis using bat held[of p] K_Signal by simp
  next
    case (K_Notify c)
    then show ?thesis using ni counter by (auto simp: note_inv_def)
  qed (use held pi in \<open>auto simp: pc_inv_def\<close>)
  have target: "target_typed ?m x c" if x: "target_inv ?m ?bat x c" and "ds_todo s = []" for x c
  proof (cases x)
    case (For_Task p)
    then have "?bat p = Some c" using x by auto
    then show ?thesis using bat that(2) For_Task by simp
  next
    case (For_Group g)
    then show ?thesis using x rep_typed counter[OF metal.target_ran[OF x]] by auto
  qed
  show "client_typed ?m (ds_client s)"
  proof (cases "ds_client s")
    case (C_Send p c)
    then have "task_typed ?m p" using ci by (intro todo) auto
    then show ?thesis using ci C_Send by (cases c) (auto simp: group_loop_def rep_typed)
  qed (use ci target in \<open>auto simp: group_loop_def rep_typed\<close>)
qed

section \<open>Properties\<close>

text \<open>C9: the pointers have their types. In every reachable state what a worker or the client holds at its
  place in the code, what is in the queue or still to be sent, and what a task holds as its private data
  points to a live block of the kind that the code takes it for: tasks with a function, event counters with
  their lock, groups with their array of tasks.\<close>

theorem dispatch_store_typed:
  assumes "metal_reach N tokens call ctx st k n s" and "note_laws N tokens"
  shows "(\<forall>i. worker_typed (ds_mem s) (ds_worker s i)) \<and> client_typed (ds_mem s) (ds_client s) \<and>
     (\<forall>p \<in> set (ds_todo s @ ds_queue s). task_typed (ds_mem s) p) \<and>
     (\<forall>p c. ds_batch s p = Some c \<and> p \<notin> set (ds_todo s) \<longrightarrow> waitable_typed (ds_mem s) p c)"
proof -
  have inv: "disp_inv Metal_Counter tokens (metal_env ctx st k) k n s"
    using metal.disp_reach_inv[OF assms(1)[unfolded metal_reach_def] assms(2)] .
  show ?thesis using metal_inv_typed[OF inv] by blast
qed
theorem dispatch_store_typed_witness:
  "ds_batch demo_waiting 3 = Some 10 \<and> waitable_typed (ds_mem demo_waiting) 3 10 \<and> task_typed (ds_mem demo_waiting) 3"
proof -
  have b: "ds_batch demo_waiting 3 = Some 10" "3 \<notin> set (ds_todo demo_waiting)" "3 \<in> set (ds_queue demo_waiting)"
    by code_simp+
  then show ?thesis using dispatch_store_typed[OF demo_waiting_reach binary_notes_laws] by auto
qed

end
