(* ===== verification/Dispatch_Rounds.thy ===== *)
theory Dispatch_Rounds
  imports Dispatch_Metal
begin

text \<open>
  Whole rounds on a bare-metal dispatch queue whose threads take turns: the client adds a task, or a group,
  workers perform the tasks, the client waits. What a round does to the store, the notifications and the
  application is said without reference to the event counter or to the flags: the tasks are gone, nothing
  else has changed.
\<close>

section \<open>A batch of tasks with an event counter\<close>

text \<open>
  The store \<open>m\<close> is \<open>m0\<close> with an event counter at \<open>c\<close>, its lock at \<open>l\<close>, which the tasks \<open>ts\<close> have as
  their private data; it waits for \<open>cnt\<close> more signals.
\<close>

definition batch_store :: "mem \<Rightarrow> ptr \<Rightarrow> ptr \<Rightarrow> nat \<Rightarrow> nat \<Rightarrow> ptr list \<Rightarrow> mem \<Rightarrow> bool" where
  "batch_store m0 c l h cnt ts m \<longleftrightarrow> mem_ok m0 \<and> mem_ok m \<and> c \<noteq> l \<and> heap m0 c = None \<and> heap m0 l = None \<and>
     (\<exists>v. heap m l = Some (Spinlock v)) \<and>
     (\<exists>w. heap m c = Some (Counter_Metal \<lparr>ec_lock = l, ec_cend = h, ec_count = w\<rparr>) \<and> unat w = cnt) \<and>
     (\<forall>p \<in> set ts. \<exists>t. heap m0 p = Some (Task t) \<and> task_waitable t \<and> task_function t \<noteq> NULL \<and>
        heap m p = Some (Task (t\<lparr>task_private_data := c\<rparr>))) \<and>
     (\<forall>p. p \<notin> {c, l} \<union> set ts \<longrightarrow> heap m p = heap m0 p)"

lemma batch_storeE:
  assumes "batch_store m0 c l h cnt ts m"
  obtains v w where "mem_ok m0" "mem_ok m" "c \<noteq> NULL" "l \<noteq> NULL" "c \<noteq> l" "heap m0 c = None" "heap m0 l = None"
    "heap m l = Some (Spinlock v)" "heap m c = Some (Counter_Metal \<lparr>ec_lock = l, ec_cend = h, ec_count = w\<rparr>)"
    "unat w = cnt" "\<And>p. p \<notin> {c, l} \<union> set ts \<Longrightarrow> heap m p = heap m0 p"
    "\<And>p. p \<in> set ts \<Longrightarrow> \<exists>t. heap m0 p = Some (Task t) \<and> task_waitable t \<and> task_function t \<noteq> NULL \<and>
       heap m p = Some (Task (t\<lparr>task_private_data := c\<rparr>))"
proof -
  from assms obtain v w where a: "mem_ok m0" "mem_ok m" "c \<noteq> l" "heap m0 c = None" "heap m0 l = None"
    "heap m l = Some (Spinlock v)" "heap m c = Some (Counter_Metal \<lparr>ec_lock = l, ec_cend = h, ec_count = w\<rparr>)"
    "unat w = cnt" unfolding batch_store_def by blast
  then have "c \<noteq> NULL" "l \<noteq> NULL" using mem_ok_live[OF a(2)] by blast+
  with a show thesis using assms that unfolding batch_store_def by blast
qed

text \<open>All flags are ready.\<close>

definition flags_ready :: "ptr \<Rightarrow> nat \<Rightarrow> mem \<Rightarrow> bool" where
  "flags_ready st k m \<longleftrightarrow> st \<noteq> NULL \<and> heap m st = Some (Word_Array (replicate k (Some DISPATCH_WORKER_READY_STATUS)))"

text \<open>What the tasks \<open>ps\<close> of \<open>m\<close> do to the application.\<close>

definition run_tasks :: "(fptr \<Rightarrow> ptr \<Rightarrow> 'u \<Rightarrow> 'u) \<Rightarrow> mem \<Rightarrow> ptr list \<Rightarrow> 'u \<Rightarrow> 'u" where
  "run_tasks call m ps = fold (\<lambda>p u. case heap m p of
     Some (Task t) \<Rightarrow> call (task_function t) (task_argument t) u | _ \<Rightarrow> u) ps"

lemma write_flag:
  assumes "st \<noteq> NULL" "heap m st = Some (Word_Array xs)" "i < length xs"
  shows "write_word st i v m = Inr (m\<lparr>heap := (heap m)(st \<mapsto> Word_Array (xs[i := Some v]))\<rparr>)"
  using assms by (simp add: write_word_def load_word_array_def load_def write_slot_def store_def)

text \<open>One turn of a worker.\<close>

lemma batch_turn:
  assumes b: "batch_store m0 c l h (Suc cnt) ts m" and f: "flags_ready st k m0" and i: "i < k" and p: "p \<in> set ts"
  shows "\<exists>m'. dispatch_queue_worker_metal N st call i p (m, nt, u) =
       Inr (m', if cnt = 0 then notify N nt h else nt, run_tasks call m0 [p] u) \<and> batch_store m0 c l h cnt ts m'"
  using b
proof (rule batch_storeE)
  fix v w
  assume s: "mem_ok m0" "mem_ok m" "c \<noteq> NULL" "l \<noteq> NULL" "c \<noteq> l" "heap m0 c = None" "heap m0 l = None"
    "heap m l = Some (Spinlock v)" "heap m c = Some (Counter_Metal \<lparr>ec_lock = l, ec_cend = h, ec_count = w\<rparr>)"
    and w: "unat w = Suc cnt" and same: "\<And>p. p \<notin> {c, l} \<union> set ts \<Longrightarrow> heap m p = heap m0 p"
    and task: "\<And>p. p \<in> set ts \<Longrightarrow> \<exists>t. heap m0 p = Some (Task t) \<and> task_waitable t \<and> task_function t \<noteq> NULL \<and>
       heap m p = Some (Task (t\<lparr>task_private_data := c\<rparr>))"
  let ?xs = "replicate k (Some DISPATCH_WORKER_READY_STATUS)"
  let ?m1 = "m\<lparr>heap := (heap m)(st \<mapsto> Word_Array (?xs[i := Some DISPATCH_WORKER_BUSY_STATUS]))\<rparr>"
  let ?m2 = "?m1\<lparr>heap := (heap ?m1)(c \<mapsto> Counter_Metal \<lparr>ec_lock = l, ec_cend = h, ec_count = w - 1\<rparr>)\<rparr>"
  let ?m3 = "m\<lparr>heap := (heap m)(c \<mapsto> Counter_Metal \<lparr>ec_lock = l, ec_cend = h, ec_count = w - 1\<rparr>)\<rparr>"
  obtain t where t: "heap m0 p = Some (Task t)" "task_waitable t" "task_function t \<noteq> NULL"
    "heap m p = Some (Task (t\<lparr>task_private_data := c\<rparr>))" using task[OF p] by blast
  have st: "st \<noteq> NULL" "heap m0 st = Some (Word_Array ?xs)" using f by (simp_all add: flags_ready_def)
  have "st \<notin> {c, l} \<union> set ts" using st(2) s(6,7) task by fastforce
  then have stm: "heap m st = Some (Word_Array ?xs)" "st \<noteq> c" "st \<noteq> p" using same st(2) p by auto
  have pc: "p \<noteq> c" "p \<noteq> NULL" using t(4) s(9) mem_ok_live[OF s(2)] by auto
  have w1: "w > 0" "unat (w - 1) = cnt" "w - 1 = 0 \<longleftrightarrow> cnt = 0"
    using w count_down[of w] by (simp_all add: word_less_nat_alt unat_eq_zero unat_minus_one)
  have "write_word st i DISPATCH_WORKER_BUSY_STATUS m = Inr ?m1" using st(1) stm(1) i by (simp add: write_flag)
  moreover have "write_word st i DISPATCH_WORKER_READY_STATUS ?m2 = Inr ?m3"
  proof -
    have xs: "?xs[i := Some DISPATCH_WORKER_READY_STATUS] = ?xs"
      using i by (intro nth_equalityI) (auto simp: nth_list_update)
    have "write_word st i DISPATCH_WORKER_READY_STATUS ?m2 = Inr (?m2\<lparr>heap := (heap ?m2)(st \<mapsto> Word_Array ?xs)\<rparr>)"
      using write_flag[of st ?m2 "?xs[i := Some DISPATCH_WORKER_BUSY_STATUS]" i] st(1) stm(2) i xs by simp
    moreover have "(heap ?m2)(st \<mapsto> Word_Array ?xs) = heap ?m3" using stm(1,2) by (auto simp: fun_eq_iff)
    ultimately show ?thesis by simp
  qed
  moreover have "run_task (event_counter_signal_metal N) call p ?m1 nt u =
      Inr (?m2, if cnt = 0 then notify N nt h else nt, run_tasks call m0 [p] u)"
    using t pc stm(2,3) s(3,9) w1
    by (simp add: run_task_def dispatch_task_perform_ok load_task_def load_def event_counter_signal_metal_def
        event_counter_decrement_metal_def load_counter_metal_def store_def run_tasks_def)
  ultimately have turn: "dispatch_queue_worker_metal N st call i p (m, nt, u) =
      Inr (?m3, if cnt = 0 then notify N nt h else nt, run_tasks call m0 [p] u)"
    by (simp add: dispatch_queue_worker_metal_def)
  have "mem_ok ?m3" using s(2,9) by (rule mem_ok_upd)
  moreover have "c \<notin> set ts" using task[of c] s(6) by auto
  ultimately have "batch_store m0 c l h cnt ts ?m3"
    using s same task w1(2) unfolding batch_store_def by auto
  with turn show ?thesis by blast
qed


text \<open>The turn of a worker with a task that is not waitable.\<close>

lemma plain_turn:
  assumes ok: "mem_ok m" and f: "flags_ready st k m" and t: "heap m p = Some (Task t)" "\<not> task_waitable t" "task_function t \<noteq> NULL"
    and i: "i < k"
  shows "\<exists>m2. dispatch_queue_worker_metal N st call i p (m, nt, u) =
       Inr (m2, nt, call (task_function t) (task_argument t) u) \<and> heap m2 = (heap m)(p := None)"
proof -
  let ?xs = "replicate k (Some DISPATCH_WORKER_READY_STATUS)"
  let ?m1 = "m\<lparr>heap := (heap m)(st \<mapsto> Word_Array (?xs[i := Some DISPATCH_WORKER_BUSY_STATUS]))\<rparr>"
  let ?m2 = "?m1\<lparr>heap := (heap ?m1)(p := None)\<rparr>"
  have st: "st \<noteq> NULL" "heap m st = Some (Word_Array ?xs)" "st \<noteq> p" using f t(1) by (auto simp: flags_ready_def)
  have p: "p \<noteq> NULL" using mem_ok_live[OF ok] t(1) by blast
  have xs: "?xs[i := Some DISPATCH_WORKER_READY_STATUS] = ?xs"
    using i by (intro nth_equalityI) (auto simp: nth_list_update)
  have "write_word st i DISPATCH_WORKER_BUSY_STATUS m = Inr ?m1" using st i by (simp add: write_flag)
  moreover have "write_word st i DISPATCH_WORKER_READY_STATUS ?m2 =
      Inr (?m2\<lparr>heap := (heap ?m2)(st \<mapsto> Word_Array ?xs)\<rparr>)"
    using write_flag[of st ?m2 "?xs[i := Some DISPATCH_WORKER_BUSY_STATUS]" i] st i xs by simp
  moreover have "run_task (event_counter_signal_metal N) call p ?m1 nt u =
      Inr (?m2, nt, call (task_function t) (task_argument t) u)"
    using t p st(3)
    by (simp add: run_task_def dispatch_task_perform_ok load_task_def load_def dispatch_task_delete_def free_def)
  ultimately have "dispatch_queue_worker_metal N st call i p (m, nt, u) =
      Inr (?m2\<lparr>heap := (heap ?m2)(st \<mapsto> Word_Array ?xs)\<rparr>, nt, call (task_function t) (task_argument t) u)"
    by (simp add: dispatch_queue_worker_metal_def)
  moreover have "heap (?m2\<lparr>heap := (heap ?m2)(st \<mapsto> Word_Array ?xs)\<rparr>) = (heap m)(p := None)"
    using st by (auto simp: fun_eq_iff)
  ultimately show ?thesis by blast
qed

text \<open>The turns of workers, one after the other, each given with the task that it has received.\<close>

definition worker_turns :: "'n note_ops \<Rightarrow> ptr \<Rightarrow> (fptr \<Rightarrow> ptr \<Rightarrow> 'u \<Rightarrow> 'u) \<Rightarrow> (nat \<times> ptr) list \<Rightarrow>
    mem \<times> 'n \<times> 'u \<Rightarrow> (mem \<times> 'n \<times> 'u) result" where
  "worker_turns N st call = foldE (\<lambda>(i, p). dispatch_queue_worker_metal N st call i p)"

lemma batch_turns:
  assumes "batch_store m0 c l h (length ws + cnt) ts m" and f: "flags_ready st k m0"
    and "\<forall>(i, p) \<in> set ws. i < k \<and> p \<in> set ts"
  shows "\<exists>m'. worker_turns N st call ws (m, nt, u) =
       Inr (m', if ws \<noteq> [] \<and> cnt = 0 then notify N nt h else nt, run_tasks call m0 (map snd ws) u) \<and>
     batch_store m0 c l h cnt ts m'"
  using assms(1,3)
proof (induction ws arbitrary: m u)
  case Nil
  then show ?case by (auto simp: worker_turns_def run_tasks_def)
next
  case (Cons w ws)
  obtain i p where w: "w = (i, p)" "i < k" "p \<in> set ts" using Cons.prems(2) by (cases w) auto
  have b: "batch_store m0 c l h (Suc (length ws + cnt)) ts m" using Cons.prems(1) by simp
  obtain m1 where m1: "dispatch_queue_worker_metal N st call i p (m, nt, u) =
      Inr (m1, if length ws + cnt = 0 then notify N nt h else nt, run_tasks call m0 [p] u)"
    "batch_store m0 c l h (length ws + cnt) ts m1"
    using batch_turn[OF b f w(2,3), where N = N and call = call and nt = nt and u = u] by auto
  obtain m' where m': "worker_turns N st call ws (m1, nt, run_tasks call m0 [p] u) =
      Inr (m', if ws \<noteq> [] \<and> cnt = 0 then notify N nt h else nt, run_tasks call m0 (map snd ws) (run_tasks call m0 [p] u))"
    "batch_store m0 c l h cnt ts m'"
    using Cons.IH[OF m1(2)] Cons.prems(2) by fastforce
  show ?case
    using m1 m' w(1) by (cases "ws = []") (auto simp: worker_turns_def run_tasks_def)
qed

text \<open>The wait blocks while the channel is empty; afterwards counter and tasks are deleted.\<close>

abbreviation batch_of :: "ptr list \<Rightarrow> ptr \<Rightarrow> ptr \<rightharpoonup> ptr" where
  "batch_of ts c \<equiv> (\<lambda>p. if p \<in> set ts then Some c else None)"

lemma batch_counter_at:
  assumes "batch_store m0 c l h cnt ts m"
  obtains w where "counter_at Metal_Counter m c \<lparr>vw_chan = h, vw_count = w, vw_lock = l\<rparr>" "unat w = cnt"
  using assms by (rule batch_storeE) (auto simp: counter_at_def)

lemma batch_await:
  assumes "batch_store m0 c l h cnt ts m"
  shows "event_counter_wait_metal N c m nt = Inr (await N nt h)"
  using assms by (rule batch_storeE) (simp add: event_counter_wait_metal_def load_counter_metal_def load_def)

lemma batch_finish:
  assumes b: "batch_store m0 c l h cnt ts m" and x: "target_inv m (batch_of ts c) x c"
  shows "\<exists>m'. wait_finish event_counter_delete_metal x c m = Inr m' \<and> heap m' = heap m0 |` (- set ts)"
  using b
proof (rule batch_storeE)
  assume s: "mem_ok m" "heap m0 c = None" "heap m0 l = None" "\<And>p. p \<notin> {c, l} \<union> set ts \<Longrightarrow> heap m p = heap m0 p"
    and task: "\<And>p. p \<in> set ts \<Longrightarrow> \<exists>t. heap m0 p = Some (Task t) \<and> task_waitable t \<and> task_function t \<noteq> NULL \<and>
       heap m p = Some (Task (t\<lparr>task_private_data := c\<rparr>))"
  obtain w where w: "counter_at Metal_Counter m c \<lparr>vw_chan = h, vw_count = w, vw_lock = l\<rparr>"
    using batch_counter_at[OF b] by blast
  have live: "\<exists>t. heap m p = Some (Task t)" if "batch_of ts c p = Some c" for p
    using task[of p] that by (auto split: if_splits)
  have "wait_finish event_counter_delete_metal x c m =
      Inr (m\<lparr>heap := (heap m) |` (- ({c, l} \<union> {p. batch_of ts c p = Some c}))\<rparr>)"
    using metal.wait_finish_ok[OF s(1) w x live] by simp
  moreover have "(heap m) |` (- ({c, l} \<union> {p. batch_of ts c p = Some c})) = heap m0 |` (- set ts)"
    using s(2-4) by (auto simp: restrict_map_def fun_eq_iff)
  ultimately show ?thesis by simp
qed


section \<open>The client\<close>

lemma batch_task:
  assumes "batch_store m0 c l h cnt ts m" "p \<in> set ts"
  shows "task_wait_counter p m = Inr c"
  using assms(1)
proof (rule batch_storeE)
  assume "mem_ok m" and "\<And>p. p \<in> set ts \<Longrightarrow> \<exists>t. heap m0 p = Some (Task t) \<and> task_waitable t \<and> task_function t \<noteq> NULL \<and>
       heap m p = Some (Task (t\<lparr>task_private_data := c\<rparr>))"
  then show ?thesis using assms(2) mem_ok_live[of m p] by (fastforce simp: task_wait_counter_def load_task_def load_def)
qed

lemma batch_same:
  assumes "batch_store m0 c l h cnt ts m" "heap m0 p = Some ob" "p \<notin> set ts"
  shows "heap m p = Some ob"
proof -
  have "p \<noteq> c" "p \<noteq> l" using assms(1,2) by (auto simp: batch_store_def)
  then show ?thesis using assms by (simp add: batch_store_def)
qed

lemma batch_other:
  assumes b: "batch_store m0 c l h cnt ts m" and ob: "heap m0 p = Some ob" "\<And>t. ob \<noteq> Task t"
  shows "heap m p = Some ob"
proof -
  have "p \<notin> set ts"
  proof
    assume "p \<in> set ts"
    then obtain t where "heap m0 p = Some (Task t)" using b unfolding batch_store_def by blast
    then show False using ob by simp
  qed
  with b ob(1) show ?thesis by (rule batch_same)
qed

lemma batch_group:
  assumes b: "batch_store m0 c l h cnt ts m" and g: "group_rep m0 grp n w us"
  shows "group_rep m grp n w us"
  using g
proof (rule group_rep_frame)
  fix p ob
  assume "heap m0 p = Some ob" "(\<exists>g. ob = Group g) \<or> (\<exists>xs. ob = Ptr_Array xs)"
  then show "heap m p = Some ob" using batch_other[OF b] by auto
qed

lemma batch_group_counter:
  assumes b: "batch_store m0 c l h cnt ts m" and g: "group_rep m0 grp n True ts" and "ts \<noteq> []"
  shows "group_wait_counter grp m = Inr c"
proof -
  have "0 < length ts" using assms(3) by simp
  with metal.group_rep_nth[OF batch_group[OF b g] this]
  show ?thesis using batch_group[OF b g] batch_task[OF b nth_mem[of 0 ts]] assms(3)
    by (auto simp: group_wait_counter_def task_wait_counter_def result_simps mem_simps elim: group_repE)
qed

text \<open>Adding makes the batch.\<close>

lemma batch_create:
  assumes ok: "mem_ok m" and mem: "\<not> oom m (brk m)" "\<not> oom m (Suc (brk m))"
  shows "\<exists>c l m1. event_counter_create_metal h w m = Inr (c, m1) \<and> batch_store m c l h (unat w) [] m1"
proof -
  let ?c = "Suc (brk m)"
  let ?m1 = "m\<lparr>brk := Suc ?c, heap := (heap m)
       (?c \<mapsto> Counter_Metal \<lparr>ec_lock = Suc ?c, ec_cend = h, ec_count = w\<rparr>, Suc ?c \<mapsto> Spinlock SPINLOCK_INITIAL_VALUE)\<rparr>"
  have "batch_store m ?c (Suc ?c) h (unat w) [] ?m1" using ok by (auto simp: batch_store_def mem_ok_def)
  then show ?thesis using event_counter_create_metal_ok[OF mem] by blast
qed

lemma batch_mark:
  assumes b: "batch_store m0 c l h cnt ts m" and t: "heap m0 p = Some (Task t)" "task_waitable t" "task_function t \<noteq> NULL"
    and p: "p \<notin> set ts"
  shows "load_task p m = Inr t"
    and "batch_store m0 c l h cnt (ts @ [p]) (m\<lparr>heap := (heap m)(p \<mapsto> Task (t\<lparr>task_private_data := c\<rparr>))\<rparr>)"
    and "p \<noteq> NULL"
proof -
  have ok: "mem_ok m" using b by (simp add: batch_store_def)
  have hp: "heap m p = Some (Task t)" using b t(1) p by (rule batch_same)
  then show "load_task p m = Inr t" "p \<noteq> NULL" using mem_ok_live[OF ok] by (simp_all add: load_task_def load_def)
  have ok': "mem_ok (m\<lparr>heap := (heap m)(p \<mapsto> Task (t\<lparr>task_private_data := c\<rparr>))\<rparr>)" using ok hp by (rule mem_ok_upd)
  have ne: "p \<noteq> c" "p \<noteq> l" using b t(1) by (auto simp: batch_store_def)
  show "batch_store m0 c l h cnt (ts @ [p]) (m\<lparr>heap := (heap m)(p \<mapsto> Task (t\<lparr>task_private_data := c\<rparr>))\<rparr>)"
    using b ok' t ne p unfolding batch_store_def by simp
qed

lemma batch_task_add:
  assumes ok: "mem_ok m" "ctx \<noteq> NULL" and t: "heap m p = Some (Task t)" "task_waitable t" "task_function t \<noteq> NULL"
    and mem: "\<not> oom m (brk m)" "\<not> oom m (Suc (brk m))" and room: "length q < n"
  shows "\<exists>c l m1. dispatch_queue_task_add_metal n h ctx p (m, nt, q) = Inr (Some (m1, nt, q @ [p])) \<and>
     batch_store m c l h 1 [p] m1"
proof -
  obtain c l m1 where m1: "event_counter_create_metal h 1 m = Inr (c, m1)" "batch_store m c l h 1 [] m1"
    using batch_create[OF ok(1) mem, of h 1] by auto
  note mark = batch_mark[OF m1(2) t, simplified]
  have load: "load_task p m = Inr t" using t(1) mark(3) by (simp add: load_task_def load_def)
  have "store p (Task (t\<lparr>task_private_data := c\<rparr>)) m1 = Inr (m1\<lparr>heap := (heap m1)(p \<mapsto> Task (t\<lparr>task_private_data := c\<rparr>))\<rparr>)"
    using mark(1,3) by (auto simp: store_def load_task_def load_def result_simps split: if_splits option.splits)
  then have "dispatch_queue_task_add_metal n h ctx p (m, nt, q) =
      Inr (Some (m1\<lparr>heap := (heap m1)(p \<mapsto> Task (t\<lparr>task_private_data := c\<rparr>))\<rparr>, nt, q @ [p]))"
    using load m1(1) ok(2) mark(3) t(2) room
    by (simp add: dispatch_queue_task_add_metal_def call_task_add_def task_add_prepare_def send_def)
  then show ?thesis using mark(2) by (metis One_nat_def)
qed

lemma batch_group_add:
  assumes ok: "mem_ok m" "ctx \<noteq> NULL" and g: "group_rep m grp l True ts" "distinct ts"
    and tasks: "\<forall>p \<in> set ts. \<exists>t. heap m p = Some (Task t) \<and> task_waitable t \<and> task_function t \<noteq> NULL"
    and mem: "\<not> oom m (brk m)" "\<not> oom m (Suc (brk m))" and room: "length q + length ts \<le> n"
  shows "\<exists>c l m1. dispatch_queue_group_add_metal n h ctx grp (m, nt, q) = Inr (Some (m1, nt, q @ ts)) \<and>
     batch_store m c l h (length ts) ts m1"
  using g(1)
proof (rule group_repE)
  fix gr xs
  assume gr: "grp \<noteq> NULL" "heap m grp = Some (Group gr)" "group_tasks gr \<noteq> NULL"
    "heap m (group_tasks gr) = Some (Ptr_Array xs)" "group_waitable gr = True" "unat (group_count gr) = length ts"
  obtain c l' m1 where m1: "event_counter_create_metal h (group_count gr) m = Inr (c, m1)"
    "batch_store m c l' h (length ts) [] m1"
    using batch_create[OF ok(1) mem, of h "group_count gr"] gr(6) by auto
  let ?P = "\<lambda>i st. \<exists>m'. st = Some (m', nt, q @ take i ts) \<and> batch_store m c l' h (length ts) (take i ts) m'"
  have "\<exists>st. group_add_loop n gr c 0 (Some (m1, nt, q)) = Inr st \<and> ?P (length ts) st"
    unfolding group_add_loop_def gr(6)
  proof (rule for_range_rule[where P = ?P])
    fix i st
    assume i: "i < length ts" and "?P i st"
    then obtain m' where st: "st = Some (m', nt, q @ take i ts)" and b: "batch_store m c l' h (length ts) (take i ts) m'" by blast
    obtain t where t: "heap m (ts ! i) = Some (Task t)" "task_waitable t" "task_function t \<noteq> NULL"
      using tasks nth_mem[OF i] by blast
    have new: "ts ! i \<notin> set (take i ts)"
      using g(2) i by (metis distinct_take lessI not_distinct_conv_prefix take_Suc_conv_app_nth)
    note mark = batch_mark[OF b t new]
    let ?m = "m'\<lparr>heap := (heap m')(ts ! i \<mapsto> Task (t\<lparr>task_private_data := c\<rparr>))\<rparr>"
    have "store (ts ! i) (Task (t\<lparr>task_private_data := c\<rparr>)) m' = Inr ?m"
      using mark(1,3) by (auto simp: store_def load_task_def load_def result_simps split: if_splits option.splits)
    moreover have "read_ptr (group_tasks gr) i m' = Inr (ts ! i)"
    proof -
      have "load_group grp m' = Inr gr"
        using gr(1) batch_other[OF b gr(2)] by (simp add: load_group_def load_def)
      then show ?thesis using metal.group_rep_nth[OF batch_group[OF b g(1)] i] by auto
    qed
    moreover have "length (q @ take i ts) < n" using room i by simp
    ultimately show "\<exists>st'. (case st of None \<Rightarrow> Inr None | Some (m, nt, q) \<Rightarrow>
         bindE (read_ptr (group_tasks gr) i m) (\<lambda>task. bindE (load_task task m) (\<lambda>t.
         bindE (store task (Task (t\<lparr>task_private_data := c\<rparr>)) m) (\<lambda>m. Inr (send n task (m, nt, q)))))) = Inr st' \<and> ?P (Suc i) st'"
      using st mark(1,2) i by (simp add: send_def take_Suc_conv_app_nth)
  qed (use m1(2) in simp_all)
  then obtain m' where m': "group_add_loop n gr c 0 (Some (m1, nt, q)) = Inr (Some (m', nt, q @ ts))"
    "batch_store m c l' h (length ts) ts m'" by auto
  have load: "load_group grp m = Inr gr" using gr(1,2) by (simp add: load_group_def load_def)
  have "load_group grp m1 = Inr gr"
    using gr(1) batch_other[OF m1(2) gr(2)] by (simp add: load_group_def load_def)
  then have "dispatch_queue_group_add_metal n h ctx grp (m, nt, q) = Inr (Some (m', nt, q @ ts))"
    using load m1(1) m'(1) ok(2) gr(1,5)
    by (simp add: dispatch_queue_group_add_metal_def call_group_add_def group_add_prepare_def group_add_loop_def)
  with m'(2) show ?thesis by blast
qed


section \<open>The wait\<close>

lemma batch_wait:
  assumes b: "batch_store m0 c l h cnt ts m" and x: "target_inv m (batch_of ts c) x c"
  shows "await N nt h = None \<Longrightarrow>
      call_wait (event_counter_wait_metal N) (Inr c) (wait_finish event_counter_delete_metal x) (m, nt, q) = Inr None"
    and "await N nt h = Some nt' \<Longrightarrow>
      \<exists>m'. call_wait (event_counter_wait_metal N) (Inr c) (wait_finish event_counter_delete_metal x) (m, nt, q) =
        Inr (Some (m', nt', q)) \<and> heap m' = heap m0 |` (- set ts)"
  using batch_await[OF b, of N nt] batch_finish[OF b x] by (auto simp: call_wait_def)

lemma task_wait_call:
  assumes "task_wait_counter p m = Inr c"
  shows "dispatch_queue_task_wait_metal N p (m, nt, q) =
     call_wait (event_counter_wait_metal N) (Inr c) (wait_finish event_counter_delete_metal (For_Task p)) (m, nt, q)"
  using assms by (simp add: dispatch_queue_task_wait_metal_def call_task_wait_def wait_finish_def[abs_def])

lemma group_wait_call:
  assumes "group_wait_counter grp m = Inr c"
  shows "dispatch_queue_group_wait_metal N grp (m, nt, q) =
     call_wait (event_counter_wait_metal N) (Inr c) (wait_finish event_counter_delete_metal (For_Group grp)) (m, nt, q)"
  using assms by (simp add: dispatch_queue_group_wait_metal_def call_group_wait_def wait_finish_def[abs_def])

text \<open>A notification that is sent and taken leaves the notifications as they were.\<close>

lemma notify_await:
  assumes "note_laws N tokens" "tokens nt h = 0"
  obtains nt' where "await N (notify N nt h) h = Some nt'" "tokens nt' = tokens nt"
proof -
  have n: "tokens (notify N nt h) = (tokens nt)(h := 1)" using assms by (simp add: note_laws_def)
  then have "await N (notify N nt h) h \<noteq> None" using assms(1) by (simp add: note_laws_def)
  then obtain nt' where nt': "await N (notify N nt h) h = Some nt'" by blast
  then have "tokens nt' = (tokens nt)(h := 0)" using assms(1) n by (simp add: note_laws_def)
  then have "tokens nt' = tokens nt" using assms(2) by (simp add: fun_upd_idem)
  with nt' show thesis by (rule that)
qed

section \<open>A small store\<close>

text \<open>A dispatch queue with one worker; a waitable task, one that is not, and a group of two tasks.\<close>

definition round_demo :: mem where
  "round_demo = \<lparr>brk = 9, oom = (\<lambda>_. False), heap = [
     1 \<mapsto> Dispatch_Metal \<lparr>dx_length = 4, dx_thread_count = 2, dx_thread_stack_size = 64, dx_queue = 9,
       dx_cend = 0, dx_thread_stack = 9, dx_thread_status = 2, dx_worker_data = 9\<rparr>,
     2 \<mapsto> Word_Array [Some DISPATCH_WORKER_READY_STATUS, Some DISPATCH_WORKER_READY_STATUS],
     3 \<mapsto> Task \<lparr>task_function = 7, task_argument = 2, task_waitable = True, task_private_data = NULL\<rparr>,
     4 \<mapsto> Task \<lparr>task_function = 7, task_argument = 3, task_waitable = True, task_private_data = NULL\<rparr>,
     5 \<mapsto> Group \<lparr>group_length = 2, group_count = 2, group_waitable = True, group_tasks = 6\<rparr>,
     6 \<mapsto> Ptr_Array [Some 3, Some 4]]\<rparr>"

lemma round_demo_env: "metal_env 1 2 2 round_demo nt" "flags_ready 2 2 round_demo"
proof -
  have "mem_ok round_demo" by (auto simp: mem_ok_def round_demo_def split: if_splits)
  then show "metal_env 1 2 2 round_demo nt"
    by (auto simp: metal_env_def round_demo_def
        intro: exI[of _ "[DISPATCH_WORKER_READY_STATUS, DISPATCH_WORKER_READY_STATUS]"])
qed (simp add: flags_ready_def round_demo_def numeral_2_eq_2)

lemma round_demo_group: "group_rep round_demo 5 2 True [3, 4]"
  by (auto simp: group_rep_def round_demo_def less_Suc_eq)

section \<open>Properties\<close>

text \<open>C10: a task from its addition to its end. On a dispatch queue with all flags ready, a waitable task that
  is added goes to the end of the queue; \<open>dispatch_queue_task_wait\<close> blocks before a worker has taken its
  turn with the task, and afterwards, with the function called once on its argument, it returns; then the
  store is as before without the task, its event counter given back and the flag of the worker ready again, and
  no notification is left. A task that is not waitable is deleted by its worker.\<close>

theorem dispatch_task_round:
  assumes laws: "note_laws N tokens" and env: "metal_env ctx st k m nt" "flags_ready st k m"
    and t: "heap m p = Some (Task t)" "task_function t \<noteq> NULL" and h: "tokens nt h = 0"
    and mem: "\<not> oom m (brk m)" "\<not> oom m (Suc (brk m))" and room: "length q < n" and i: "i < k"
  shows "if task_waitable t then
       \<exists>m1 m2 nt2 m3 nt3. dispatch_queue_task_add_metal n h ctx p (m, nt, q) = Inr (Some (m1, nt, q @ [p])) \<and>
         dispatch_queue_task_wait_metal N p (m1, nt, q @ [p]) = Inr None \<and>
         dispatch_queue_worker_metal N st call i p (m1, nt, u) =
           Inr (m2, nt2, call (task_function t) (task_argument t) u) \<and>
         dispatch_queue_task_wait_metal N p (m2, nt2, q) = Inr (Some (m3, nt3, q)) \<and>
         heap m3 = (heap m)(p := None) \<and> tokens nt3 = tokens nt
     else
       \<exists>m2. dispatch_queue_task_add_metal n h ctx p (m, nt, q) = Inr (Some (m, nt, q @ [p])) \<and>
         dispatch_queue_task_wait_metal N p (m, nt, q @ [p]) = Inl Assertion_Failed \<and>
         dispatch_queue_worker_metal N st call i p (m, nt, u) =
           Inr (m2, nt, call (task_function t) (task_argument t) u) \<and>
         heap m2 = (heap m)(p := None)"
proof (cases "task_waitable t")
  case True
  have ok: "mem_ok m" "ctx \<noteq> NULL" using env(1) by (simp_all add: metal_env_def)
  obtain c l m1 where m1: "dispatch_queue_task_add_metal n h ctx p (m, nt, q) = Inr (Some (m1, nt, q @ [p]))"
    "batch_store m c l h 1 [p] m1"
    using batch_task_add[OF ok t(1) True t(2) mem room, of h nt] by blast
  have b: "batch_store m c l h (Suc 0) [p] m1" using m1(2) by simp
  obtain m2 where m2: "dispatch_queue_worker_metal N st call i p (m1, nt, u) = Inr (m2, notify N nt h, run_tasks call m [p] u)"
    "batch_store m c l h 0 [p] m2"
    using batch_turn[OF b env(2) i, of p N call nt u] by auto
  have x: "target_inv m' (batch_of [p] c) (For_Task p) c" for m' by auto
  obtain nt3 where nt3: "await N (notify N nt h) h = Some nt3" "tokens nt3 = tokens nt"
    using notify_await[OF laws h] by blast
  have blocked: "await N nt h = None" using laws h by (simp add: note_laws_def)
  have "task_wait_counter p m1 = Inr c" "task_wait_counter p m2 = Inr c"
    using batch_task[OF m1(2)] batch_task[OF m2(2)] by simp_all
  note wait = this[THEN task_wait_call]
  have "dispatch_queue_task_wait_metal N p (m1, nt, q @ [p]) = Inr None"
    unfolding wait(1) by (rule batch_wait(1)[OF m1(2) x blocked])
  moreover obtain m3 where "dispatch_queue_task_wait_metal N p (m2, notify N nt h, q) = Inr (Some (m3, nt3, q))"
    "heap m3 = heap m |` (- set [p])"
    unfolding wait(2) using batch_wait(2)[OF m2(2) x nt3(1), of q] by blast
  moreover have "heap m |` (- set [p]) = (heap m)(p := None)" by (auto simp: restrict_map_def fun_eq_iff)
  moreover have "run_tasks call m [p] u = call (task_function t) (task_argument t) u" by (simp add: run_tasks_def t(1))
  ultimately show ?thesis using True m1(1) m2(1) nt3(2) by auto
next
  case False
  have ok: "mem_ok m" "ctx \<noteq> NULL" using env(1) by (simp_all add: metal_env_def)
  have p: "p \<noteq> NULL" using mem_ok_live[OF ok(1)] t(1) by blast
  have load: "load_task p m = Inr t" using t(1) p by (simp add: load_task_def load_def)
  have "dispatch_queue_task_add_metal n h ctx p (m, nt, q) = Inr (Some (m, nt, q @ [p]))"
    "dispatch_queue_task_wait_metal N p (m, nt, q @ [p]) = Inl Assertion_Failed"
    using load ok(2) p False room
    by (simp_all add: dispatch_queue_task_add_metal_def call_task_add_def task_add_prepare_def send_def
        dispatch_queue_task_wait_metal_def call_task_wait_def call_wait_def task_wait_counter_def assertE_def)
  then show ?thesis using plain_turn[OF ok(1) env(2) t(1) False t(2) i, of N call nt u] False by auto
qed

text \<open>C11: a group from its addition to its end. On a dispatch queue with all flags ready, a waitable group
  that is added puts its tasks at the end of the queue in their order. However the tasks are spread over the
  workers, and in whatever order these take their turns: \<open>dispatch_queue_group_wait\<close> blocks before the last turn
  has been taken, and after it, with the function of each task called once in the order of the turns, it
  returns; then the store is as before without the tasks, the event counter given back and the flags ready
  again, and no notification is left.\<close>

theorem dispatch_group_round:
  assumes laws: "note_laws N tokens" and env: "metal_env ctx st k m nt" "flags_ready st k m"
    and g: "group_rep m grp len True ts" "distinct ts" "ts \<noteq> []"
    and tasks: "\<forall>p \<in> set ts. \<exists>t. heap m p = Some (Task t) \<and> task_waitable t \<and> task_function t \<noteq> NULL"
    and h: "tokens nt h = 0" and mem: "\<not> oom m (brk m)" "\<not> oom m (Suc (brk m))" and room: "length q + length ts \<le> n"
    and ws: "distinct (map snd ws)" "set (map snd ws) = set ts" "\<forall>i \<in> set (map fst ws). i < k"
  shows "\<exists>m1. dispatch_queue_group_add_metal n h ctx grp (m, nt, q) = Inr (Some (m1, nt, q @ ts)) \<and>
     (\<forall>j < length ws. \<exists>m2 u2. worker_turns N st call (take j ws) (m1, nt, u) = Inr (m2, nt, u2) \<and>
        dispatch_queue_group_wait_metal N grp (m2, nt, q) = Inr None) \<and>
     (\<exists>m2 nt2 m3 nt3. worker_turns N st call ws (m1, nt, u) = Inr (m2, nt2, run_tasks call m (map snd ws) u) \<and>
        dispatch_queue_group_wait_metal N grp (m2, nt2, q) = Inr (Some (m3, nt3, q)) \<and>
        heap m3 = heap m |` (- set ts) \<and> tokens nt3 = tokens nt)"
proof -
  have ok: "mem_ok m" "ctx \<noteq> NULL" using env(1) by (simp_all add: metal_env_def)
  obtain c l m1 where m1: "dispatch_queue_group_add_metal n h ctx grp (m, nt, q) = Inr (Some (m1, nt, q @ ts))"
    "batch_store m c l h (length ts) ts m1"
    using batch_group_add[OF ok g(1,2) tasks mem room, of h nt] by blast
  have len: "length ws = length ts" using ws(1,2) g(2) by (metis distinct_card length_map)
  have turns: "\<forall>(i, p) \<in> set (take j ws). i < k \<and> p \<in> set ts" for j
    using ws(2,3) set_take_subset[of j ws] by force
  have x: "target_inv m' (batch_of ts c) (For_Group grp) c" if "batch_store m c l h cnt ts m'" for cnt m'
    using batch_group[OF that g(1)] g(2,3) by auto
  have wait: "dispatch_queue_group_wait_metal N grp (m', nt', q) = call_wait (event_counter_wait_metal N) (Inr c)
      (wait_finish event_counter_delete_metal (For_Group grp)) (m', nt', q)"
    if "batch_store m c l h cnt ts m'" for cnt m' nt'
    using that g(1,3) by (intro group_wait_call batch_group_counter)
  have blocked: "await N nt h = None" using laws h by (simp add: note_laws_def)
  have ne: "ws \<noteq> []" using len g(3) by auto
  have "\<forall>(i, p) \<in> set ws. i < k \<and> p \<in> set ts" using turns[of "length ws"] by simp
  moreover have "batch_store m c l h (length ws + 0) ts m1" using m1(2) len by simp
  ultimately obtain m2 where m2: "worker_turns N st call ws (m1, nt, u) = Inr (m2, notify N nt h, run_tasks call m (map snd ws) u)"
    "batch_store m c l h 0 ts m2"
    using batch_turns[OF _ env(2), of c l h ws 0 ts m1 N call nt u] ne by auto
  have "\<exists>m2 u2. worker_turns N st call (take j ws) (m1, nt, u) = Inr (m2, nt, u2) \<and>
      dispatch_queue_group_wait_metal N grp (m2, nt, q) = Inr None" if j: "j < length ws" for j
  proof -
    have "batch_store m c l h (length (take j ws) + (length ts - j)) ts m1" using m1(2) j len by simp
    from batch_turns[OF this env(2) turns, of N call nt u] obtain m2 where
      m2: "worker_turns N st call (take j ws) (m1, nt, u) = Inr (m2, nt, run_tasks call m (map snd (take j ws)) u)"
      "batch_store m c l h (length ts - j) ts m2" using j len by auto
    then show ?thesis using wait[OF m2(2)] batch_wait(1)[OF m2(2) x[OF m2(2)] blocked] by auto
  qed
  moreover obtain nt3 where nt3: "await N (notify N nt h) h = Some nt3" "tokens nt3 = tokens nt"
    using notify_await[OF laws h] by blast
  moreover obtain m3 where "dispatch_queue_group_wait_metal N grp (m2, notify N nt h, q) = Inr (Some (m3, nt3, q))"
    "heap m3 = heap m |` (- set ts)"
    using wait[OF m2(2)] batch_wait(2)[OF m2(2) x[OF m2(2)] nt3(1), of q] by auto
  ultimately show ?thesis using m1(1) m2(1) by blast
qed

text \<open>The function counts in base 10.\<close>

definition digits_call :: "fptr \<Rightarrow> ptr \<Rightarrow> nat \<Rightarrow> nat" where
  "digits_call f a u = 10 * u + a"

lemma round_demo_simps [simp]:
  "heap round_demo 3 = Some (Task \<lparr>task_function = 7, task_argument = 2, task_waitable = True, task_private_data = NULL\<rparr>)"
  "heap round_demo 4 = Some (Task \<lparr>task_function = 7, task_argument = 3, task_waitable = True, task_private_data = NULL\<rparr>)"
  "\<not> oom round_demo b"
  by (simp_all add: round_demo_def)

theorem dispatch_task_round_witness:
  "\<exists>m1 m2 nt2 m3 nt3. dispatch_queue_task_add_metal 1 6 1 3 (round_demo, \<lambda>_ :: nat. 0 :: nat, []) = Inr (Some (m1, \<lambda>_ :: nat. 0, [3])) \<and>
     dispatch_queue_worker_metal binary_notes 2 digits_call 0 3 (m1, \<lambda>_ :: nat. 0, 5) = Inr (m2, nt2, 52) \<and>
     dispatch_queue_task_wait_metal binary_notes 3 (m2, nt2, []) = Inr (Some (m3, nt3, [])) \<and> heap m3 3 = None"
proof -
  have "digits_call 7 2 5 = 52" by (simp add: digits_call_def)
  moreover have "(0 :: nat) < 2" "length [] < (1 :: nat)" by simp_all
  note round = dispatch_task_round[where tokens = "\<lambda>n. n" and nt = "\<lambda>_. 0" and h = 6, OF binary_notes_laws round_demo_env round_demo_simps(1) _ refl
      round_demo_simps(3) round_demo_simps(3) this(2,1), where call = digits_call and u = 5, simplified]
  from round obtain m1 m2 nt2 m3 where
    "dispatch_queue_task_add_metal (Suc 0) 6 (Suc 0) 3 (round_demo, \<lambda>_ :: nat. 0 :: nat, []) = Inr (Some (m1, \<lambda>_ :: nat. 0, [3]))"
    "dispatch_queue_worker_metal binary_notes 2 digits_call 0 3 (m1, \<lambda>_ :: nat. 0, 5) = Inr (m2, nt2, digits_call 7 2 5)"
    "dispatch_queue_task_wait_metal binary_notes 3 (m2, nt2, []) = Inr (Some (m3, \<lambda>_. 0, []))"
    "heap m3 = (heap round_demo)(3 := None)" by (elim exE conjE) (rule that; assumption)
  ultimately show ?thesis unfolding One_nat_def by (metis fun_upd_same)
qed

theorem dispatch_group_round_witness:
  "\<exists>m1 m2 nt2 m3 nt3. dispatch_queue_group_add_metal 2 6 1 5 (round_demo, \<lambda>_ :: nat. 0 :: nat, []) = Inr (Some (m1, \<lambda>_ :: nat. 0, [3, 4])) \<and>
     worker_turns binary_notes 2 digits_call [(1, 4), (0, 3)] (m1, \<lambda>_ :: nat. 0, 5) = Inr (m2, nt2, 532) \<and>
     dispatch_queue_group_wait_metal binary_notes 5 (m2, nt2, []) = Inr (Some (m3, nt3, [])) \<and> heap m3 = heap round_demo |` (- {3, 4})"
proof -
  let ?ws = "[(1, 4), (0, 3)] :: (nat \<times> ptr) list" and ?nt = "\<lambda>_ :: nat. 0 :: nat"
  have run: "run_tasks digits_call round_demo (map snd ?ws) 5 = 532" by (simp add: run_tasks_def digits_call_def)
  have tasks: "\<forall>p \<in> set [3, 4]. \<exists>t. heap round_demo p = Some (Task t) \<and> task_waitable t \<and> task_function t \<noteq> NULL"
    by simp
  have ws: "distinct (map snd ?ws)" "set (map snd ?ws) = set [3, 4]" "\<forall>i \<in> set (map fst ?ws). i < 2" by auto
  have l: "distinct [3, 4 :: ptr]" "[3, 4 :: ptr] \<noteq> []" "length [] + length [3, 4 :: ptr] \<le> 2" "?nt 6 = 0" by simp_all
  note round = dispatch_group_round[where tokens = "\<lambda>n. n" and nt = ?nt and h = 6, OF binary_notes_laws round_demo_env
      round_demo_group l(1,2) tasks l(4) round_demo_simps(3) round_demo_simps(3) l(3) ws, where call = digits_call and u = 5,
      unfolded run append_Nil]
  from round obtain m1 m2 nt2 m3 nt3 where
    "dispatch_queue_group_add_metal 2 6 1 5 (round_demo, ?nt, []) = Inr (Some (m1, ?nt, [3, 4]))"
    "worker_turns binary_notes 2 digits_call ?ws (m1, ?nt, 5) = Inr (m2, nt2, 532)"
    "dispatch_queue_group_wait_metal binary_notes 5 (m2, nt2, []) = Inr (Some (m3, nt3, []))"
    and h: "heap m3 = heap round_demo |` (- set [3, 4])" by (elim exE conjE) (rule that; assumption)
  moreover have "heap m3 = heap round_demo |` (- {3, 4})" using h by simp
  ultimately show ?thesis by (intro exI conjI)
qed

end
