(* ===== verification/Dispatch_Queue_RTOS.thy ===== *)
theory Dispatch_Queue_RTOS
  imports Dispatch_Common
begin

text \<open>
  The dispatch queue on FreeRTOS, after \<open>dispatch_queue_rtos.c\<close>: its sequential operations over the
  store. Queues, event groups and tasks belong to the kernel, which is not part of the program.
  Their handles are arguments; the bits of an event group are operated by the fields of
  \<open>event_ops\<close>, of which \<open>event_laws\<close> says what the kernel documents; and \<open>dispatch_queue_init\<close> returns
  the tasks it asks the kernel to create, as a list of \<open>task_launch\<close>es. Adding and waiting are the
  definitions of theory \<open>Dispatch_Common\<close>; how the tasks run together is the subject of theories
  \<open>Dispatch_Threads\<close> and \<open>Dispatch_RTOS\<close>.
\<close>

section \<open>Event groups\<close>

unbundle bit_operations_syntax

text \<open>
  An event group has 24 bits for its users (\<open>configUSE_16_BIT_TICKS\<close> is 0); the others belong to the
  kernel, and setting or clearing one of them fails its \<open>configASSERT\<close>, which \<open>FreeRTOSConfig.h\<close> defines
  as \<open>xassert\<close>.
\<close>

record 'n event_ops =
  ev_get :: "'n \<Rightarrow> nat \<Rightarrow> 32 word"
  ev_set :: "'n \<Rightarrow> nat \<Rightarrow> 32 word \<Rightarrow> 'n result"
  ev_clear :: "'n \<Rightarrow> nat \<Rightarrow> 32 word \<Rightarrow> 'n result"

definition event_laws :: "'n event_ops \<Rightarrow> bool" where
  "event_laws E \<longleftrightarrow>
     (\<forall>n g b. b < 2 ^ 24 \<longrightarrow>
        (\<exists>n'. ev_set E n g b = Inr n' \<and> ev_get E n' = (ev_get E n)(g := ev_get E n g OR b)) \<and>
        (\<exists>n'. ev_clear E n g b = Inr n' \<and> ev_get E n' = (ev_get E n)(g := ev_get E n g AND NOT b))) \<and>
     (\<forall>n g b. \<not> b < 2 ^ 24 \<longrightarrow> ev_set E n g b = Inl Assertion_Failed \<and> ev_clear E n g b = Inl Assertion_Failed)"

lemma event_lawsD:
  assumes "event_laws E"
  shows "b < 2 ^ 24 \<Longrightarrow> \<exists>n'. ev_set E n g b = Inr n' \<and> ev_get E n' = (ev_get E n)(g := ev_get E n g OR b)"
    and "b < 2 ^ 24 \<Longrightarrow> \<exists>n'. ev_clear E n g b = Inr n' \<and> ev_get E n' = (ev_get E n)(g := ev_get E n g AND NOT b)"
    and "\<not> b < 2 ^ 24 \<Longrightarrow> ev_set E n g b = Inl Assertion_Failed"
  using assms by (simp_all add: event_laws_def)

text \<open>A kernel with binary semaphores and event groups that keeps the laws.\<close>

type_synonym small_kernel = "(nat \<Rightarrow> nat) \<times> (nat \<Rightarrow> 32 word)"

definition kernel_notes :: "small_kernel note_ops" where
  "kernel_notes =
     \<lparr>notify = (\<lambda>(s, e) h. (s(h := 1), e)),
      await = (\<lambda>(s, e) h. if s h = 0 then None else Some (s(h := s h - 1), e))\<rparr>"

definition kernel_events :: "small_kernel event_ops" where
  "kernel_events =
     \<lparr>ev_get = (\<lambda>(s, e). e),
      ev_set = (\<lambda>(s, e) g b. if b < 2 ^ 24 then Inr (s, e(g := e g OR b)) else Inl Assertion_Failed),
      ev_clear = (\<lambda>(s, e) g b. if b < 2 ^ 24 then Inr (s, e(g := e g AND NOT b)) else Inl Assertion_Failed)\<rparr>"

lemma small_kernel_laws: "note_laws kernel_notes fst" "event_laws kernel_events"
  by (auto simp: note_laws_def kernel_notes_def event_laws_def kernel_events_def split: if_splits)

section \<open>Creation\<close>

text \<open>
  The arguments of one \<open>xTaskCreate\<close>: the element of \<open>worker_data\<close> that the task gets, its stack size
  and its priority.
\<close>

record task_launch =
  tl_data :: "ptr \<times> nat"
  tl_stack :: size_t
  tl_priority :: size_t

text \<open>\<open>threads i\<close> is the handle of the task that the \<open>i\<close>-th \<open>xTaskCreate\<close> creates.\<close>

definition dispatch_queue_init_rtos :: "'n event_ops \<Rightarrow> (nat \<Rightarrow> ptr) \<Rightarrow> size_t \<Rightarrow> ptr \<Rightarrow> mem \<Rightarrow> 'n \<Rightarrow>
    (mem \<times> 'n \<times> task_launch list) result" where
  "dispatch_queue_init_rtos E threads thread_priority ctx m n =
     bindE (assertE (ctx \<noteq> NULL)) (\<lambda>_.
     bindE (load_dispatch_rtos ctx m) (\<lambda>d.
     bindE (for_range 0 (unat (df_thread_count d)) (\<lambda>i (m, ls).
       bindE (shift_left 1 (of_nat i)) (\<lambda>bit.
       bindE (write_worker_rtos (df_worker_data d) i
                \<lparr>wr_parent = ctx, wr_xQueue = df_xQueue d, wr_xEventGroup = df_xEventGroup d,
                 wr_xReadyBit = bit\<rparr> m) (\<lambda>m.
       bindE (write_ptr (df_threads d) i (threads i) m) (\<lambda>m.
       Inr (m, ls @ [\<lparr>tl_data = (df_worker_data d, i), tl_stack = df_thread_stack_size d,
                      tl_priority = thread_priority\<rparr>])))))
       (m, [])) (\<lambda>(m, ls).
     bindE (shift_right 0xFFFFFFFF (32 - df_thread_count d)) (\<lambda>bits.
     bindE (store ctx (Dispatch_Rtos (d\<lparr>df_xReadyBits := bits\<rparr>)) m) (\<lambda>m.
     bindE (ev_set E n (df_xEventGroup d) bits) (\<lambda>n.
     Inr (m, n, ls)))))))"

definition sizeof_worker_data_rtos :: size_t where
  "sizeof_worker_data_rtos = 16"

definition dispatch_queue_create_rtos :: "'n event_ops \<Rightarrow> nat \<Rightarrow> nat \<Rightarrow> (nat \<Rightarrow> ptr) \<Rightarrow> size_t \<Rightarrow> size_t \<Rightarrow>
    size_t \<Rightarrow> mem \<Rightarrow> 'n \<Rightarrow> (ptr \<times> mem \<times> 'n \<times> task_launch list) result" where
  "dispatch_queue_create_rtos E xQueue xEventGroup threads thread_count thread_stack_size
       thread_priority m n =
     (let (ctx, m) = malloc 28 m;
          d = \<lparr>df_thread_count = thread_count, df_thread_stack_size = thread_stack_size,
               df_xQueue = xQueue, df_xEventGroup = 0, df_xReadyBits = 0, df_worker_data = NULL,
               df_threads = NULL\<rparr>
      in bindE (store ctx (Dispatch_Rtos d) m) (\<lambda>m.
         let (thr, m) = malloc_ptrs thread_count m;
             (data, m) = malloc_array sizeof_worker_data_rtos (\<lambda>k. Workers_Rtos (replicate k None))
                           thread_count m
         in bindE (store ctx (Dispatch_Rtos (d\<lparr>df_threads := thr, df_worker_data := data,
                     df_xEventGroup := xEventGroup\<rparr>)) m) (\<lambda>m.
            bindE (dispatch_queue_init_rtos E threads thread_priority ctx m n) (\<lambda>(m, n, ls).
            Inr (ctx, m, n, ls)))))"

section \<open>Calls\<close>

text \<open>
  The calls of a client from entry to return, for an undisturbed client (theory \<open>Dispatch_Common\<close>),
  linked with the FreeRTOS event counter.
\<close>

definition dispatch_queue_task_add_rtos :: "nat \<Rightarrow> nat \<Rightarrow> ptr \<Rightarrow> ptr \<Rightarrow> 'n call_state \<Rightarrow> 'n call_state option result" where
  "dispatch_queue_task_add_rtos = call_task_add event_counter_create_rtos"

definition dispatch_queue_group_add_rtos :: "nat \<Rightarrow> nat \<Rightarrow> ptr \<Rightarrow> ptr \<Rightarrow> 'n call_state \<Rightarrow> 'n call_state option result" where
  "dispatch_queue_group_add_rtos = call_group_add event_counter_create_rtos"

definition dispatch_queue_task_wait_rtos :: "'n note_ops \<Rightarrow> ptr \<Rightarrow> 'n call_state \<Rightarrow> 'n call_state option result" where
  "dispatch_queue_task_wait_rtos N = call_task_wait (event_counter_wait_rtos N) event_counter_delete_rtos"

definition dispatch_queue_group_wait_rtos :: "'n note_ops \<Rightarrow> ptr \<Rightarrow> 'n call_state \<Rightarrow> 'n call_state option result" where
  "dispatch_queue_group_wait_rtos N = call_group_wait (event_counter_wait_rtos N) event_counter_delete_rtos"

definition dispatch_queue_wait_rtos :: "'n event_ops \<Rightarrow> ptr \<Rightarrow> 'n call_state \<Rightarrow> 'n call_state option result" where
  "dispatch_queue_wait_rtos E ctx = (\<lambda>(m, nt, q).
     bindE (assertE (ctx \<noteq> NULL)) (\<lambda>_.
     if q \<noteq> [] then Inr None
     else bindE (load_dispatch_rtos ctx m) (\<lambda>d.
          Inr (if ev_get E nt (df_xEventGroup d) AND df_xReadyBits d = df_xReadyBits d
               then Some (m, nt, q) else None))))"

section \<open>Deletion\<close>

text \<open>The result: the store, the tasks, the event group and the queue that the kernel was asked to delete.\<close>

definition dispatch_queue_delete_rtos :: "ptr \<Rightarrow> mem \<Rightarrow> (mem \<times> ptr list \<times> nat \<times> nat) result" where
  "dispatch_queue_delete_rtos ctx m =
     bindE (assertE (ctx \<noteq> NULL)) (\<lambda>_.
     bindE (load_dispatch_rtos ctx m) (\<lambda>d.
     bindE (for_range 0 (unat (df_thread_count d)) (\<lambda>i ts.
       bindE (read_ptr (df_threads d) i m) (\<lambda>t. Inr (ts @ [t]))) []) (\<lambda>ts.
     bindE (free (df_worker_data d) m) (\<lambda>m.
     bindE (free (df_threads d) m) (\<lambda>m.
     Inr (m, ts, df_xEventGroup d, df_xQueue d))))))"

section \<open>The ready bits\<close>

text \<open>\<open>0xFFFFFFFF >> (32 - n)\<close> are the \<open>n\<close> lowest bits, if the shift is defined.\<close>

lemma ready_bits:
  assumes "0 < n" "n \<le> (32 :: size_t)"
  shows "shift_right 0xFFFFFFFF (32 - n) = Inr (mask (unat n))"
proof -
  have n: "unat n \<le> 32" "0 < unat n" using assms by (simp_all add: word_le_nat_alt word_less_nat_alt)
  have d: "unat (32 - n) = 32 - unat n" using assms(2) by (simp add: unat_sub)
  then have "32 - n < 32" using n by (simp add: word_less_nat_alt)
  moreover have "drop_bit (32 - unat n) (0xFFFFFFFF :: 32 word) = (mask (unat n) :: 32 word)"
  proof (rule bit_word_eqI)
    fix j
    assume "j < LENGTH(32)"
    have all: "(0xFFFFFFFF :: 32 word) = mask 32" by (simp add: mask_eq_exp_minus_1)
    show "bit (drop_bit (32 - unat n) (0xFFFFFFFF :: 32 word)) j = bit (mask (unat n) :: 32 word) j"
      unfolding all using n \<open>j < LENGTH(32)\<close> by (auto simp only: bit_drop_bit_eq bit_mask_iff comp_def) auto
  qed
  ultimately show ?thesis by (simp add: shift_right_def d)
qed

lemma ready_bits_undefined:
  assumes "n = 0 \<or> n > (32 :: size_t)"
  shows "shift_right x (32 - n) = Inl Shift_Out_Of_Range"
proof (cases "n = 0")
  case False
  then have "n > 32" using assms by simp
  have "\<not> 32 - n < 32"
  proof
    assume less: "32 - n < 32"
    then have "unat (32 - (32 - n)) = unat (32 :: size_t) - unat (32 - n)" by (intro unat_sub) simp
    moreover have "32 - (32 - n) = n" by simp
    ultimately have "unat n \<le> 32" by simp
    with \<open>n > 32\<close> show False by (simp add: word_less_nat_alt)
  qed
  then show ?thesis by (simp add: shift_right_def)
qed (simp add: shift_right_def)

lemma shift_left_1:
  assumes "i < 31"
  shows "shift_left 1 (of_nat i) = Inr (push_bit i 1)"
proof -
  have "(2 :: int) ^ i < 2 ^ 31" using assms by (intro power_strict_increasing) simp_all
  then show ?thesis using assms by (simp add: shift_left_def word_less_nat_alt unat_of_nat push_bit_eq_mult)
qed

section \<open>What creation leaves\<close>

definition worker_init_rtos :: "ptr \<Rightarrow> dispatch_freertos \<Rightarrow> nat \<Rightarrow> worker_data_rtos" where
  "worker_init_rtos ctx d i =
     \<lparr>wr_parent = ctx, wr_xQueue = df_xQueue d, wr_xEventGroup = df_xEventGroup d,
      wr_xReadyBit = push_bit i 1\<rparr>"

definition worker_task_launch :: "dispatch_freertos \<Rightarrow> size_t \<Rightarrow> nat \<Rightarrow> task_launch" where
  "worker_task_launch d prio i =
     \<lparr>tl_data = (df_worker_data d, i), tl_stack = df_thread_stack_size d, tl_priority = prio\<rparr>"

definition init_body :: "(nat \<Rightarrow> ptr) \<Rightarrow> size_t \<Rightarrow> ptr \<Rightarrow> dispatch_freertos \<Rightarrow> nat \<Rightarrow>
    mem \<times> task_launch list \<Rightarrow> (mem \<times> task_launch list) result" where
  "init_body threads prio ctx d = (\<lambda>i (m, ls).
       bindE (shift_left 1 (of_nat i)) (\<lambda>bit.
       bindE (write_worker_rtos (df_worker_data d) i
                \<lparr>wr_parent = ctx, wr_xQueue = df_xQueue d, wr_xEventGroup = df_xEventGroup d,
                 wr_xReadyBit = bit\<rparr> m) (\<lambda>m.
       bindE (write_ptr (df_threads d) i (threads i) m) (\<lambda>m.
       Inr (m, ls @ [\<lparr>tl_data = (df_worker_data d, i), tl_stack = df_thread_stack_size d,
                      tl_priority = prio\<rparr>])))))"

lemma init_loop:
  assumes thr: "df_threads d \<noteq> NULL" "heap m (df_threads d) = Some (Ptr_Array ts)" "k \<le> length ts"
    and wd: "df_worker_data d \<noteq> NULL" "heap m (df_worker_data d) = Some (Workers_Rtos ws)" "k \<le> length ws"
    and k: "k \<le> 31"
  shows "for_range 0 k (init_body threads prio ctx d) (m, []) = Inr (m\<lparr>heap := (heap m)
       (df_worker_data d \<mapsto> Workers_Rtos (map (\<lambda>i. Some (worker_init_rtos ctx d i)) [0..<k] @ drop k ws),
        df_threads d \<mapsto> Ptr_Array (map (\<lambda>i. Some (threads i)) [0..<k] @ drop k ts))\<rparr>,
     map (worker_task_launch d prio) [0..<k])"
proof -
  let ?st = "df_worker_data d" and ?th = "df_threads d"
  let ?m = "\<lambda>i. m\<lparr>heap := (heap m)
       (?st \<mapsto> Workers_Rtos (map (\<lambda>i. Some (worker_init_rtos ctx d i)) [0..<i] @ drop i ws),
        ?th \<mapsto> Ptr_Array (map (\<lambda>i. Some (threads i)) [0..<i] @ drop i ts))\<rparr>"
  let ?P = "\<lambda>i s. s = (?m i, map (worker_task_launch d prio) [0..<i])"
  have ne: "?st \<noteq> ?th" using thr(2) wd(2) by auto
  have "\<exists>s. for_range 0 k (init_body threads prio ctx d) (m, []) = Inr s \<and> ?P k s"
  proof (rule for_range_rule[where P = ?P])
    show "?P 0 (m, [])" using thr(2) wd(2) by (simp add: fun_upd_idem)
    fix i s
    assume i: "i < k" and s: "?P i s"
    have "shift_left 1 (of_nat i) = Inr (push_bit i 1)" using i k by (intro shift_left_1) simp
    moreover have "write_worker_rtos ?st i (worker_init_rtos ctx d i) (?m i) = Inr ((?m i)\<lparr>heap := (heap (?m i))
        (?st \<mapsto> Workers_Rtos (map (\<lambda>i. Some (worker_init_rtos ctx d i)) [0..<Suc i] @ drop (Suc i) ws))\<rparr>)"
      using i wd ne fill_slots[of i ws "\<lambda>i. Some (worker_init_rtos ctx d i)"]
      by (simp add: write_worker_rtos_def load_workers_rtos_def load_def write_slot_def store_def)
    moreover have "write_ptr ?th i (threads i) ((?m i)\<lparr>heap := (heap (?m i))
        (?st \<mapsto> Workers_Rtos (map (\<lambda>i. Some (worker_init_rtos ctx d i)) [0..<Suc i] @ drop (Suc i) ws))\<rparr>) =
        Inr (?m (Suc i))"
      using i thr ne fill_slots[of i ts "\<lambda>i. Some (threads i)"]
      by (simp add: write_ptr_def load_ptr_array_def load_def write_slot_def store_def fun_upd_twist)
    ultimately show "\<exists>s'. init_body threads prio ctx d i s = Inr s' \<and> ?P (Suc i) s'"
      using s by (simp add: init_body_def worker_init_rtos_def worker_task_launch_def)
  qed simp
  then show ?thesis by simp
qed

text \<open>The blocks of a new dispatch queue, from the break \<open>b\<close> of the store upwards.\<close>

definition freertos_at :: "nat \<Rightarrow> nat \<Rightarrow> nat \<Rightarrow> size_t \<Rightarrow> size_t \<Rightarrow> 32 word \<Rightarrow> dispatch_freertos" where
  "freertos_at b xQueue xEventGroup thread_count thread_stack_size bits =
     \<lparr>df_thread_count = thread_count, df_thread_stack_size = thread_stack_size, df_xQueue = xQueue,
      df_xEventGroup = xEventGroup, df_xReadyBits = bits, df_worker_data = b + 3, df_threads = b + 2\<rparr>"

definition allocated_rtos :: "nat \<Rightarrow> nat \<Rightarrow> size_t \<Rightarrow> size_t \<Rightarrow> mem \<Rightarrow> mem" where
  "allocated_rtos xQueue xEventGroup thread_count thread_stack_size m = m\<lparr>brk := brk m + 3, heap := (heap m)
     (brk m + 1 \<mapsto> Dispatch_Rtos (freertos_at (brk m) xQueue xEventGroup thread_count thread_stack_size 0),
      brk m + 2 \<mapsto> Ptr_Array (replicate (unat thread_count) None),
      brk m + 3 \<mapsto> Workers_Rtos (replicate (unat thread_count) None))\<rparr>"

lemma create_allocates:
  assumes "16 * unat thread_count < 2 ^ 32" "\<And>i. i < 3 \<Longrightarrow> \<not> oom m (brk m + i)"
  shows "dispatch_queue_create_rtos E xQueue xEventGroup threads thread_count thread_stack_size prio m n =
     bindE (dispatch_queue_init_rtos E threads prio (brk m + 1)
       (allocated_rtos xQueue xEventGroup thread_count thread_stack_size m) n) (\<lambda>(m', n, ls).
     Inr (brk m + 1, m', n, ls))"
proof -
  have nooom: "\<not> oom m (brk m)" "\<not> oom m (Suc (brk m))" "\<not> oom m (Suc (Suc (brk m)))"
    using assms(2)[of 0] assms(2)[of 1] assms(2)[of 2] by (simp_all add: numeral_2_eq_2)
  have slots: "unat (sizeof_ptr * thread_count) div unat sizeof_ptr = unat thread_count"
    "unat (sizeof_worker_data_rtos * thread_count) div unat sizeof_worker_data_rtos = unat thread_count"
    using assms(1) array_slots[of sizeof_ptr thread_count]
      array_slots[of sizeof_worker_data_rtos thread_count]
    by (simp_all add: sizeof_ptr_def sizeof_worker_data_rtos_def)
  show ?thesis
    using nooom slots
    by (simp add: dispatch_queue_create_rtos_def malloc_ok malloc_ptrs_ok malloc_array_ok store_def
        allocated_rtos_def freertos_at_def Let_def numeral_eq_Suc fun_upd_twist)
qed

lemma init_rtos_shifts:
  assumes "ctx \<noteq> NULL" "heap m ctx = Some (Dispatch_Rtos d)" "unat (df_thread_count d) = k"
    and thr: "df_threads d \<noteq> NULL" "heap m (df_threads d) = Some (Ptr_Array ts)" "k = length ts"
    and wd: "df_worker_data d \<noteq> NULL" "heap m (df_worker_data d) = Some (Workers_Rtos ws)" "k = length ws"
    and k: "0 < k" "k \<le> 31"
  shows "dispatch_queue_init_rtos E threads prio ctx m n =
     bindE (ev_set E n (df_xEventGroup d) (mask k)) (\<lambda>n. Inr (m\<lparr>heap := (heap m)
       (df_worker_data d \<mapsto> Workers_Rtos (map (\<lambda>i. Some (worker_init_rtos ctx d i)) [0..<k]),
        df_threads d \<mapsto> Ptr_Array (map (\<lambda>i. Some (threads i)) [0..<k]),
        ctx \<mapsto> Dispatch_Rtos (d\<lparr>df_xReadyBits := mask k\<rparr>))\<rparr>,
     n, map (worker_task_launch d prio) [0..<k]))"
proof -
  have "0 < df_thread_count d" "df_thread_count d \<le> 32"
    using assms(3) k by (simp_all add: word_less_nat_alt word_le_nat_alt)
  then have "shift_right 0xFFFFFFFF (32 - df_thread_count d) = Inr (mask k)"
    using ready_bits[of "df_thread_count d"] assms(3) by simp
  moreover have "ctx \<noteq> df_worker_data d" "ctx \<noteq> df_threads d" using assms(2) thr(2) wd(2) by auto
  ultimately show ?thesis
    using init_loop[OF thr(1,2) _ wd(1,2) _ k(2), of threads prio ctx] assms(1-3) thr(3) wd(3)
    by (simp add: dispatch_queue_init_rtos_def init_body_def[symmetric] load_dispatch_rtos_def load_def
        store_def)
qed

lemma init_rtos_undefined:
  assumes "ctx \<noteq> NULL" "heap m ctx = Some (Dispatch_Rtos d)" "unat (df_thread_count d) = k"
    and thr: "df_threads d \<noteq> NULL" "heap m (df_threads d) = Some (Ptr_Array ts)" "k = length ts"
    and wd: "df_worker_data d \<noteq> NULL" "heap m (df_worker_data d) = Some (Workers_Rtos ws)" "k = length ws"
    and k: "k = 0 \<or> 31 < k"
  shows "dispatch_queue_init_rtos E threads prio ctx m n = Inl Shift_Out_Of_Range"
proof (cases "k = 0")
  case True
  then have "df_thread_count d = 0" using assms(3) by (simp add: unat_eq_zero)
  then have "shift_right 0xFFFFFFFF (32 - df_thread_count d) = Inl Shift_Out_Of_Range"
    by (intro ready_bits_undefined) simp
  with True assms(1-3) show ?thesis
    by (simp add: dispatch_queue_init_rtos_def load_dispatch_rtos_def load_def for_range_done)
next
  case False
  then have "31 < k" using k by simp
  then have split: "for_range 0 k (init_body threads prio ctx d) (m, []) =
      bindE (for_range 0 31 (init_body threads prio ctx d) (m, [])) (for_range 31 k (init_body threads prio ctx d))"
    by (intro for_range_split) simp_all
  have "for_range 31 k (init_body threads prio ctx d) s = Inl Shift_Out_Of_Range" for s
    using \<open>31 < k\<close> by (cases s) (simp add: for_range_step init_body_def shift_left_def)
  then have "for_range 0 k (init_body threads prio ctx d) (m, []) = Inl Shift_Out_Of_Range"
    using init_loop[OF thr(1,2) _ wd(1,2), of 31 threads prio ctx] \<open>31 < k\<close> thr(3) wd(3)
    unfolding split by simp
  with assms(1-3) show ?thesis
    by (simp add: dispatch_queue_init_rtos_def init_body_def[symmetric] load_dispatch_rtos_def load_def)
qed

text \<open>The ready bits of \<open>k\<close> workers are bits of a user exactly if \<open>k \<le> 24\<close>.\<close>

lemma ready_bits_user:
  assumes "k \<le> 31"
  shows "(mask k :: 32 word) < 2 ^ 24 \<longleftrightarrow> k \<le> 24"
proof -
  have "uint (mask k :: 32 word) = 2 ^ k - 1"
    using assms by (simp add: uint_mask_eq min_def) (simp add: mask_eq_exp_minus_1)
  moreover have "(2 :: int) ^ k \<le> 2 ^ 24" if "k \<le> 24" using that by (intro power_increasing) simp_all
  moreover have "(2 :: int) ^ 25 \<le> 2 ^ k" if "\<not> k \<le> 24" using that by (intro power_increasing) simp_all
  ultimately show ?thesis by (cases "k \<le> 24") (simp_all add: word_less_def)
qed

text \<open>The store that creation leaves for \<open>k\<close> workers.\<close>

definition created_rtos :: "nat \<Rightarrow> nat \<Rightarrow> (nat \<Rightarrow> ptr) \<Rightarrow> size_t \<Rightarrow> size_t \<Rightarrow> mem \<Rightarrow> mem" where
  "created_rtos xQueue xEventGroup threads thread_count thread_stack_size m =
     (let b = brk m; k = unat thread_count; d = freertos_at b xQueue xEventGroup thread_count thread_stack_size 0 in
      m\<lparr>brk := b + 3, heap := (heap m)
       (b + 1 \<mapsto> Dispatch_Rtos (d\<lparr>df_xReadyBits := mask k\<rparr>),
        b + 2 \<mapsto> Ptr_Array (map (\<lambda>i. Some (threads i)) [0..<k]),
        b + 3 \<mapsto> Workers_Rtos (map (\<lambda>i. Some (worker_init_rtos (b + 1) d i)) [0..<k]))\<rparr>)"

lemma create_rtos_result:
  assumes "16 * unat thread_count < 2 ^ 32" "\<forall>i < 3. \<not> oom m (brk m + i)"
  shows "dispatch_queue_create_rtos E xQueue xEventGroup threads thread_count thread_stack_size prio m n =
     (if 0 < thread_count \<and> thread_count \<le> 31 then
        bindE (ev_set E n xEventGroup (mask (unat thread_count))) (\<lambda>n.
        Inr (brk m + 1, created_rtos xQueue xEventGroup threads thread_count thread_stack_size m, n,
          map (worker_task_launch (freertos_at (brk m) xQueue xEventGroup thread_count thread_stack_size 0) prio)
            [0..<unat thread_count]))
      else Inl Shift_Out_Of_Range)"
proof -
  let ?b = "brk m" and ?k = "unat thread_count"
  let ?m = "allocated_rtos xQueue xEventGroup thread_count thread_stack_size m"
  let ?d = "freertos_at ?b xQueue xEventGroup thread_count thread_stack_size 0"
  note create = create_allocates[OF assms(1) assms(2)[rule_format], of E xQueue xEventGroup threads thread_stack_size prio n]
  have blocks: "heap ?m (?b + 1) = Some (Dispatch_Rtos ?d)"
    "heap ?m (df_threads ?d) = Some (Ptr_Array (replicate ?k None))"
    "heap ?m (df_worker_data ?d) = Some (Workers_Rtos (replicate ?k None))"
    "?b + 1 \<noteq> NULL" "df_threads ?d \<noteq> NULL" "df_worker_data ?d \<noteq> NULL" "unat (df_thread_count ?d) = ?k"
    by (simp_all add: allocated_rtos_def freertos_at_def)
  show ?thesis
  proof (cases "0 < thread_count \<and> thread_count \<le> 31")
    case True
    then have k: "0 < ?k" "?k \<le> 31" by (simp_all add: word_less_nat_alt word_le_nat_alt)
    show ?thesis
      using init_rtos_shifts[OF blocks(4,1,7,5,2) _ blocks(6,3) _ k, of E threads prio n] create True
      by (simp add: freertos_at_def created_rtos_def allocated_rtos_def Let_def bindE_assoc fun_upd_twist)
  next
    case False
    then have "?k = 0 \<or> 31 < ?k" by (auto simp: word_less_nat_alt word_le_nat_alt unat_eq_zero)
    then have "dispatch_queue_init_rtos E threads prio (?b + 1) ?m n = Inl Shift_Out_Of_Range"
      by (intro init_rtos_undefined[OF blocks(4,1,7,5,2) _ blocks(6,3)]) simp_all
    with create show ?thesis unfolding if_not_P[OF False] by simp
  qed
qed

lemma create_rtos_ok:
  assumes "event_laws E" "16 * unat thread_count < 2 ^ 32" "\<And>i. i < 3 \<Longrightarrow> \<not> oom m (brk m + i)"
    and "0 < thread_count" "thread_count \<le> 24"
  shows "\<exists>n'. dispatch_queue_create_rtos E xQueue xEventGroup threads thread_count thread_stack_size prio m n =
       Inr (brk m + 1, created_rtos xQueue xEventGroup threads thread_count thread_stack_size m, n',
         map (worker_task_launch (freertos_at (brk m) xQueue xEventGroup thread_count thread_stack_size 0) prio)
           [0..<unat thread_count]) \<and>
     ev_get E n' = (ev_get E n)(xEventGroup := ev_get E n xEventGroup OR mask (unat thread_count))"
proof -
  have oom: "\<forall>i < 3. \<not> oom m (brk m + i)" using assms(3) by blast
  have "thread_count \<le> 31" "unat thread_count \<le> 24" using assms(5) by (simp_all add: word_le_nat_alt)
  then have "(mask (unat thread_count) :: 32 word) < 2 ^ 24" using ready_bits_user[of "unat thread_count"] by simp
  then obtain n' where "ev_set E n xEventGroup (mask (unat thread_count)) = Inr n'"
    "ev_get E n' = (ev_get E n)(xEventGroup := ev_get E n xEventGroup OR mask (unat thread_count))"
    using event_lawsD(1)[OF assms(1)] by blast
  then show ?thesis
    unfolding create_rtos_result[OF assms(2) oom] using assms(4) \<open>thread_count \<le> 31\<close> by simp
qed

section \<open>Properties\<close>

text \<open>C28: the number of workers of a FreeRTOS dispatch queue. With enough memory, creation succeeds
  exactly for one to 24 workers. With none, the shift that gives the ready bits of the queue is by
  the width of the word; with 25 to 31 the ready bits reach into the bits of the event group that are
  the kernel's, and its assertion fails; with more, the shift that gives the ready bit of a worker
  leaves the range of an \<open>int\<close>. Where it succeeds, it asks the kernel for one task per worker, the
  \<open>i\<close>-th with the \<open>i\<close>-th element of \<open>worker_data\<close>, which holds the queue, the event group and the bit
  \<open>i\<close>; the ready bits are the bits of all workers, and they are set in the event group.\<close>

theorem dispatch_rtos_create:
  assumes "event_laws E" "16 * unat thread_count < 2 ^ 32" "\<And>i. i < 3 \<Longrightarrow> \<not> oom m (brk m + i)"
  shows "if 0 < thread_count \<and> thread_count \<le> 24 then
       \<exists>ctx m' n' ls d ws. dispatch_queue_create_rtos E xQueue xEventGroup threads thread_count
           thread_stack_size prio m n = Inr (ctx, m', n', ls) \<and>
         ev_get E n' = (ev_get E n)(xEventGroup := ev_get E n xEventGroup OR df_xReadyBits d) \<and>
         heap m' ctx = Some (Dispatch_Rtos d) \<and> df_xEventGroup d = xEventGroup \<and>
         length ls = unat thread_count \<and> heap m' (df_worker_data d) = Some (Workers_Rtos (map Some ws)) \<and>
         length ws = length ls \<and>
         (\<forall>i < length ls. tl_data (ls ! i) = (df_worker_data d, i) \<and> ws ! i = \<lparr>wr_parent = ctx,
            wr_xQueue = xQueue, wr_xEventGroup = xEventGroup, wr_xReadyBit = push_bit i 1\<rparr>) \<and>
         (\<forall>j. bit (df_xReadyBits d) j \<longleftrightarrow> (\<exists>i < length ls. bit (wr_xReadyBit (ws ! i)) j))
     else dispatch_queue_create_rtos E xQueue xEventGroup threads thread_count thread_stack_size prio m n =
       Inl (if 0 < thread_count \<and> thread_count \<le> 31 then Assertion_Failed else Shift_Out_Of_Range)"
proof (cases "0 < thread_count \<and> thread_count \<le> 24")
  case True
  let ?k = "unat thread_count" and ?d = "freertos_at (brk m) xQueue xEventGroup thread_count thread_stack_size 0"
  let ?m' = "created_rtos xQueue xEventGroup threads thread_count thread_stack_size m"
  let ?ls = "map (worker_task_launch ?d prio) [0..<?k]" and ?ws = "map (worker_init_rtos (brk m + 1) ?d) [0..<?k]"
  obtain n' where n': "dispatch_queue_create_rtos E xQueue xEventGroup threads thread_count thread_stack_size prio m n =
      Inr (brk m + 1, ?m', n', ?ls)" "ev_get E n' = (ev_get E n)(xEventGroup := ev_get E n xEventGroup OR mask ?k)"
    using create_rtos_ok[OF assms, of xQueue xEventGroup threads thread_stack_size prio n] True by blast
  have "?k \<le> 24" using True by (simp add: word_le_nat_alt)
  then have "bit (mask ?k :: 32 word) j \<longleftrightarrow> (\<exists>i < ?k. bit (push_bit i (1 :: 32 word)) j)" for j
    by (auto simp: bit_mask_iff bit_exp_iff)
  with n' show ?thesis
    unfolding if_P[OF True]
    by (intro exI[of _ "brk m + 1"] exI[of _ ?m'] exI[of _ n'] exI[of _ ?ls]
        exI[of _ "?d\<lparr>df_xReadyBits := mask ?k\<rparr>"] exI[of _ ?ws])
      (auto simp: worker_init_rtos_def worker_task_launch_def freertos_at_def created_rtos_def Let_def comp_def)
next
  case False
  have "\<not> (mask (unat thread_count) :: 32 word) < 2 ^ 24" if "0 < thread_count \<and> thread_count \<le> 31"
    using that False ready_bits_user[of "unat thread_count"] by (auto simp: word_le_nat_alt word_less_nat_alt)
  moreover have oom: "\<forall>i < 3. \<not> oom m (brk m + i)" using assms(3) by blast
  ultimately have "dispatch_queue_create_rtos E xQueue xEventGroup threads thread_count thread_stack_size prio m n =
       Inl (if 0 < thread_count \<and> thread_count \<le> 31 then Assertion_Failed else Shift_Out_Of_Range)"
    using event_lawsD(3)[OF assms(1), of "mask (unat thread_count)" n xEventGroup]
    unfolding create_rtos_result[OF assms(2) oom] by (cases "0 < thread_count \<and> thread_count \<le> 31") auto
  then show ?thesis unfolding if_not_P[OF False] .
qed

theorem dispatch_rtos_create_witness:
  "(\<exists>ctx m' n' ls. dispatch_queue_create_rtos kernel_events 5 6 (\<lambda>i. 100 + i) 3 256 1 empty_mem (\<lambda>_. 0, \<lambda>_. 0) =
     Inr (ctx, m', n', ls) \<and> length ls = 3) \<and>
   dispatch_queue_create_rtos kernel_events 5 6 (\<lambda>i. 100 + i) 25 256 1 empty_mem (\<lambda>_. 0, \<lambda>_. 0) = Inl Assertion_Failed"
  using dispatch_rtos_create[OF small_kernel_laws(2), of 3 empty_mem 5 6 "\<lambda>i. 100 + i" 256 1 "(\<lambda>_. 0, \<lambda>_. 0)"]
    dispatch_rtos_create[OF small_kernel_laws(2), of 25 empty_mem 5 6 "\<lambda>i. 100 + i" 256 1 "(\<lambda>_. 0, \<lambda>_. 0)"] by auto

lemma handles_read:
  assumes "thr \<noteq> NULL" "heap m thr = Some (Ptr_Array (map (\<lambda>i. Some (threads i)) [0..<k]))"
  shows "for_range 0 k (\<lambda>i ts. bindE (read_ptr thr i m) (\<lambda>t. Inr (ts @ [t]))) [] = Inr (map threads [0..<k])"
proof -
  let ?body = "\<lambda>i ts. bindE (read_ptr thr i m) (\<lambda>t. Inr (ts @ [t]))"
  have "\<exists>t. for_range 0 k ?body [] = Inr t \<and> t = map threads [0..<k]"
  proof (rule for_range_rule[where P = "\<lambda>i t. t = map threads [0..<i]"])
    fix j t
    assume "j < k" "t = map threads [0..<j]"
    moreover from this have "read_ptr thr j m = Inr (threads j)" using assms by (simp add: mem_simps)
    ultimately show "\<exists>t'. ?body j t = Inr t' \<and> t' = map threads [0..<Suc j]" by simp
  qed simp_all
  then show ?thesis by simp
qed

text \<open>C29: deleting a FreeRTOS dispatch queue leaks its struct. Created and deleted again, a dispatch
  queue has the kernel delete the tasks of all its workers, its event group and its queue, and
  gives back the arrays of worker data and of task handles; but the block that holds the dispatch
  queue itself stays allocated.\<close>

theorem dispatch_rtos_delete_leaks:
  assumes "event_laws E" "mem_ok m" "0 < thread_count" "thread_count \<le> 24" "\<And>i. i < 3 \<Longrightarrow> \<not> oom m (brk m + i)"
  shows "\<exists>ctx m1 n1 ls m2 d. dispatch_queue_create_rtos E xQueue xEventGroup threads thread_count
       thread_stack_size prio m n = Inr (ctx, m1, n1, ls) \<and>
     dispatch_queue_delete_rtos ctx m1 = Inr (m2, map threads [0..<unat thread_count], xEventGroup, xQueue) \<and>
     heap m2 = (heap m)(ctx \<mapsto> Dispatch_Rtos d) \<and> heap m ctx = None"
proof -
  let ?b = "brk m" and ?k = "unat thread_count"
  let ?d = "(freertos_at ?b xQueue xEventGroup thread_count thread_stack_size 0)\<lparr>df_xReadyBits := mask ?k\<rparr>"
  let ?m1 = "created_rtos xQueue xEventGroup threads thread_count thread_stack_size m"
  let ?m2 = "?m1\<lparr>heap := (heap ?m1)(?b + 3 := None, ?b + 2 := None)\<rparr>"
  have "16 * ?k < 2 ^ 32" using assms(4) by (simp add: word_le_nat_alt)
  then obtain n1 where c: "dispatch_queue_create_rtos E xQueue xEventGroup threads thread_count thread_stack_size prio m n =
      Inr (?b + 1, ?m1, n1, map (worker_task_launch (freertos_at ?b xQueue xEventGroup thread_count thread_stack_size 0) prio) [0..<?k])"
    using create_rtos_ok[OF assms(1) _ assms(5,3,4), of xQueue xEventGroup threads thread_stack_size prio n] by blast
  have load: "load_dispatch_rtos (?b + 1) ?m1 = Inr ?d" "heap ?m1 (?b + 2) = Some (Ptr_Array (map (\<lambda>i. Some (threads i)) [0..<?k]))"
    "heap ?m1 (?b + 3) \<noteq> None"
    by (simp_all add: load_dispatch_rtos_def load_def created_rtos_def Let_def)
  have "dispatch_queue_delete_rtos (?b + 1) ?m1 = Inr (?m2, map threads [0..<?k], xEventGroup, xQueue)"
    using handles_read[OF _ load(2)] load unfolding dispatch_queue_delete_rtos_def by (simp add: freertos_at_def free_def)
  moreover have "heap ?m2 = (heap m)(?b + 1 \<mapsto> Dispatch_Rtos ?d)" "heap m (?b + 1) = None"
    using assms(2) by (auto simp: created_rtos_def Let_def fun_eq_iff mem_ok_def)
  ultimately show ?thesis using c by blast
qed

theorem dispatch_rtos_delete_leaks_witness:
  "\<exists>ctx m1 n1 ls m2 d. dispatch_queue_create_rtos kernel_events 5 6 (\<lambda>i. 100 + i) 3 256 1 empty_mem
       (\<lambda>_. 0, \<lambda>_. 0) = Inr (ctx, m1, n1, ls) \<and>
     dispatch_queue_delete_rtos ctx m1 = Inr (m2, [100, 101, 102], 6, 5) \<and>
     heap m2 = [ctx \<mapsto> Dispatch_Rtos d]"
  using dispatch_rtos_delete_leaks[OF small_kernel_laws(2), of empty_mem 3 5 6 "\<lambda>i. 100 + i" 256 1 "(\<lambda>_. 0, \<lambda>_. 0)"]
  by (auto simp: upt_rec)

end
