(* ===== verification/Dispatch_RTOS.thy ===== *)
theory Dispatch_RTOS
  imports Dispatch_Effects Dispatch_Calls Dispatch_Queue_RTOS
begin

text \<open>
  The running dispatch queue on FreeRTOS: the system of theory \<open>Dispatch_Threads\<close> over the primitives
  of \<open>dispatch_queue_rtos.c\<close>, the event counter with a semaphore and the ready bits in an event group.
  It interprets the contract \<open>dispatch_platform\<close>, so that the promises of theory \<open>Dispatch_Promises\<close>
  hold of it too; and the ready bits are shown to say which workers run a task.
\<close>

section \<open>The platform\<close>

unbundle bit_operations_syntax

text \<open>
  \<open>dispatch_queue_wait\<close> waits for the queue to be empty by polling it, then lets the kernel wait until
  all ready bits are set at once.
\<close>

definition poll_rtos :: "'n event_ops \<Rightarrow> ptr \<Rightarrow> client_pc \<Rightarrow> nat \<Rightarrow> mem \<Rightarrow> 'n \<Rightarrow> client_pc option result" where
  "poll_rtos E ctx pc waiting_count m nt =
     (case pc of
        C_Busy i b \<Rightarrow> Inr (Some (if waiting_count = 0 then C_Size 0 else C_Busy i b))
      | C_Size b \<Rightarrow>
          bindE (load_dispatch_rtos ctx m) (\<lambda>d.
          Inr (if ev_get E nt (df_xEventGroup d) AND df_xReadyBits d = df_xReadyBits d
               then Some C_Idle else None))
      | _ \<Rightarrow> Inr None)"

text \<open>\<open>wd i\<close> is the data that worker \<open>i\<close> was created with; it holds the event group and the worker's bit.\<close>

definition rtos_platform :: "'n event_ops \<Rightarrow> 'n note_ops \<Rightarrow> ptr \<Rightarrow> (nat \<Rightarrow> worker_data_rtos) \<Rightarrow> 'n platform" where
  "rtos_platform E N ctx wd =
     \<lparr>pf_create = event_counter_create_rtos,
      pf_decrement = event_counter_decrement_rtos,
      pf_channel = (\<lambda>c m. bindE (load_counter_rtos c m) (\<lambda>cr. Inr (es_semaphore cr))),
      pf_wait = event_counter_wait_rtos N,
      pf_delete = event_counter_delete_rtos,
      pf_busy = (\<lambda>i m nt. bindE (ev_clear E nt (wr_xEventGroup (wd i)) (wr_xReadyBit (wd i))) (\<lambda>nt. Inr (m, nt))),
      pf_ready = (\<lambda>i m nt. bindE (ev_set E nt (wr_xEventGroup (wd i)) (wr_xReadyBit (wd i))) (\<lambda>nt. Inr (m, nt))),
      pf_poll = (\<lambda>pc waiting_count m nt. poll_rtos E ctx pc waiting_count m nt)\<rparr>"

lemma rtos_platform_simps [simp]:
  "pf_create (rtos_platform E N ctx wd) = event_counter_create_rtos"
  "pf_decrement (rtos_platform E N ctx wd) = event_counter_decrement_rtos"
  "pf_channel (rtos_platform E N ctx wd) c m = bindE (load_counter_rtos c m) (\<lambda>cr. Inr (es_semaphore cr))"
  "pf_wait (rtos_platform E N ctx wd) = event_counter_wait_rtos N"
  "pf_delete (rtos_platform E N ctx wd) = event_counter_delete_rtos"
  "pf_busy (rtos_platform E N ctx wd) i m nt =
     bindE (ev_clear E nt (wr_xEventGroup (wd i)) (wr_xReadyBit (wd i))) (\<lambda>nt. Inr (m, nt))"
  "pf_ready (rtos_platform E N ctx wd) i m nt =
     bindE (ev_set E nt (wr_xEventGroup (wd i)) (wr_xReadyBit (wd i))) (\<lambda>nt. Inr (m, nt))"
  "pf_poll (rtos_platform E N ctx wd) pc waiting_count m nt = poll_rtos E ctx pc waiting_count m nt"
  by (simp_all add: rtos_platform_def)

text \<open>Semaphores and event groups of the kernel do not touch each other.\<close>

definition kernel_laws :: "'n event_ops \<Rightarrow> 'n note_ops \<Rightarrow> ('n \<Rightarrow> nat \<Rightarrow> nat) \<Rightarrow> bool" where
  "kernel_laws E N tokens \<longleftrightarrow> note_laws N tokens \<and> event_laws E \<and>
     (\<forall>n g b n'. ev_set E n g b = Inr n' \<or> ev_clear E n g b = Inr n' \<longrightarrow> tokens n' = tokens n) \<and>
     (\<forall>n h. ev_get E (notify N n h) = ev_get E n) \<and>
     (\<forall>n h n'. await N n h = Some n' \<longrightarrow> ev_get E n' = ev_get E n)"

lemma small_kernel_all: "kernel_laws kernel_events kernel_notes fst"
  using small_kernel_laws
  by (auto simp: kernel_laws_def kernel_events_def kernel_notes_def split: if_splits)

text \<open>The store holds the dispatch queue at \<open>ctx\<close> for the \<open>k\<close> workers with the data \<open>wd\<close>; an event group
  has room for the ready bits of 24.\<close>

definition rtos_env :: "ptr \<Rightarrow> (nat \<Rightarrow> worker_data_rtos) \<Rightarrow> nat \<Rightarrow> nat \<Rightarrow> mem \<Rightarrow> 'n \<Rightarrow> bool" where
  "rtos_env ctx wd g k m nt \<longleftrightarrow> mem_ok m \<and> ctx \<noteq> NULL \<and> k \<le> 24 \<and>
     (\<exists>d. heap m ctx = Some (Dispatch_Rtos d) \<and> df_xEventGroup d = g \<and> df_xReadyBits d = mask k) \<and>
     (\<forall>i < k. wr_xEventGroup (wd i) = g \<and> wr_xReadyBit (wd i) = push_bit i 1)"

section \<open>The platform keeps the contract\<close>

lemma rtos_create:
  assumes "mem_ok m" "\<not> oom m (brk m)"
  shows "\<exists>c m' v. event_counter_create_rtos h cnt m = Inr (c, m') \<and> counter_added Rtos_Counter m m' c v \<and>
     vw_chan v = h \<and> vw_count v = cnt"
proof -
  let ?c = "Suc (brk m)"
  let ?v = "\<lparr>vw_chan = h, vw_count = cnt, vw_lock = ?c\<rparr>"
  let ?m = "m\<lparr>brk := ?c, heap := (heap m)(?c \<mapsto> Counter_Rtos \<lparr>es_semaphore = h, es_count = cnt\<rparr>)\<rparr>"
  have "counter_added Rtos_Counter m ?m ?c ?v"
    using assms(1) by (auto simp: counter_added_def counter_at_def mem_ok_def)
  then show ?thesis
    using event_counter_create_rtos_ok[OF assms(2), of h cnt]
    by (intro exI[of _ ?c] exI[of _ ?m] exI[of _ ?v]) simp
qed

lemma rtos_counterE:
  assumes "counter_at Rtos_Counter m c v" and "mem_ok m"
  obtains cr where "heap m c = Some (Counter_Rtos cr)" "c \<noteq> NULL"
    "v = \<lparr>vw_chan = es_semaphore cr, vw_count = es_count cr, vw_lock = c\<rparr>"
  using assms mem_ok_live[OF assms(2)] by (fastforce simp: counter_at_def)

lemma rtos_decrement:
  assumes ok: "mem_ok m" and c: "counter_at Rtos_Counter m c v" and "vw_count v > 0"
  shows "\<exists>m'. event_counter_decrement_rtos c m = Inr (vw_count v - 1 = 0, m') \<and> mem_ok m' \<and>
     counter_at Rtos_Counter m' c (v\<lparr>vw_count := vw_count v - 1\<rparr>) \<and> brk m' = brk m \<and> (\<forall>p. p \<noteq> c \<longrightarrow> heap m' p = heap m p)"
  using c ok
proof (rule rtos_counterE)
  fix cr
  assume a: "heap m c = Some (Counter_Rtos cr)" "c \<noteq> NULL"
    "v = \<lparr>vw_chan = es_semaphore cr, vw_count = es_count cr, vw_lock = c\<rparr>"
  let ?m = "m\<lparr>heap := (heap m)(c \<mapsto> Counter_Rtos (cr\<lparr>es_count := es_count cr - 1\<rparr>))\<rparr>"
  have "event_counter_decrement_rtos c m = Inr (vw_count v - 1 = 0, ?m)"
    using a assms(3)
    by (simp add: event_counter_decrement_rtos_def load_counter_rtos_def load_def store_def)
  moreover have "mem_ok ?m" using ok a(1) by (rule mem_ok_upd)
  ultimately show ?thesis using a by (intro exI[of _ ?m]) (simp add: counter_at_def)
qed

lemma rtos_delete:
  assumes ok: "mem_ok m" and c: "counter_at Rtos_Counter m c v"
  shows "event_counter_delete_rtos c m = Inr (m\<lparr>heap := (heap m) |` (- {c, vw_lock v})\<rparr>)"
  using c ok
  by (rule rtos_counterE)
    (auto simp: event_counter_delete_rtos_def load_counter_rtos_def load_def free_def restrict_map_def fun_eq_iff)

lemma rtos_channel:
  assumes "mem_ok m" "counter_at Rtos_Counter m c v"
  shows "bindE (load_counter_rtos c m) (\<lambda>cr. Inr (es_semaphore cr)) = Inr (vw_chan v)"
    and "event_counter_wait_rtos N c m nt = Inr (await N nt (vw_chan v))"
  by (rule rtos_counterE[OF assms(2,1)],
      simp add: load_counter_rtos_def load_def event_counter_wait_rtos_def)+

lemma rtos_poll:
  assumes "rtos_env ctx wd g k m nt" "polling c"
  shows "\<exists>r. poll_rtos E ctx c q m nt = Inr r \<and> (\<forall>c'. r = Some c' \<longrightarrow> polling c' \<or> c' = C_Idle)"
  using assms by (auto simp: polling_def poll_rtos_def rtos_env_def load_dispatch_rtos_def load_def)

lemma rtos_env_store:
  assumes "rtos_env ctx wd g k m nt" "mem_ok m'" and d: "differs transient m m'"
  shows "rtos_env ctx wd g k m' nt"
  using assms(1,2) differs_keep[OF d] by (auto simp: rtos_env_def transient_def)

lemma ready_bit_user:
  assumes "i < k" "k \<le> 24"
  shows "push_bit i (1 :: 32 word) < 2 ^ 24"
proof -
  have "(2 :: nat) ^ i < 2 ^ 24" using assms by (intro power_strict_increasing) simp_all
  moreover have "unat (push_bit i (1 :: 32 word)) = 2 ^ i"
    unfolding unsigned_push_bit_eq using assms by simp
  ultimately show ?thesis unfolding word_less_nat_alt by simp
qed

lemma rtos_marks:
  fixes wd :: "nat \<Rightarrow> worker_data_rtos"
  assumes laws: "kernel_laws E N tokens" and env: "rtos_env ctx wd g k m nt" and i: "i < k"
  defines "x \<equiv> wr_xEventGroup (wd i)" and "b \<equiv> wr_xReadyBit (wd i)"
  shows "\<exists>m' nt'. bindE (ev_clear E nt x b) (\<lambda>nt. Inr (m, nt)) = Inr (m', nt') \<and>
      rtos_env ctx wd g k m' nt' \<and> differs word_array m m' \<and> tokens nt' = tokens nt"
    and "\<exists>m' nt'. bindE (ev_set E nt x b) (\<lambda>nt. Inr (m, nt)) = Inr (m', nt') \<and>
      rtos_env ctx wd g k m' nt' \<and> differs word_array m m' \<and> tokens nt' = tokens nt"
proof -
  have b: "b < 2 ^ 24" using env i ready_bit_user by (simp add: rtos_env_def b_def)
  have E: "event_laws E" using laws by (simp add: kernel_laws_def)
  obtain c where c: "ev_clear E nt x b = Inr c" using event_lawsD(2)[OF E b] by blast
  obtain t where t: "ev_set E nt x b = Inr t" using event_lawsD(1)[OF E b] by blast
  have "tokens c = tokens nt" "tokens t = tokens nt" using laws c t unfolding kernel_laws_def by blast+
  moreover have "rtos_env ctx wd g k m c" "rtos_env ctx wd g k m t" using env by (simp_all add: rtos_env_def)
  ultimately show "\<exists>m' nt'. bindE (ev_clear E nt x b) (\<lambda>nt. Inr (m, nt)) = Inr (m', nt') \<and>
      rtos_env ctx wd g k m' nt' \<and> differs word_array m m' \<and> tokens nt' = tokens nt"
    "\<exists>m' nt'. bindE (ev_set E nt x b) (\<lambda>nt. Inr (m, nt)) = Inr (m', nt') \<and>
      rtos_env ctx wd g k m' nt' \<and> differs word_array m m' \<and> tokens nt' = tokens nt"
    using c t differs_refl by auto
qed

interpretation rtos: dispatch_platform Rtos_Counter "rtos_platform E N ctx wd" N tokens
  "rtos_env ctx wd g k" ctx k "kernel_laws E N tokens" for E N tokens ctx wd g k
  apply unfold_locales
  apply (unfold rtos_platform_simps)
  subgoal by (simp add: kernel_laws_def)
  subgoal by (rule rtos_create)
  subgoal by (rule rtos_decrement)
  subgoal by (rule rtos_channel)
  subgoal by (rule rtos_channel)
  subgoal by (rule rtos_delete)
  subgoal by (rule rtos_marks)
  subgoal by (rule rtos_marks)
  subgoal by (rule rtos_poll)
  subgoal by (simp add: rtos_env_def)
  subgoal by (rule rtos_env_store)
  subgoal by (simp add: rtos_env_def)
  subgoal by (simp add: rtos_env_def)
  done

section \<open>The ready bits\<close>

text \<open>A system starts with the ready bits of all workers set.\<close>

definition rtos_init :: "'n event_ops \<Rightarrow> ptr \<Rightarrow> (nat \<Rightarrow> worker_data_rtos) \<Rightarrow> nat \<Rightarrow> nat \<Rightarrow> ('n, 'u) disp_sys \<Rightarrow> bool" where
  "rtos_init E ctx wd g k s \<longleftrightarrow> disp_init (rtos_env ctx wd g k) s \<and>
     (\<forall>i < k. bit (ev_get E (ds_note s) g) i)"

definition rtos_reach :: "'n event_ops \<Rightarrow> 'n note_ops \<Rightarrow> ('n \<Rightarrow> nat \<Rightarrow> nat) \<Rightarrow> (fptr \<Rightarrow> ptr \<Rightarrow> 'u \<Rightarrow> 'u) \<Rightarrow> ptr \<Rightarrow>
    (nat \<Rightarrow> worker_data_rtos) \<Rightarrow> nat \<Rightarrow> nat \<Rightarrow> nat \<Rightarrow> ('n, 'u) disp_sys \<Rightarrow> bool" where
  "rtos_reach E N tokens call ctx wd g k n =
     reach (rtos_init E ctx wd g k) (disp_step (rtos_platform E N ctx wd) N tokens call ctx k n)"

lemma rtos_disp_reach:
  assumes "rtos_reach E N tokens call ctx wd g k n s"
  shows "disp_reach (rtos_platform E N ctx wd) N tokens (rtos_env ctx wd g k) call ctx k n s"
  using assms unfolding rtos_reach_def disp_reach_def
  by (induction rule: reach.induct) (auto simp: rtos_init_def intro: reach.intros)

lemma rtos_reach_inv:
  assumes "rtos_reach E N tokens call ctx wd g k n s" "kernel_laws E N tokens"
  shows "disp_inv Rtos_Counter tokens (rtos_env ctx wd g k) k n s"
  using rtos.disp_reach_inv[OF rtos_disp_reach[OF assms(1)] assms(2)] .

definition ready_inv :: "'n event_ops \<Rightarrow> nat \<Rightarrow> nat \<Rightarrow> ('n, 'u) disp_sys \<Rightarrow> bool" where
  "ready_inv E g k s \<longleftrightarrow> (\<forall>i < k. bit (ev_get E (ds_note s) g) i \<longleftrightarrow> bit_raised (ds_worker s i))"

lemma ready_marks:
  assumes laws: "kernel_laws E N tokens" and inv: "\<forall>j < k. bit (ev_get E nt g) j \<longleftrightarrow> bit_raised (pcs j)"
    and i: "i < k" "k \<le> 24"
  shows "\<not> bit_raised c \<Longrightarrow> ev_clear E nt g (push_bit i 1) = Inr nt' \<Longrightarrow>
      \<forall>j < k. bit (ev_get E nt' g) j \<longleftrightarrow> bit_raised ((pcs(i := c)) j)"
    and "bit_raised c \<Longrightarrow> ev_set E nt g (push_bit i 1) = Inr nt' \<Longrightarrow>
      \<forall>j < k. bit (ev_get E nt' g) j \<longleftrightarrow> bit_raised ((pcs(i := c)) j)"
proof -
  have E: "event_laws E" using laws by (simp add: kernel_laws_def)
  have "ev_get E nt' g = ev_get E nt g AND NOT (push_bit i 1)" if "ev_clear E nt g (push_bit i 1) = Inr nt'"
    using event_lawsD(2)[OF E ready_bit_user[OF i], of nt g] that by auto
  then show "\<not> bit_raised c \<Longrightarrow> ev_clear E nt g (push_bit i 1) = Inr nt' \<Longrightarrow>
      \<forall>j < k. bit (ev_get E nt' g) j \<longleftrightarrow> bit_raised ((pcs(i := c)) j)"
    using inv i by (auto simp: bit_simps)
  have "ev_get E nt' g = ev_get E nt g OR push_bit i 1" if "ev_set E nt g (push_bit i 1) = Inr nt'"
    using event_lawsD(1)[OF E ready_bit_user[OF i], of nt g] that by auto
  then show "bit_raised c \<Longrightarrow> ev_set E nt g (push_bit i 1) = Inr nt' \<Longrightarrow>
      \<forall>j < k. bit (ev_get E nt' g) j \<longleftrightarrow> bit_raised ((pcs(i := c)) j)"
    using inv i by (auto simp: bit_simps)
qed

lemma worker_ready:
  fixes s :: "('n, 'u) disp_sys"
  assumes laws: "kernel_laws E N tokens" and env: "rtos_env ctx wd g k (ds_mem s) (ds_note s)"
    and i: "i < k" and step: "worker_step (rtos_platform E N ctx wd) N call n i s = Some s'"
    and ok: "\<forall>e. ds_worker s' i \<noteq> K_Fault e" and inv: "ready_inv E g k s"
  shows "ready_inv E g k s'"
proof -
  have wd: "wr_xEventGroup (wd i) = g" "wr_xReadyBit (wd i) = push_bit i 1" "k \<le> 24"
    using env i by (auto simp: rtos_env_def)
  have inv': "\<forall>j < k. bit (ev_get E (ds_note s) g) j \<longleftrightarrow> bit_raised (ds_worker s j)"
    using inv by (simp add: ready_inv_def)
  have move: "ready_inv E g k t" if "ds_worker t = (ds_worker s)(i := c)"
    "ev_get E (ds_note t) = ev_get E (ds_note s)" "bit_raised c = bit_raised (ds_worker s i)"
    for c and t :: "('n, 'u) disp_sys"
    using that inv' by (auto simp: ready_inv_def)
  have keep: "ev_get E (notify N nt h) = ev_get E nt" for nt h
    using laws by (simp add: kernel_laws_def)
  note marks = ready_marks[OF laws inv' i wd(3)]
  show ?thesis
  proof (cases "ds_worker s i")
    case (K_Claim p)
    with step show ?thesis
      using marks(1)[of "K_Perform p"] ok
      by (auto simp: worker_step_def worker_try_def to_worker_def ready_inv_def wd result_simps split: sum.splits)
  next
    case K_Ready
    with step show ?thesis
      using marks(2)[of K_Receive] ok
      by (auto simp: worker_step_def worker_try_def to_worker_def ready_inv_def wd result_simps split: sum.splits)
  next
    case (K_Signal p c)
    with step ok show ?thesis
      by (auto simp: worker_step_def worker_try_def to_worker_def split: sum.splits if_splits intro!: move)
  next
    case (K_Finish p)
    with step ok show ?thesis
      by (auto simp: worker_step_def worker_try_def to_worker_def result_simps split: sum.splits if_splits
          intro!: move)
  qed (use step ok keep in \<open>auto simp: worker_step_def worker_try_def to_worker_def
      split: sum.splits list.splits intro!: move\<close>)
qed

lemma client_ready:
  assumes laws: "kernel_laws E N tokens" and "disp_step (rtos_platform E N ctx wd) N tokens call ctx k n s s'"
    and "\<And>i. i < k \<Longrightarrow> worker_step (rtos_platform E N ctx wd) N call n i s \<noteq> Some s'"
  shows "ds_worker s' = ds_worker s \<and> ev_get E (ds_note s') = ev_get E (ds_note s)"
  using assms(2,3)
proof cases
  case client
  have "ev_get E nt' = ev_get E nt" if "await N nt h = Some nt'" for nt nt' h
    using laws that by (auto simp: kernel_laws_def)
  with client show ?thesis
    by (cases "ds_client s")
      (auto simp: client_step_def client_try_def event_counter_wait_rtos_def result_simps
        split: sum.splits option.splits if_splits)
qed (auto simp: client_try_def add_tasks_def split: sum.splits)

lemma rtos_ready:
  assumes "rtos_reach E N tokens call ctx wd g k n s" and laws: "kernel_laws E N tokens"
  shows "ready_inv E g k s"
  using assms(1) unfolding rtos_reach_def
proof (induction rule: reach.induct)
  case (reach_init s)
  then show ?case by (auto simp: rtos_init_def disp_init_def ready_inv_def)
next
  case (reach_step s t)
  have r: "rtos_reach E N tokens call ctx wd g k n s" "rtos_reach E N tokens call ctx wd g k n t"
    unfolding rtos_reach_def using reach_step(1,2) by (auto intro: reach.reach_step)
  have env: "rtos_env ctx wd g k (ds_mem s) (ds_note s)"
    using rtos_reach_inv[OF r(1) laws] by (rule disp_invE)
  have ok: "\<forall>e. ds_worker t i \<noteq> K_Fault e" for i
    using rtos_reach_inv[OF r(2) laws] by (auto simp: disp_inv_def pc_inv_def)
  show ?case
  proof (cases "\<exists>i < k. worker_step (rtos_platform E N ctx wd) N call n i s = Some t")
    case True
    then show ?thesis using worker_ready[OF laws env _ _ ok] reach_step.IH by blast
  next
    case False
    then show ?thesis
      using client_ready[OF laws reach_step(2)] reach_step.IH by (auto simp: ready_inv_def)
  qed
qed

section \<open>The end of \<open>dispatch_queue_wait\<close>\<close>

text \<open>The client returns within two steps, with every task that was sent performed.\<close>

definition wait_rtos_ends :: "'n platform \<Rightarrow> nat \<Rightarrow> ('n, 'u) disp_sys \<Rightarrow> bool" where
  "wait_rtos_ends F n s \<longleftrightarrow> (\<exists>j \<le> 2. (client_moves F n ^^ j) s (s\<lparr>ds_client := C_Idle\<rparr>)) \<and>
     ds_queue s = [] \<and> set (ds_sent s) = set (ds_done s)"

lemma rtos_poll_ends:
  fixes s :: "('n, 'u) disp_sys"
  assumes env: "rtos_env ctx wd g k (ds_mem s) (ds_note s)" and bits: "\<forall>i < k. bit (ev_get E (ds_note s) g) i"
    and q: "ds_queue s = []" and "polling (ds_client s)"
  shows "\<exists>j \<le> 2. (client_moves (rtos_platform E N ctx wd) n ^^ j) s (s\<lparr>ds_client := C_Idle\<rparr>)"
proof -
  let ?R = "client_moves (rtos_platform E N ctx wd) n"
  obtain d where d: "ctx \<noteq> NULL" "heap (ds_mem s) ctx = Some (Dispatch_Rtos d)" "df_xEventGroup d = g"
    "df_xReadyBits d = mask k" "k \<le> 24" using env by (auto simp: rtos_env_def)
  have "ev_get E (ds_note s) g AND mask k = mask k"
    by (rule bit_word_eqI) (use bits in \<open>auto simp: bit_simps\<close>)
  then have last: "?R (s\<lparr>ds_client := C_Size b\<rparr>) (s\<lparr>ds_client := C_Idle\<rparr>)" for b
    using d by (simp add: client_moves_def client_step_def client_try_def poll_rtos_def load_dispatch_rtos_def load_def)
  have first: "?R (s\<lparr>ds_client := C_Busy i b\<rparr>) (s\<lparr>ds_client := C_Size 0\<rparr>)" for i b
    using q by (simp add: client_moves_def client_step_def client_try_def poll_rtos_def)
  have self: "s\<lparr>ds_client := ds_client s\<rparr> = s" by simp
  from assms(4) consider i b where "ds_client s = C_Busy i b" | b where "ds_client s = C_Size b"
    by (cases "ds_client s") (auto simp: polling_def)
  then have "(?R ^^ 1) s (s\<lparr>ds_client := C_Idle\<rparr>) \<or> (?R ^^ 2) s (s\<lparr>ds_client := C_Idle\<rparr>)"
  proof cases
    case 1
    then have "?R s (s\<lparr>ds_client := C_Size 0\<rparr>)" using first self by metis
    then show ?thesis using last[of 0] by (auto simp: numeral_2_eq_2 eq_OO)
  next
    case 2
    then have "?R s (s\<lparr>ds_client := C_Idle\<rparr>)" using last self by metis
    then show ?thesis by (simp add: eq_OO)
  qed
  then show ?thesis by (meson one_le_numeral order_refl)
qed

lemma rtos_wait_all:
  assumes run: "rtos_reach E N tokens call ctx wd g k n s" and laws: "kernel_laws E N tokens" and "0 < k"
    and poll: "polling (ds_client s)"
  shows "(\<exists>t. (workers_move (rtos_platform E N ctx wd) N call k n)\<^sup>*\<^sup>* s t \<and> wait_rtos_ends (rtos_platform E N ctx wd) n t) \<and>
     ((\<nexists>t. workers_move (rtos_platform E N ctx wd) N call k n s t) \<longrightarrow> wait_rtos_ends (rtos_platform E N ctx wd) n s)"
proof -
  let ?F = "rtos_platform E N ctx wd"
  have rest: "wait_rtos_ends ?F n t" if t: "rtos_reach E N tokens call ctx wd g k n t" "polling (ds_client t)"
    "\<nexists>u. workers_move ?F N call k n t u" for t
  proof -
    have inv: "disp_inv Rtos_Counter tokens (rtos_env ctx wd g k) k n t" using t(1) laws by (rule rtos_reach_inv)
    then have env: "rtos_env ctx wd g k (ds_mem t) (ds_note t)" by (rule disp_invE)
    have "client_pc_inv (ds_mem t) (ds_batch t) (ds_todo t) (ds_client t)" using inv by (rule disp_invE)
    then have todo: "ds_todo t = []" using t(2) by (cases "ds_client t") (auto simp: polling_def)
    note fin = rtos.workers_rest_done[OF inv assms(3) t(3) todo]
    have "\<forall>i < k. bit (ev_get E (ds_note t) g) i" using rtos_ready[OF t(1) laws] fin(2) by (simp add: ready_inv_def)
    with env have "\<exists>j \<le> 2. (client_moves ?F n ^^ j) t (t\<lparr>ds_client := C_Idle\<rparr>)"
      using fin(1) t(2) by (rule rtos_poll_ends)
    with fin(1,3) show ?thesis by (simp add: wait_rtos_ends_def)
  qed
  obtain t where t: "(workers_move ?F N call k n)\<^sup>*\<^sup>* s t" "\<nexists>u. workers_move ?F N call k n t u"
    "ds_client t = ds_client s"
    using rtos.workers_rest[OF laws rtos_disp_reach[OF run]] by blast
  have "rtos_reach E N tokens call ctx wd g k n t"
    using run workers_move_steps[OF t(1)] unfolding rtos_reach_def by (rule reach_rtranclp)
  then have "wait_rtos_ends ?F n t" using t(2,3) poll by (intro rest) auto
  with t(1) rest[OF run poll] show ?thesis by blast
qed

section \<open>A small system\<close>

text \<open>One worker, room for one task, a waitable task and one that is not.\<close>

definition tiny_worker :: "nat \<Rightarrow> worker_data_rtos" where
  "tiny_worker i = \<lparr>wr_parent = 1, wr_xQueue = 5, wr_xEventGroup = 6, wr_xReadyBit = push_bit i 1\<rparr>"

definition tiny_mem :: mem where
  "tiny_mem = \<lparr>brk = 9, oom = (\<lambda>_. False), heap = [
     1 \<mapsto> Dispatch_Rtos \<lparr>df_thread_count = 1, df_thread_stack_size = 256, df_xQueue = 5, df_xEventGroup = 6,
       df_xReadyBits = 1, df_worker_data = 9, df_threads = 9\<rparr>,
     3 \<mapsto> Task \<lparr>task_function = 7, task_argument = NULL, task_waitable = True, task_private_data = NULL\<rparr>,
     4 \<mapsto> Task \<lparr>task_function = 7, task_argument = NULL, task_waitable = False, task_private_data = NULL\<rparr>]\<rparr>"

definition tiny_sys :: "(small_kernel, nat) disp_sys" where
  "tiny_sys = \<lparr>ds_mem = tiny_mem, ds_note = (\<lambda>_. 0, \<lambda>_. 1), ds_app = 0, ds_queue = [],
     ds_worker = (\<lambda>_. K_Receive), ds_client = C_Idle, ds_todo = [], ds_phase = (\<lambda>_. Unknown),
     ds_batch = (\<lambda>_. None), ds_sent = [], ds_done = []\<rparr>"

definition tiny_call :: "fptr \<Rightarrow> ptr \<Rightarrow> nat \<Rightarrow> nat" where
  "tiny_call f a u = u + 1"

definition tiny_platform :: "small_kernel platform" where
  "tiny_platform = rtos_platform kernel_events kernel_notes 1 tiny_worker"

abbreviation tiny_schedule :: "nat option list \<Rightarrow> (small_kernel, nat) disp_sys \<Rightarrow> (small_kernel, nat) disp_sys option" where
  "tiny_schedule \<equiv> schedule tiny_platform kernel_notes tiny_call 1"

abbreviation tiny_step :: "(small_kernel, nat) disp_sys \<Rightarrow> (small_kernel, nat) disp_sys \<Rightarrow> bool" where
  "tiny_step \<equiv> disp_step tiny_platform kernel_notes fst tiny_call 1 1 1"

abbreviation tiny_reach :: "(small_kernel, nat) disp_sys \<Rightarrow> bool" where
  "tiny_reach \<equiv> rtos_reach kernel_events kernel_notes fst tiny_call 1 tiny_worker 6 1 1"

lemma tiny_reach_step: "tiny_reach s \<Longrightarrow> tiny_step s s' \<Longrightarrow> tiny_reach s'"
  unfolding rtos_reach_def tiny_platform_def by (rule reach_step)

lemma tiny_schedule_reach:
  assumes "tiny_reach s" "set es \<subseteq> {None, Some 0}" "tiny_schedule es s \<noteq> None"
  shows "tiny_reach (the (tiny_schedule es s))"
proof -
  obtain s' where s': "tiny_schedule es s = Some s'" using assms(3) by blast
  have "\<forall>i. Some i \<in> set es \<longrightarrow> i < 1" using assms(2) by auto
  from schedule_steps[OF s' this, of fst 1] have "tiny_step\<^sup>*\<^sup>* s s'" .
  with assms(1) have "tiny_reach s'"
    unfolding rtos_reach_def tiny_platform_def by (rule reach_rtranclp)
  with s' show ?thesis by simp
qed

lemma tiny_init: "rtos_init kernel_events 1 tiny_worker 6 1 tiny_sys"
  by (auto simp: rtos_init_def disp_init_def rtos_env_def tiny_sys_def tiny_mem_def tiny_worker_def
      mem_ok_def kernel_events_def)

lemma tiny_fresh: "fresh_channel fst 8 tiny_sys"
  by (auto simp: fresh_channel_def tiny_sys_def tiny_mem_def split: if_splits)

text \<open>The client has added the task at \<open>p\<close>.\<close>

definition tiny_added :: "ptr \<Rightarrow> (small_kernel, nat) disp_sys" where
  "tiny_added p = the (client_try tiny_sys (bindE (task_add_prepare event_counter_create_rtos 8 1 p tiny_mem) (\<lambda>m.
                  bindE (load_task p m) (\<lambda>t. Inr (m, task_private_data t))))
      (\<lambda>(m, counter). Some (add_tasks [p] (p = 3) counter
         (tiny_sys\<lparr>ds_mem := m, ds_client := C_Send p C_Idle\<rparr>))))"

lemma tiny_added_reach:
  assumes "p = 3 \<or> p = 4"
  shows "tiny_reach (tiny_added p)"
proof -
  have "tiny_reach tiny_sys" unfolding rtos_reach_def using tiny_init by (rule reach_init)
  then show ?thesis
  proof (rule tiny_reach_step)
    have mem: "ds_mem tiny_sys = tiny_mem" by (simp add: tiny_sys_def)
    show "tiny_step tiny_sys (tiny_added p)"
    proof (rule disp_step.task_add[where w = "p = 3" and task = p and h = 8])
      show "new_task tiny_sys (p = 3) p"
        using assms by (auto simp: new_task_def tiny_sys_def tiny_mem_def)
    qed (use tiny_fresh in \<open>auto simp: tiny_added_def mem client_try_def tiny_sys_def tiny_platform_def
        split: sum.splits\<close>)
  qed
qed

text \<open>It has sent the waitable task and waits for it; the worker has performed it.\<close>

definition tiny_waiting :: "(small_kernel, nat) disp_sys" where
  "tiny_waiting = (the (client_step tiny_platform 1 (tiny_added 3)))\<lparr>ds_client := C_Await (For_Task 3) 10\<rparr>"

definition tiny_released :: "(small_kernel, nat) disp_sys" where
  "tiny_released = the (tiny_schedule [Some 0, Some 0, Some 0, Some 0, Some 0, Some 0, None] tiny_waiting)"

lemmas tiny_simps = tiny_added_def tiny_sys_def tiny_mem_def client_try_def task_add_prepare_def
  load_task_def load_def store_def event_counter_create_rtos_ok add_tasks_def client_step_def

lemma tiny_waiting_reach: "tiny_reach tiny_waiting"
proof -
  let ?s = "the (client_step tiny_platform 1 (tiny_added 3))"
  have some: "client_step tiny_platform 1 (tiny_added 3) \<noteq> None" by code_simp
  have "tiny_reach ?s"
    using disp_step.client[of tiny_platform 1 "tiny_added 3" ?s] some
    by (intro tiny_reach_step[OF tiny_added_reach[of 3]]) auto
  then show ?thesis
  proof (rule tiny_reach_step)
    have idle: "ds_client ?s = C_Idle" by code_simp
    have bat: "{p. ds_batch ?s p = Some 10} = {3}" by (auto simp: tiny_simps split: if_splits)
    have "task_wait_counter 3 (ds_mem ?s) = Inr 10" by code_simp
    then show "tiny_step ?s tiny_waiting"
      by (intro disp_step.task_wait[OF idle bat]) (simp add: client_try_def tiny_waiting_def)
  qed
qed

lemma tiny_released_reach: "tiny_reach tiny_released"
  unfolding tiny_released_def
proof (rule tiny_schedule_reach[OF tiny_waiting_reach])
  show "tiny_schedule [Some 0, Some 0, Some 0, Some 0, Some 0, Some 0, None] tiny_waiting \<noteq> None" by code_simp
qed simp

text \<open>It has sent a task and waits for all; the worker has the task in hand.\<close>

definition tiny_taken :: "(small_kernel, nat) disp_sys" where
  "tiny_taken = the (tiny_schedule [None, Some 0, Some 0] (tiny_added 4))"

definition tiny_polling :: "(small_kernel, nat) disp_sys" where
  "tiny_polling = tiny_taken\<lparr>ds_client := C_Busy 0 0\<rparr>"

lemma tiny_polling_reach: "tiny_reach tiny_polling"
proof -
  have "tiny_schedule [None, Some 0, Some 0] (tiny_added 4) \<noteq> None" by code_simp
  then have "tiny_reach tiny_taken"
    unfolding tiny_taken_def using tiny_added_reach by (intro tiny_schedule_reach) auto
  moreover have "ds_client tiny_taken = C_Idle" by code_simp
  then have "tiny_step tiny_taken tiny_polling" unfolding tiny_polling_def by (intro disp_step.wait_all) auto
  ultimately show ?thesis by (rule tiny_reach_step)
qed

section \<open>Properties\<close>

text \<open>C24: a FreeRTOS dispatch queue at work is safe. Whatever the interleaving of the workers and the
  client, no thread reaches an error: no assertion fails, nothing is used that was freed, freed
  twice, or read before it was written.\<close>

theorem dispatch_rtos_safe:
  assumes "rtos_reach E N tokens call ctx wd g k n s" and "kernel_laws E N tokens"
  shows "\<forall>i e. ds_worker s i \<noteq> K_Fault e \<and> ds_client s \<noteq> C_Fault e"
  using rtos.threads_safe[OF rtos_disp_reach[OF assms(1)] assms(2)] .

theorem dispatch_rtos_safe_witness:
  "tiny_reach tiny_released \<and> (\<forall>i e. ds_worker tiny_released i \<noteq> K_Fault e \<and> ds_client tiny_released \<noteq> C_Fault e)"
  using tiny_released_reach dispatch_rtos_safe[OF tiny_released_reach small_kernel_all] by blast

text \<open>No task is lost and none is performed twice on FreeRTOS. The tasks that were sent are those
  performed, those in the queue and those that a worker has taken and not yet performed, each in
  one of these places only.\<close>

theorem dispatch_rtos_once:
  assumes "rtos_reach E N tokens call ctx wd g k n s" and "kernel_laws E N tokens"
  shows "distinct (ds_sent s) \<and> distinct (ds_done s @ ds_queue s) \<and>
     set (ds_sent s) = set (ds_done s) \<union> set (ds_queue s) \<union>
       {p. \<exists>i < k. ds_worker s i \<in> {K_Claim p, K_Perform p}} \<and>
     (\<forall>p i. ds_worker s i \<in> {K_Claim p, K_Perform p} \<longrightarrow> p \<notin> set (ds_done s @ ds_queue s) \<and>
        (\<forall>j. ds_worker s j \<in> {K_Claim p, K_Perform p} \<longrightarrow> j = i))"
  using rtos.tasks_once[OF rtos_disp_reach[OF assms(1)] assms(2)] .

theorem dispatch_rtos_once_witness:
  "distinct (ds_sent tiny_released) \<and> ds_sent tiny_released = [3] \<and> ds_done tiny_released = [3]"
proof (intro conjI)
  show "distinct (ds_sent tiny_released)"
    using dispatch_rtos_once[OF tiny_released_reach small_kernel_all] by blast
qed code_simp+

text \<open>Waiting waits for the end on FreeRTOS. When \<open>dispatch_queue_task_wait\<close> has taken the semaphore
  of the event counter the task has been performed, and when \<open>dispatch_queue_group_wait\<close> has, every
  task of the group has been.\<close>

theorem dispatch_rtos_wait_complete:
  assumes "rtos_reach E N tokens call ctx wd g k n s" and "kernel_laws E N tokens"
  shows "(\<forall>task c. ds_client s = C_Free (For_Task task) c \<longrightarrow> task \<in> set (ds_done s)) \<and>
     (\<forall>grp c l w ts. ds_client s = C_Free (For_Group grp) c \<and> group_rep (ds_mem s) grp l w ts \<longrightarrow>
        set ts \<subseteq> set (ds_done s))"
  using rtos.wait_complete[OF rtos_disp_reach[OF assms(1)] assms(2)] .

theorem dispatch_rtos_wait_complete_witness:
  "ds_client tiny_released = C_Free (For_Task 3) 10 \<and> 3 \<in> set (ds_done tiny_released)"
proof -
  have c: "ds_client tiny_released = C_Free (For_Task 3) 10" by code_simp
  then show ?thesis
    using dispatch_rtos_wait_complete[OF tiny_released_reach small_kernel_all] by blast
qed

text \<open>C25: calls return on FreeRTOS. With at least one worker and room for one task, the threads' own
  steps lead from any call that adds, or waits for a task or a group, to its return, with every task
  that was sent performed and all workers waiting for the next; and wherever no thread can take a
  step, this is so. While the client is in \<open>dispatch_queue_wait\<close>, the workers' steps lead to a state in
  which they can take no more; then, and in every state in which they can take none, the client
  returns within two steps and every task that was sent has been performed.\<close>

theorem dispatch_rtos_wait_returns:
  assumes "rtos_reach E N tokens call ctx wd g k n s" and "kernel_laws E N tokens" and "0 < k" "0 < n"
  shows "if polling (ds_client s) then
       (\<exists>t. (workers_move (rtos_platform E N ctx wd) N call k n)\<^sup>*\<^sup>* s t \<and> wait_rtos_ends (rtos_platform E N ctx wd) n t) \<and>
       ((\<nexists>t. workers_move (rtos_platform E N ctx wd) N call k n s t) \<longrightarrow> wait_rtos_ends (rtos_platform E N ctx wd) n s)
     else
       (\<exists>s'. (own_step (rtos_platform E N ctx wd) N call k n)\<^sup>*\<^sup>* s s' \<and> ds_client s' = C_Idle \<and> ds_queue s' = [] \<and>
         (\<forall>i. ds_worker s' i = K_Receive) \<and> set (ds_sent s') = set (ds_done s')) \<and>
       ((\<nexists>s'. own_step (rtos_platform E N ctx wd) N call k n s s') \<longrightarrow>
         ds_client s = C_Idle \<and> set (ds_sent s) = set (ds_done s))"
proof (cases "polling (ds_client s)")
  case True
  then show ?thesis using rtos_wait_all[OF assms(1-3)] by simp
next
  case False
  then show ?thesis using rtos.wait_returns[OF rtos_disp_reach[OF assms(1)] assms(2-4)] by simp
qed

theorem dispatch_rtos_wait_returns_witness:
  "(ds_client tiny_waiting = C_Await (For_Task 3) 10 \<and>
    (\<exists>s'. (own_step tiny_platform kernel_notes tiny_call 1 1)\<^sup>*\<^sup>* tiny_waiting s' \<and> ds_client s' = C_Idle)) \<and>
   (ds_client tiny_polling = C_Busy 0 0 \<and> ds_done tiny_polling = [] \<and> ds_sent tiny_polling = [4] \<and>
    (\<exists>t. (workers_move tiny_platform kernel_notes tiny_call 1 1)\<^sup>*\<^sup>* tiny_polling t \<and> wait_rtos_ends tiny_platform 1 t))"
proof (intro conjI)
  show c: "ds_client tiny_waiting = C_Await (For_Task 3) 10" by (simp add: tiny_waiting_def)
  then have "\<not> polling (ds_client tiny_waiting)" by (simp add: polling_def)
  then show "\<exists>s'. (own_step tiny_platform kernel_notes tiny_call 1 1)\<^sup>*\<^sup>* tiny_waiting s' \<and> ds_client s' = C_Idle"
    using dispatch_rtos_wait_returns[OF tiny_waiting_reach small_kernel_all] by (auto simp: tiny_platform_def)
  show p: "ds_client tiny_polling = C_Busy 0 0" by (simp add: tiny_polling_def)
  then have "polling (ds_client tiny_polling)" by (simp add: polling_def)
  then show "\<exists>t. (workers_move tiny_platform kernel_notes tiny_call 1 1)\<^sup>*\<^sup>* tiny_polling t \<and> wait_rtos_ends tiny_platform 1 t"
    using dispatch_rtos_wait_returns[OF tiny_polling_reach small_kernel_all] by (auto simp: tiny_platform_def)
qed code_simp+

text \<open>C26: the ready bits tell the truth. The bit of a worker is clear exactly while the worker is between
  clearing it and setting it again; so, at the moment when the kernel lets \<open>dispatch_queue_wait\<close> go
  on, every worker is waiting for a task or has just received one, and none is running one.\<close>

theorem dispatch_rtos_ready_bits:
  assumes "rtos_reach E N tokens call ctx wd g k n s" and "kernel_laws E N tokens"
  shows "(\<forall>i < k. bit (ev_get E (ds_note s) g) i \<longleftrightarrow> bit_raised (ds_worker s i)) \<and>
     (\<forall>b s'. ds_client s = C_Size b \<and> client_step (rtos_platform E N ctx wd) n s = Some s' \<longrightarrow>
        ds_client s' = C_Idle \<and> (\<forall>i < k. bit_raised (ds_worker s i)))"
proof -
  have bits: "\<forall>i < k. bit (ev_get E (ds_note s) g) i \<longleftrightarrow> bit_raised (ds_worker s i)"
    using rtos_ready[OF assms] by (simp add: ready_inv_def)
  have "rtos_env ctx wd g k (ds_mem s) (ds_note s)"
    using rtos_reach_inv[OF assms] by (rule disp_invE)
  then obtain d where d: "heap (ds_mem s) ctx = Some (Dispatch_Rtos d)" "df_xEventGroup d = g"
    "df_xReadyBits d = mask k" "ctx \<noteq> NULL" "k \<le> 24" by (auto simp: rtos_env_def)
  have "bit (ev_get E (ds_note s) g) i" if "ev_get E (ds_note s) g AND mask k = mask k" "i < k" for i
    using arg_cong[OF that(1), of "\<lambda>w. bit w i"] that(2) d(5) by (simp add: bit_simps)
  with bits d show ?thesis
    by (auto simp: client_step_def client_try_def poll_rtos_def load_dispatch_rtos_def load_def split: if_splits)
qed

theorem dispatch_rtos_ready_bits_witness:
  "\<exists>s. tiny_reach s \<and> ds_worker s 0 = K_Perform 3 \<and> \<not> bit (ev_get kernel_events (ds_note s) 6) 0"
proof -
  let ?s = "the (tiny_schedule [Some 0, Some 0] tiny_waiting)"
  have "tiny_schedule [Some 0, Some 0] tiny_waiting \<noteq> None" by code_simp
  then have r: "tiny_reach ?s" by (intro tiny_schedule_reach[OF tiny_waiting_reach]) simp_all
  moreover have w: "ds_worker ?s 0 = K_Perform 3" by code_simp
  ultimately show ?thesis using dispatch_rtos_ready_bits[OF r small_kernel_all] by (intro exI[of _ ?s]) simp
qed

text \<open>C27: \<open>dispatch_queue_wait\<close> can return too early on FreeRTOS too. A worker receives a task before it
  clears its ready bit. If the client looks in between, the queue is empty and all ready bits are
  set, and \<open>dispatch_queue_wait\<close> returns although a task that was sent before has not been
  performed.\<close>

theorem dispatch_rtos_wait_early:
  "\<exists>s s'. tiny_reach s \<and> ds_client s = C_Size 0 \<and> client_step tiny_platform 1 s = Some s' \<and>
     ds_client s' = C_Idle \<and> ds_sent s' = [4] \<and> ds_done s' = []"
proof -
  let ?s = "the (tiny_schedule [None, Some 0] (tiny_added 4))"
  let ?t = "the (tiny_schedule [None] (?s\<lparr>ds_client := C_Busy 0 0\<rparr>))"
  have "tiny_schedule [None, Some 0] (tiny_added 4) \<noteq> None" by code_simp
  then have "tiny_reach ?s" using tiny_added_reach by (intro tiny_schedule_reach) auto
  moreover have "ds_client ?s = C_Idle" by code_simp
  ultimately have "tiny_reach (?s\<lparr>ds_client := C_Busy 0 0\<rparr>)"
    by (intro tiny_reach_step[OF _ disp_step.wait_all]) auto
  moreover have "tiny_schedule [None] (?s\<lparr>ds_client := C_Busy 0 0\<rparr>) \<noteq> None" by code_simp
  ultimately have r: "tiny_reach ?t" by (intro tiny_schedule_reach) auto
  have c: "ds_client ?t = C_Size 0" by code_simp
  have "map_option (\<lambda>s. (ds_client s, ds_sent s, ds_done s)) (client_step tiny_platform 1 ?t) =
      Some (C_Idle, [4], [])" by code_simp
  then obtain s' where "client_step tiny_platform 1 ?t = Some s'" "ds_client s' = C_Idle" "ds_sent s' = [4]"
    "ds_done s' = []" unfolding map_option_eq_Some by blast
  with r c show ?thesis by blast
qed

lemma rtos_wait_ends:
  "\<exists>s1. enter_wait ctx s = Some s1 \<and>
     call_ends (rtos_platform E N ctx wd) n s1 (dispatch_queue_wait_rtos E ctx (now s))"
proof (cases "ctx = NULL")
  case True
  then show ?thesis by (simp add: client_try_def dispatch_queue_wait_rtos_def assertE_def call_ends_fault)
next
  case False
  let ?F = "rtos_platform E N ctx wd" and ?s = "s\<lparr>ds_client := C_Busy 0 0\<rparr>" and ?t = "s\<lparr>ds_client := C_Size 0\<rparr>"
  have step: "client_step ?F n ?s = Some (if ds_queue s = [] then ?t else ?s)"
    by (simp add: client_step_def client_try_def poll_rtos_def)
  have "call_ends ?F n ?s (dispatch_queue_wait_rtos E ctx (now s))"
  proof (cases "ds_queue s = []")
    case empty: True
    have "call_ends ?F n ?t (dispatch_queue_wait_rtos E ctx (now s))"
    proof (cases "load_dispatch_rtos ctx (ds_mem s)")
      case (Inl e)
      then have "client_step ?F n ?t = Some (?t\<lparr>ds_client := C_Fault e\<rparr>)"
        by (simp add: client_step_def client_try_def poll_rtos_def)
      with Inl False empty show ?thesis by (simp add: dispatch_queue_wait_rtos_def call_ends_faults)
    next
      case (Inr d)
      let ?set = "ev_get E (ds_note s) (df_xEventGroup d) AND df_xReadyBits d = df_xReadyBits d"
      have t: "client_step ?F n ?t = (if ?set then Some (?t\<lparr>ds_client := C_Idle\<rparr>) else None)"
        using Inr by (simp add: client_step_def client_try_def poll_rtos_def)
      have r: "dispatch_queue_wait_rtos E ctx (now s) = Inr (if ?set then Some (now s) else None)"
        using Inr False empty by (simp add: dispatch_queue_wait_rtos_def)
      show ?thesis
      proof (cases ?set)
        case True
        then have "client_step ?F n ?t = Some (?t\<lparr>ds_client := C_Idle\<rparr>)" unfolding t by (rule if_P)
        then have "call_ends ?F n ?t (Inr (Some (now s)))"
          by (rule call_ends_step) (rule call_ends_idle, simp_all)
        with True show ?thesis unfolding r by simp
      next
        case False
        with t show ?thesis unfolding r by (auto intro!: call_ends_stuck)
      qed
    qed
    with step empty show ?thesis by (simp add: call_ends_step)
  next
    case full: False
    have "call_ends ?F n ?s (Inr None)"
      by (rule call_ends_never[where P = "\<lambda>t. t = ?s"]) (use step full in auto)
    with full False show ?thesis by (simp add: dispatch_queue_wait_rtos_def)
  qed
  with False show ?thesis by (simp add: client_try_def)
qed

text \<open>The steps of the client make up the calls on FreeRTOS. Entered in any state and left alone by
  the workers, each call of the FreeRTOS dispatch queue ends as the definition of the whole call
  says: with its error, blocked forever, or returned with the store, the notifications and the
  queue that it computes.\<close>

theorem dispatch_rtos_calls_steps:
  "(\<exists>s1. enter_task_add (rtos_platform E N ctx wd) h ctx task w s = Some s1 \<and>
       call_ends (rtos_platform E N ctx wd) n s1 (dispatch_queue_task_add_rtos n h ctx task (now s))) \<and>
   (\<exists>s1. enter_group_add (rtos_platform E N ctx wd) h ctx grp ts w s = Some s1 \<and>
       call_ends (rtos_platform E N ctx wd) n s1 (dispatch_queue_group_add_rtos n h ctx grp (now s))) \<and>
   (\<exists>s1. enter_task_wait task s = Some s1 \<and>
       call_ends (rtos_platform E N ctx wd) n s1 (dispatch_queue_task_wait_rtos N task (now s))) \<and>
   (\<exists>s1. enter_group_wait grp s = Some s1 \<and>
       call_ends (rtos_platform E N ctx wd) n s1 (dispatch_queue_group_wait_rtos N grp (now s))) \<and>
   (\<exists>s1. enter_wait ctx s = Some s1 \<and>
       call_ends (rtos_platform E N ctx wd) n s1 (dispatch_queue_wait_rtos E ctx (now s)))"
proof (intro conjI)
  let ?F = "rtos_platform E N ctx wd"
  note link = dispatch_queue_task_add_rtos_def dispatch_queue_group_add_rtos_def
    dispatch_queue_task_wait_rtos_def dispatch_queue_group_wait_rtos_def
  show "\<exists>s1. enter_task_add ?F h ctx task w s = Some s1 \<and>
      call_ends ?F n s1 (dispatch_queue_task_add_rtos n h ctx task (now s))"
    using task_add_ends[where F = ?F] unfolding link rtos_platform_simps .
  show "\<exists>s1. enter_group_add ?F h ctx grp ts w s = Some s1 \<and>
      call_ends ?F n s1 (dispatch_queue_group_add_rtos n h ctx grp (now s))"
    using group_add_ends[where F = ?F] unfolding link rtos_platform_simps .
  show "\<exists>s1. enter_task_wait task s = Some s1 \<and> call_ends ?F n s1 (dispatch_queue_task_wait_rtos N task (now s))"
    using task_wait_ends[where F = ?F] unfolding link rtos_platform_simps .
  show "\<exists>s1. enter_group_wait grp s = Some s1 \<and> call_ends ?F n s1 (dispatch_queue_group_wait_rtos N grp (now s))"
    using group_wait_ends[where F = ?F] unfolding link rtos_platform_simps .
qed (rule rtos_wait_ends)

text \<open>One turn of a worker, undisturbed; \<open>data\<close> is its element of \<open>worker_data\<close>.\<close>

definition dispatch_queue_worker_rtos :: "'n event_ops \<Rightarrow> 'n note_ops \<Rightarrow> worker_data_rtos \<Rightarrow> (fptr \<Rightarrow> ptr \<Rightarrow> 'u \<Rightarrow> 'u) \<Rightarrow>
    ptr \<Rightarrow> mem \<times> 'n \<times> 'u \<Rightarrow> (mem \<times> 'n \<times> 'u) result" where
  "dispatch_queue_worker_rtos E N data call task = (\<lambda>(m, nt, u).
     bindE (ev_clear E nt (wr_xEventGroup data) (wr_xReadyBit data)) (\<lambda>nt.
     bindE (dispatch_task_perform call task m u) (\<lambda>u.
     bindE (load_task task m) (\<lambda>t.
     bindE (if task_waitable t then event_counter_signal_rtos N (task_private_data t) (m, nt)
            else bindE (dispatch_task_delete task m) (\<lambda>m. Inr (m, nt))) (\<lambda>(m, nt).
     bindE (ev_set E nt (wr_xEventGroup data) (wr_xReadyBit data)) (\<lambda>nt.
     Inr (m, nt, u)))))))"

lemma signal_by_rtos: "signal_by (rtos_platform E N ctx wd) N = event_counter_signal_rtos N"
  by (simp add: fun_eq_iff signal_by_def event_counter_signal_rtos_def bindE_assoc cong: if_cong)

lemma worker_turn_rtos:
  "worker_turn (rtos_platform E N ctx wd) N call i task = dispatch_queue_worker_rtos E N (wd i) call task"
  by (simp add: fun_eq_iff worker_turn_def dispatch_queue_worker_rtos_def signal_by_rtos run_task_def
      bindE_assoc split_def if_distrib[of "\<lambda>r. bindE r _"] Let_def cong: if_cong)

text \<open>The steps of a worker make up a turn of its loop on FreeRTOS. Once it has received a task, a
  worker that is not disturbed ends its turn as \<open>dispatch_queue_worker\<close> says: waiting for the next task,
  with the store, the kernel objects and the application state that it computes, or in its error.\<close>

theorem dispatch_rtos_worker_turn:
  assumes "ds_worker s i = K_Claim task"
  shows "worker_ends (rtos_platform E N ctx wd) N call n i s
     (dispatch_queue_worker_rtos E N (wd i) call task (ds_mem s, ds_note s, ds_app s))"
  using claim_ends[OF assms, where F = "rtos_platform E N ctx wd" and N = N] unfolding worker_turn_rtos .

theorem dispatch_rtos_worker_turn_witness:
  "\<exists>s s'. ds_worker s 0 = K_Claim 3 \<and>
     (\<lambda>s s'. worker_step tiny_platform kernel_notes tiny_call 1 0 s = Some s')\<^sup>*\<^sup>* s s' \<and>
     ds_worker s' 0 = K_Receive \<and> ds_app s' = 1"
proof -
  let ?s = "the (tiny_schedule [Some 0] tiny_waiting)"
  let ?r = "dispatch_queue_worker_rtos kernel_events kernel_notes (tiny_worker 0) tiny_call 3 (ds_mem ?s, ds_note ?s, ds_app ?s)"
  have w: "ds_worker ?s 0 = K_Claim 3" by code_simp
  have "map_sum id (\<lambda>(m, nt, u). u) ?r = Inr 1" by code_simp
  then obtain m nt where "?r = Inr (m, nt, 1)" by (cases ?r) auto
  then show ?thesis
    using dispatch_rtos_worker_turn[OF w, of kernel_events kernel_notes 1 tiny_worker tiny_call 1] w
    unfolding worker_ends_def tiny_platform_def by auto
qed

end
