(* ===== verification/Matrix_Multiply.thy ===== *)
theory Matrix_Multiply
  imports Prelude "HOL-Library.Multiset"
begin

text \<open>
  The matrix multiplication example, after \<open>app_matrix_multiply/src/main.c\<close>: the product of two
  matrices by one call, and by four tasks that compute a quarter of the rows each. An \<open>int\<close> is an
  integer whose results must lie in the range of 32 bits, an array of arrays a list of rows.
\<close>

section \<open>The program\<close>

definition NUM_THREADS :: int where
  "NUM_THREADS = 4"

definition ROWS :: int where
  "ROWS = 100"

definition COLUMNS :: int where
  "COLUMNS = 100"

record worker_arg =
  start_row :: int
  end_row :: int

type_synonym matrix = "int list list"

record mats =
  input_mat1 :: matrix
  input_mat2 :: matrix
  output_mat :: matrix

text \<open>The value of an expression of type \<open>int\<close>.\<close>

definition in_int :: "int \<Rightarrow> bool" where
  "in_int x \<longleftrightarrow> - (2 ^ 31) \<le> x \<and> x < 2 ^ 31"

definition intE :: "int \<Rightarrow> int result" where
  "intE x = (if in_int x then Inr x else Inl Signed_Overflow)"

definition inside :: "matrix \<Rightarrow> int \<Rightarrow> int \<Rightarrow> bool" where
  "inside a i j \<longleftrightarrow> 0 \<le> i \<and> nat i < length a \<and> 0 \<le> j \<and> nat j < length (a ! nat i)"

definition read_mat :: "matrix \<Rightarrow> int \<Rightarrow> int \<Rightarrow> int result" where
  "read_mat a i j = (if inside a i j then Inr (a ! nat i ! nat j) else Inl Index_Out_Of_Bounds)"

definition write_mat :: "matrix \<Rightarrow> int \<Rightarrow> int \<Rightarrow> int \<Rightarrow> matrix result" where
  "write_mat a i j v =
     (if inside a i j then Inr (a[nat i := (a ! nat i)[nat j := v]]) else Inl Index_Out_Of_Bounds)"

text \<open>\<open>for (int i = lo; i < hi; i++)\<close>.\<close>

definition for_int :: "int \<Rightarrow> int \<Rightarrow> (int \<Rightarrow> 's \<Rightarrow> 's result) \<Rightarrow> 's \<Rightarrow> 's result" where
  "for_int lo hi body = foldE body [lo..hi - 1]"

definition reset_matrices :: "mats \<Rightarrow> mats result" where
  "reset_matrices =
     for_int 0 ROWS (\<lambda>i. for_int 0 COLUMNS (\<lambda>j M.
       bindE (write_mat (input_mat1 M) i j 1) (\<lambda>a.
       bindE (write_mat (input_mat2 M) i j 1) (\<lambda>b.
       bindE (write_mat (output_mat M) i j 0) (\<lambda>c.
       Inr \<lparr>input_mat1 = a, input_mat2 = b, output_mat = c\<rparr>)))))"

text \<open>The messages that \<open>verify_output\<close> prints: the position and the value of each wrong element.\<close>

definition verify_output :: "mats \<Rightarrow> (int \<times> int \<times> int) list result" where
  "verify_output M =
     for_int 0 ROWS (\<lambda>i. for_int 0 COLUMNS (\<lambda>j out.
       bindE (read_mat (output_mat M) i j) (\<lambda>v.
       Inr (if v \<noteq> ROWS then out @ [(i, j, v)] else out)))) []"

text \<open>The statement in the innermost loop of \<open>do_matrix_multiply\<close>.\<close>

definition mac :: "int \<times> int \<times> int \<Rightarrow> mats \<Rightarrow> mats result" where
  "mac = (\<lambda>(i, j, k) M.
     bindE (read_mat (output_mat M) i j) (\<lambda>c.
     bindE (read_mat (input_mat1 M) i k) (\<lambda>a.
     bindE (read_mat (input_mat2 M) k j) (\<lambda>b.
     bindE (intE (a * b)) (\<lambda>ab.
     bindE (intE (c + ab)) (\<lambda>v.
     bindE (write_mat (output_mat M) i j v) (\<lambda>out.
     Inr (M\<lparr>output_mat := out\<rparr>))))))))"

definition do_matrix_multiply :: "worker_arg \<Rightarrow> mats \<Rightarrow> mats result" where
  "do_matrix_multiply arg =
     for_int (start_row arg) (end_row arg) (\<lambda>i.
       for_int 0 COLUMNS (\<lambda>j. for_int 0 ROWS (\<lambda>k. mac (i, j, k))))"

definition single_thread_mat_mul :: "mats \<Rightarrow> (mats \<times> (int \<times> int \<times> int) list) result" where
  "single_thread_mat_mul M =
     bindE (reset_matrices M) (\<lambda>M.
     bindE (do_matrix_multiply \<lparr>start_row = 0, end_row = ROWS\<rparr> M) (\<lambda>M.
     bindE (verify_output M) (\<lambda>out. Inr (M, out))))"

text \<open>The element \<open>args[i]\<close> of \<open>multi_thread_mat_mul\<close>.\<close>

definition thread_arg :: "int \<Rightarrow> worker_arg" where
  "thread_arg i =
     (let num_rows = ROWS div NUM_THREADS; start = i * num_rows
      in \<lparr>start_row = start, end_row = start + num_rows\<rparr>)"

text \<open>
  \<open>multi_thread_mat_mul\<close>, when the dispatch queue performs the tasks of the group in the given order;
  what the queue does is the subject of theory \<open>Matrix_Dispatch\<close>.
\<close>

definition multi_thread_mat_mul :: "int list \<Rightarrow> mats \<Rightarrow> (mats \<times> (int \<times> int \<times> int) list) result" where
  "multi_thread_mat_mul order M =
     bindE (reset_matrices M) (\<lambda>M.
     bindE (foldE (\<lambda>i. do_matrix_multiply (thread_arg i)) order M) (\<lambda>M.
     bindE (verify_output M) (\<lambda>out. Inr (M, out))))"

section \<open>Loops as lists of statements\<close>

lemma foldE_eqs:
  "foldE f [] = Inr" "foldE f (x # xs) = (\<lambda>s. bindE (f x s) (foldE f xs))"
  "foldE f (xs @ ys) = (\<lambda>s. bindE (foldE f xs s) (foldE f ys))"
  by (simp_all add: fun_eq_iff)

lemma foldE_map: "foldE f (map g xs) = foldE (\<lambda>x. f (g x)) xs"
  by (induction xs) (simp_all add: foldE_eqs)

lemma foldE_product: "foldE f (List.product xs ys) = foldE (\<lambda>x. foldE (\<lambda>y. f (x, y)) ys) xs"
  by (induction xs) (simp_all add: foldE_eqs foldE_map)

lemma foldE_concat: "foldE f (concat xss) = foldE (foldE f) xss"
  by (induction xss) (simp_all add: foldE_eqs)

text \<open>The statements of a call of \<open>do_matrix_multiply\<close>, in order.\<close>

definition mac_list :: "worker_arg \<Rightarrow> (int \<times> int \<times> int) list" where
  "mac_list arg =
     List.product [start_row arg..end_row arg - 1] (List.product [0..COLUMNS - 1] [0..ROWS - 1])"

lemma do_matrix_multiply_macs: "do_matrix_multiply arg = foldE mac (mac_list arg)"
  by (simp add: do_matrix_multiply_def mac_list_def for_int_def foldE_product)

lemma set_mac_list:
  "set (mac_list arg) = {start_row arg..<end_row arg} \<times> {0..<COLUMNS} \<times> {0..<ROWS}"
  by (auto simp: mac_list_def)

lemma distinct_mac_list: "distinct (mac_list arg)"
  by (simp add: mac_list_def distinct_product)

section \<open>What the statements compute\<close>

text \<open>Three matrices of the declared sizes.\<close>

definition mat_ok :: "matrix \<Rightarrow> bool" where
  "mat_ok a \<longleftrightarrow> length a = nat ROWS \<and> (\<forall>r \<in> set a. length r = nat COLUMNS)"

definition mats_ok :: "mats \<Rightarrow> bool" where
  "mats_ok M \<longleftrightarrow> mat_ok (input_mat1 M) \<and> mat_ok (input_mat2 M) \<and> mat_ok (output_mat M)"

abbreviation elem_at :: "matrix \<Rightarrow> int \<Rightarrow> int \<Rightarrow> int" where
  "elem_at a i j \<equiv> a ! nat i ! nat j"

lemma mat_inside: "mat_ok a \<Longrightarrow> inside a i j \<longleftrightarrow> i \<in> {0..<ROWS} \<and> j \<in> {0..<COLUMNS}"
  by (auto simp: inside_def mat_ok_def)

lemma mat_write:
  assumes "mat_ok a" "i \<in> {0..<ROWS}" "j \<in> {0..<COLUMNS}"
  shows "\<exists>b. write_mat a i j v = Inr b \<and> mat_ok b \<and>
     (\<forall>x \<in> {0..<ROWS}. \<forall>y \<in> {0..<COLUMNS}. elem_at b x y = (if x = i \<and> y = j then v else elem_at a x y))"
proof -
  let ?b = "a[nat i := (a ! nat i)[nat j := v]]"
  have in_rows: "nat i < length a" "length (a ! nat i) = nat COLUMNS" using assms by (auto simp: mat_ok_def)
  have "mat_ok ?b"
    using assms(1) in_rows by (auto simp: mat_ok_def dest!: set_update_subset_insert[THEN subsetD])
  moreover have "elem_at ?b x y = (if x = i \<and> y = j then v else elem_at a x y)"
    if "x \<in> {0..<ROWS}" "y \<in> {0..<COLUMNS}" for x y
    using that assms in_rows by (auto simp: nth_list_update nat_eq_iff)
  moreover have "write_mat a i j v = Inr ?b" using assms mat_inside by (simp add: write_mat_def)
  ultimately show ?thesis by blast
qed

lemma mat_ext:
  assumes "mat_ok a" "mat_ok b"
    and "\<And>i j. i \<in> {0..<ROWS} \<Longrightarrow> j \<in> {0..<COLUMNS} \<Longrightarrow> elem_at a i j = elem_at b i j"
  shows "a = b"
proof (rule nth_equalityI)
  show "length a = length b" using assms(1,2) by (simp add: mat_ok_def)
  fix i
  assume i: "i < length a"
  then have len: "length (a ! i) = nat COLUMNS" "length (b ! i) = nat COLUMNS" "i < nat ROWS"
    using assms(1,2) by (simp_all add: mat_ok_def)
  show "a ! i = b ! i"
  proof (rule nth_equalityI)
    fix j
    assume "j < length (a ! i)"
    with len show "a ! i ! j = b ! i ! j" using assms(3)[of "int i" "int j"] by simp
  qed (simp add: len)
qed

text \<open>The part of the product that a set of statements adds to an element.\<close>

definition mac_sum :: "mats \<Rightarrow> (int \<times> int \<times> int) set \<Rightarrow> int \<Rightarrow> int \<Rightarrow> int" where
  "mac_sum M S i j = (\<Sum>k \<in> {k. (i, j, k) \<in> S}. elem_at (input_mat1 M) i k * elem_at (input_mat2 M) k j)"

definition all_macs :: "(int \<times> int \<times> int) set" where
  "all_macs = {0..<ROWS} \<times> {0..<COLUMNS} \<times> {0..<ROWS}"

text \<open>Inputs without negative elements, and a product that fits.\<close>

definition mats_small :: "mats \<Rightarrow> (int \<times> int \<times> int) set \<Rightarrow> bool" where
  "mats_small M S \<longleftrightarrow>
     (\<forall>i \<in> {0..<ROWS}. \<forall>j \<in> {0..<COLUMNS}. 0 \<le> elem_at (input_mat1 M) i j \<and> 0 \<le> elem_at (input_mat2 M) i j \<and>
        0 \<le> elem_at (output_mat M) i j \<and> elem_at (output_mat M) i j + mac_sum M S i j < 2 ^ 31)"

lemma square: "COLUMNS = ROWS"
  by (simp add: ROWS_def COLUMNS_def)

lemma mac_sum_insert:
  assumes "(i, j, k) \<notin> S" "finite S"
  shows "mac_sum M (insert (i, j, k) S) x y =
     mac_sum M S x y + (if x = i \<and> y = j then elem_at (input_mat1 M) i k * elem_at (input_mat2 M) k j else 0)"
proof (cases "x = i \<and> y = j")
  case True
  have "finite ((\<lambda>(x, y, k). k) ` S)" using assms(2) by (rule finite_imageI)
  moreover have "{k. (i, j, k) \<in> S} \<subseteq> (\<lambda>(x, y, k). k) ` S" by force
  ultimately have "finite {k. (i, j, k) \<in> S}" by (rule rev_finite_subset)
  moreover have "{l. (i, j, l) \<in> insert (i, j, k) S} = insert k {k. (i, j, k) \<in> S}" by auto
  ultimately show ?thesis using assms(1) True by (simp add: mac_sum_def)
next
  case False
  then have "{l. (x, y, l) \<in> insert (i, j, k) S} = {l. (x, y, l) \<in> S}" by auto
  with False show ?thesis by (auto simp: mac_sum_def)
qed

lemma mac_sum_nonneg:
  assumes "mats_small M T" "S \<subseteq> all_macs"
  shows "0 \<le> mac_sum M S i j"
  unfolding mac_sum_def
proof (rule sum_nonneg)
  fix k
  assume "k \<in> {k. (i, j, k) \<in> S}"
  then have "i \<in> {0..<ROWS}" "j \<in> {0..<COLUMNS}" "k \<in> {0..<ROWS}" using assms(2) by (auto simp: all_macs_def)
  then have "0 \<le> elem_at (input_mat1 M) i k" "0 \<le> elem_at (input_mat2 M) k j"
    using assms(1) by (auto simp: mats_small_def square)
  then show "0 \<le> elem_at (input_mat1 M) i k * elem_at (input_mat2 M) k j" by simp
qed

lemma foldE_macs:
  assumes "mats_ok M" "distinct ls" "set ls \<subseteq> all_macs" "mats_small M (set ls)"
  shows "\<exists>M'. foldE mac ls M = Inr M' \<and> mats_ok M' \<and> input_mat1 M' = input_mat1 M \<and> input_mat2 M' = input_mat2 M \<and>
     (\<forall>i \<in> {0..<ROWS}. \<forall>j \<in> {0..<COLUMNS}.
        elem_at (output_mat M') i j = elem_at (output_mat M) i j + mac_sum M (set ls) i j)"
  using assms
proof (induction ls arbitrary: M)
  case Nil
  then show ?case by (simp add: mac_sum_def)
next
  case (Cons x ls)
  obtain i j k where x: "x = (i, j, k)" by (cases x)
  have ijk: "i \<in> {0..<ROWS}" "j \<in> {0..<COLUMNS}" "k \<in> {0..<ROWS}"
    using Cons.prems(3) x by (auto simp: all_macs_def)
  have kc: "k \<in> {0..<COLUMNS}" using ijk(3) by (simp add: square)
  have ok: "mat_ok (input_mat1 M)" "mat_ok (input_mat2 M)" "mat_ok (output_mat M)"
    using Cons.prems(1) by (simp_all add: mats_ok_def)
  let ?a = "elem_at (input_mat1 M) i k" and ?b = "elem_at (input_mat2 M) k j" and ?c = "elem_at (output_mat M) i j"
  have split: "mac_sum M (set (x # ls)) p q = mac_sum M (set ls) p q + (if p = i \<and> q = j then ?a * ?b else 0)" for p q
    using Cons.prems(2) x mac_sum_insert[of i j k "set ls" M p q] by simp
  have nonneg: "0 \<le> mac_sum M (set ls) p q" for p q
    using Cons.prems(3) by (intro mac_sum_nonneg[OF Cons.prems(4)]) auto
  have "0 \<le> ?a" "0 \<le> ?b" "0 \<le> ?c" "?c + mac_sum M (set (x # ls)) i j < 2 ^ 31"
    using Cons.prems(4) ijk kc by (auto simp: mats_small_def square)
  moreover from this have "0 \<le> ?a * ?b" by simp
  moreover have "mac_sum M (set (x # ls)) i j = mac_sum M (set ls) i j + ?a * ?b" using split[of i j] by simp
  ultimately have "0 \<le> ?a * ?b" "0 \<le> ?c" "?c + ?a * ?b < 2 ^ 31" using nonneg[of i j] by linarith+
  then have range: "in_int (?a * ?b)" "in_int (?c + ?a * ?b)" "0 \<le> ?c + ?a * ?b"
    by (simp_all add: in_int_def)
  obtain out where out: "write_mat (output_mat M) i j (?c + ?a * ?b) = Inr out" "mat_ok out"
    "\<And>p q. p \<in> {0..<ROWS} \<Longrightarrow> q \<in> {0..<COLUMNS} \<Longrightarrow>
       elem_at out p q = (if p = i \<and> q = j then ?c + ?a * ?b else elem_at (output_mat M) p q)"
    using mat_write[OF ok(3) ijk(1,2)] by blast
  let ?M = "M\<lparr>output_mat := out\<rparr>"
  have step: "mac x M = Inr ?M"
    using out(1) range ijk kc mat_inside[OF ok(1)] mat_inside[OF ok(2)] mat_inside[OF ok(3)]
    by (simp add: x mac_def read_mat_def intE_def)
  have sum: "mac_sum ?M S p q = mac_sum M S p q" for S p q by (simp add: mac_sum_def)
  have "mats_small ?M (set ls)"
    unfolding mats_small_def
  proof (intro ballI)
    fix p q
    assume pq: "p \<in> {0..<ROWS}" "q \<in> {0..<COLUMNS}"
    have "0 \<le> elem_at (output_mat M) p q" "0 \<le> elem_at (input_mat1 M) p q" "0 \<le> elem_at (input_mat2 M) p q"
      "elem_at (output_mat M) p q + mac_sum M (set (x # ls)) p q < 2 ^ 31"
      using Cons.prems(4) pq by (auto simp: mats_small_def)
    then show "0 \<le> elem_at (input_mat1 ?M) p q \<and> 0 \<le> elem_at (input_mat2 ?M) p q \<and>
        0 \<le> elem_at (output_mat ?M) p q \<and> elem_at (output_mat ?M) p q + mac_sum ?M (set ls) p q < 2 ^ 31"
      using out(3)[OF pq] split[of p q] range(3) by (auto simp: sum split: if_splits)
  qed
  moreover have "mats_ok ?M" using ok out(2) by (simp add: mats_ok_def)
  ultimately obtain M' where M': "foldE mac ls ?M = Inr M'" "mats_ok M'" "input_mat1 M' = input_mat1 M"
    "input_mat2 M' = input_mat2 M" "\<And>p q. p \<in> {0..<ROWS} \<Longrightarrow> q \<in> {0..<COLUMNS} \<Longrightarrow>
       elem_at (output_mat M') p q = elem_at out p q + mac_sum M (set ls) p q"
    using Cons.IH[of ?M] Cons.prems(2,3) by (auto simp: sum)
  have "elem_at (output_mat M') p q = elem_at (output_mat M) p q + mac_sum M (set (x # ls)) p q"
    if "p \<in> {0..<ROWS}" "q \<in> {0..<COLUMNS}" for p q
    unfolding M'(5)[OF that] out(3)[OF that] split by simp
  with M' step show ?case by auto
qed

section \<open>The example\<close>

text \<open>The matrices after \<open>reset_matrices\<close>.\<close>

definition fresh_mats :: mats where
  "fresh_mats = \<lparr>input_mat1 = replicate (nat ROWS) (replicate (nat COLUMNS) 1),
     input_mat2 = replicate (nat ROWS) (replicate (nat COLUMNS) 1),
     output_mat = replicate (nat ROWS) (replicate (nat COLUMNS) 0)\<rparr>"

lemma fresh_mats_ok: "mats_ok fresh_mats"
  by (simp add: mats_ok_def mat_ok_def fresh_mats_def)

lemma fresh_elems:
  assumes "i \<in> {0..<ROWS}" "j \<in> {0..<COLUMNS}"
  shows "elem_at (input_mat1 fresh_mats) i j = 1" "elem_at (input_mat2 fresh_mats) i j = 1"
    "elem_at (output_mat fresh_mats) i j = 0"
  using assms by (simp_all add: fresh_mats_def nth_replicate)

lemma foldE_rule:
  assumes "P [] s" and "\<And>xs x t. P xs t \<Longrightarrow> x \<in> set ls \<Longrightarrow> \<exists>t'. f x t = Inr t' \<and> P (xs @ [x]) t'"
  shows "\<exists>t. foldE f ls s = Inr t \<and> P ls t"
proof -
  have "\<exists>t. foldE f ys s = Inr t \<and> P ys t" if "set ys \<subseteq> set ls" for ys
    using that
  proof (induction ys rule: rev_induct)
    case (snoc x ys)
    then obtain t where t: "foldE f ys s = Inr t" "P ys t" by auto
    with assms(2)[OF t(2), of x] snoc.prems show ?case by auto
  qed (use assms(1) in simp)
  then show ?thesis by simp
qed

lemma reset_matrices_ok:
  assumes "mats_ok M"
  shows "reset_matrices M = Inr fresh_mats"
proof -
  let ?ls = "List.product [0..ROWS - 1] [0..COLUMNS - 1]"
  let ?f = "\<lambda>(i, j) M. bindE (write_mat (input_mat1 M) i j 1) (\<lambda>a. bindE (write_mat (input_mat2 M) i j 1) (\<lambda>b.
       bindE (write_mat (output_mat M) i j 0) (\<lambda>c. Inr \<lparr>input_mat1 = a, input_mat2 = b, output_mat = c\<rparr>)))"
  let ?P = "\<lambda>xs M. mats_ok M \<and> (\<forall>i \<in> {0..<ROWS}. \<forall>j \<in> {0..<COLUMNS}. (i, j) \<in> set xs \<longrightarrow>
       elem_at (input_mat1 M) i j = 1 \<and> elem_at (input_mat2 M) i j = 1 \<and> elem_at (output_mat M) i j = 0)"
  have reset: "reset_matrices = foldE ?f ?ls"
    by (simp add: reset_matrices_def for_int_def foldE_product)
  have "\<exists>M'. foldE ?f ?ls M = Inr M' \<and> ?P ?ls M'"
  proof (rule foldE_rule[where P = ?P])
    fix xs x t
    assume t: "?P xs t" and "x \<in> set ?ls"
    then obtain i j where x: "x = (i, j)" "i \<in> {0..<ROWS}" "j \<in> {0..<COLUMNS}" by (cases x) auto
    have ok: "mat_ok (input_mat1 t)" "mat_ok (input_mat2 t)" "mat_ok (output_mat t)" using t by (auto simp: mats_ok_def)
    obtain a b c where "write_mat (input_mat1 t) i j 1 = Inr a" "mat_ok a"
      "\<forall>p \<in> {0..<ROWS}. \<forall>q \<in> {0..<COLUMNS}. elem_at a p q = (if p = i \<and> q = j then 1 else elem_at (input_mat1 t) p q)"
      "write_mat (input_mat2 t) i j 1 = Inr b" "mat_ok b"
      "\<forall>p \<in> {0..<ROWS}. \<forall>q \<in> {0..<COLUMNS}. elem_at b p q = (if p = i \<and> q = j then 1 else elem_at (input_mat2 t) p q)"
      "write_mat (output_mat t) i j 0 = Inr c" "mat_ok c"
      "\<forall>p \<in> {0..<ROWS}. \<forall>q \<in> {0..<COLUMNS}. elem_at c p q = (if p = i \<and> q = j then 0 else elem_at (output_mat t) p q)"
      using mat_write[OF ok(1) x(2,3)] mat_write[OF ok(2) x(2,3)] mat_write[OF ok(3) x(2,3)] by blast
    then show "\<exists>t'. ?f x t = Inr t' \<and> ?P (xs @ [x]) t'"
      using t unfolding x(1) by (simp add: mats_ok_def)
  qed (use assms in simp)
  then obtain M' where M': "reset_matrices M = Inr M'" "?P ?ls M'" unfolding reset by blast
  then have "mat_ok (input_mat1 M')" "mat_ok (input_mat2 M')" "mat_ok (output_mat M')" by (simp_all add: mats_ok_def)
  moreover have "mat_ok (input_mat1 fresh_mats)" "mat_ok (input_mat2 fresh_mats)" "mat_ok (output_mat fresh_mats)"
    using fresh_mats_ok by (simp_all add: mats_ok_def)
  ultimately have "input_mat1 M' = input_mat1 fresh_mats" "input_mat2 M' = input_mat2 fresh_mats"
    "output_mat M' = output_mat fresh_mats"
    using M'(2) fresh_elems by (auto intro!: mat_ext)
  then have "M' = fresh_mats" by simp
  with M'(1) show ?thesis by simp
qed

lemma fresh_sum:
  assumes "i \<in> {0..<ROWS}" "j \<in> {0..<COLUMNS}" "S \<subseteq> all_macs"
  shows "mac_sum fresh_mats S i j = int (card {k. (i, j, k) \<in> S})"
proof -
  have "k \<in> {0..<ROWS}" if "(i, j, k) \<in> S" for k using that assms(3) by (auto simp: all_macs_def)
  then have "mac_sum fresh_mats S i j = (\<Sum>k \<in> {k. (i, j, k) \<in> S}. 1)"
    unfolding mac_sum_def using assms(1,2) by (intro sum.cong) (auto simp: fresh_elems square)
  then show ?thesis by simp
qed

lemma fresh_small:
  assumes "S \<subseteq> all_macs"
  shows "mats_small fresh_mats S"
  unfolding mats_small_def
proof (intro ballI)
  fix i j
  assume ij: "i \<in> {0..<ROWS}" "j \<in> {0..<COLUMNS}"
  have "card {k. (i, j, k) \<in> S} \<le> card {0..<ROWS}"
    using assms by (intro card_mono) (auto simp: all_macs_def)
  then have "mac_sum fresh_mats S i j \<le> 100" unfolding fresh_sum[OF ij assms] by (simp add: ROWS_def)
  with fresh_elems[OF ij] show "0 \<le> elem_at (input_mat1 fresh_mats) i j \<and> 0 \<le> elem_at (input_mat2 fresh_mats) i j \<and>
      0 \<le> elem_at (output_mat fresh_mats) i j \<and> elem_at (output_mat fresh_mats) i j + mac_sum fresh_mats S i j < 2 ^ 31"
    by simp
qed

text \<open>The product of the example: all elements are the number of rows.\<close>

definition product_mats :: mats where
  "product_mats = fresh_mats\<lparr>output_mat := replicate (nat ROWS) (replicate (nat COLUMNS) ROWS)\<rparr>"

lemma macs_product:
  assumes "mset ls = mset (mac_list \<lparr>start_row = 0, end_row = ROWS\<rparr>)"
  shows "foldE mac ls fresh_mats = Inr product_mats"
proof -
  have "distinct ls" using assms distinct_mac_list mset_eq_imp_distinct_iff by blast
  moreover have set: "set ls = all_macs"
    using mset_eq_setD[OF assms] by (simp add: set_mac_list all_macs_def)
  ultimately obtain M' where M': "foldE mac ls fresh_mats = Inr M'" "mats_ok M'"
    "input_mat1 M' = input_mat1 fresh_mats" "input_mat2 M' = input_mat2 fresh_mats"
    "\<And>i j. i \<in> {0..<ROWS} \<Longrightarrow> j \<in> {0..<COLUMNS} \<Longrightarrow>
       elem_at (output_mat M') i j = elem_at (output_mat fresh_mats) i j + mac_sum fresh_mats all_macs i j"
    using foldE_macs[OF fresh_mats_ok _ _ fresh_small, of ls] by auto
  have "elem_at (output_mat M') i j = ROWS" if ij: "i \<in> {0..<ROWS}" "j \<in> {0..<COLUMNS}" for i j
  proof -
    have "{k. (i, j, k) \<in> all_macs} = {0..<ROWS}" using ij by (auto simp: all_macs_def)
    then show ?thesis
      unfolding M'(5)[OF ij] fresh_elems(3)[OF ij] fresh_sum[OF ij order_refl] by (simp add: ROWS_def)
  qed
  moreover have "elem_at (output_mat product_mats) i j = ROWS" if "i \<in> {0..<ROWS}" "j \<in> {0..<COLUMNS}" for i j
    using that by (simp add: product_mats_def)
  moreover have "mat_ok (output_mat product_mats)" by (simp add: product_mats_def mat_ok_def)
  ultimately have "output_mat M' = output_mat product_mats"
    using M'(2) by (intro mat_ext) (simp_all add: mats_ok_def)
  with M'(3,4) have "M' = product_mats" by (simp add: product_mats_def)
  with M'(1) show ?thesis by simp
qed

lemma verify_product: "verify_output product_mats = Inr []"
proof -
  let ?f = "\<lambda>(i, j) out. bindE (read_mat (output_mat product_mats) i j) (\<lambda>v.
      Inr (if v \<noteq> ROWS then out @ [(i, j, v)] else out))"
  let ?ls = "List.product [0..ROWS - 1] [0..COLUMNS - 1]"
  have "\<exists>out. foldE ?f ?ls [] = Inr out \<and> out = []"
  proof (rule foldE_rule[where P = "\<lambda>_ out. out = []"])
    fix xs x and out :: "(int \<times> int \<times> int) list"
    assume out: "out = []" and "x \<in> set ?ls"
    then obtain i j where x: "x = (i, j)" "i \<in> {0..<ROWS}" "j \<in> {0..<COLUMNS}" by (cases x) auto
    have "mat_ok (output_mat product_mats)" by (simp add: product_mats_def mat_ok_def)
    then have "read_mat (output_mat product_mats) i j = Inr (elem_at (output_mat product_mats) i j)"
      using x(2,3) mat_inside by (simp add: read_mat_def)
    also have "elem_at (output_mat product_mats) i j = ROWS" using x(2,3) by (simp add: product_mats_def)
    finally show "\<exists>out'. ?f x out = Inr out' \<and> out' = []" using out by (simp add: x(1))
  qed simp
  then show ?thesis by (simp add: verify_output_def for_int_def foldE_product)
qed

text \<open>The four tasks share the statements of the one call among them.\<close>

lemma thread_macs:
  assumes "mset order = mset [0..NUM_THREADS - 1]"
  shows "mset (concat (map (\<lambda>i. mac_list (thread_arg i)) order)) =
     mset (mac_list \<lparr>start_row = 0, end_row = ROWS\<rparr>)"
proof -
  let ?share = "\<lambda>i. mac_list (thread_arg i)"
  have "distinct order" using assms distinct_upto mset_eq_imp_distinct_iff by blast
  have set: "set order = {0..3}" using mset_eq_setD[OF assms] by (simp add: NUM_THREADS_def)
  have rows: "thread_arg i = \<lparr>start_row = 25 * i, end_row = 25 * i + 25\<rparr>" for i
    by (simp add: thread_arg_def ROWS_def NUM_THREADS_def Let_def)
  have share: "set (?share i) = {25 * i..<25 * i + 25} \<times> {0..<COLUMNS} \<times> {0..<ROWS}" for i
    by (simp add: set_mac_list rows)
  have "distinct (concat (map ?share order))"
  proof -
    have apart: "set (?share i) \<inter> set (?share j) = {}" if "i \<noteq> j" for i j unfolding share using that by auto
    show ?thesis
      using \<open>distinct order\<close>
    proof (induction order)
      case (Cons i order)
      then have "\<forall>j \<in> set order. set (?share i) \<inter> set (?share j) = {}" using apart by (metis distinct.simps(2))
      then have "set (?share i) \<inter> set (concat (map ?share order)) = {}"
        unfolding set_concat set_map by blast
      with Cons show ?case by (simp add: distinct_mac_list)
    qed simp
  qed
  moreover have "set (concat (map ?share order)) = set (mac_list \<lparr>start_row = 0, end_row = ROWS\<rparr>)"
  proof -
    have four: "{0..3 :: int} = {0, 1, 2, 3}" by auto
    have "(\<Union>i \<in> {0..3}. {25 * i..<25 * i + 25}) = {0..<100 :: int}" unfolding four by auto
    moreover have "(\<Union>i \<in> {0..3 :: int}. {25 * i..<25 * i + 25} \<times> {0..<COLUMNS} \<times> {0..<ROWS}) =
        (\<Union>i \<in> {0..3}. {25 * i..<25 * i + 25}) \<times> {0..<COLUMNS} \<times> {0..<ROWS}" by blast
    ultimately show ?thesis
      unfolding set_concat set_map image_image share set by (simp add: set_mac_list ROWS_def)
  qed
  ultimately show ?thesis
    using distinct_mac_list set_eq_iff_mset_eq_distinct by blast
qed

lemma tasks_macs: "foldE (\<lambda>i. do_matrix_multiply (thread_arg i)) order = foldE mac (concat (map (\<lambda>i. mac_list (thread_arg i)) order))"
  by (simp add: foldE_concat foldE_map do_matrix_multiply_macs)

section \<open>Properties\<close>

text \<open>What \<open>do_matrix_multiply\<close> computes. For inputs without negative elements whose product fits an
  \<open>int\<close>, a call for some of the rows adds the product of the matrices to these rows of the output
  and leaves everything else as it is; no index leaves an array and no \<open>int\<close> overflows.\<close>

theorem matrix_rows:
  assumes "mats_ok M" "0 \<le> start_row arg" "end_row arg \<le> ROWS" "mats_small M all_macs"
  shows "\<exists>M'. do_matrix_multiply arg M = Inr M' \<and> mats_ok M' \<and> input_mat1 M' = input_mat1 M \<and>
     input_mat2 M' = input_mat2 M \<and>
     (\<forall>i \<in> {0..<ROWS}. \<forall>j \<in> {0..<COLUMNS}. elem_at (output_mat M') i j = elem_at (output_mat M) i j +
        (if start_row arg \<le> i \<and> i < end_row arg
         then \<Sum>k \<in> {0..<ROWS}. elem_at (input_mat1 M) i k * elem_at (input_mat2 M) k j else 0))"
proof -
  let ?S = "set (mac_list arg)"
  have sub: "?S \<subseteq> all_macs" using assms(2,3) by (auto simp: set_mac_list all_macs_def)
  have part: "mac_sum M ?S i j = (if start_row arg \<le> i \<and> i < end_row arg
      then \<Sum>k \<in> {0..<ROWS}. elem_at (input_mat1 M) i k * elem_at (input_mat2 M) k j else 0)"
    if "j \<in> {0..<COLUMNS}" for i j
  proof -
    have "{k. (i, j, k) \<in> ?S} = (if start_row arg \<le> i \<and> i < end_row arg then {0..<ROWS} else {})"
      using that by (auto simp: set_mac_list)
    then show ?thesis by (simp add: mac_sum_def)
  qed
  have all: "mac_sum M all_macs i j = (\<Sum>k \<in> {0..<ROWS}. elem_at (input_mat1 M) i k * elem_at (input_mat2 M) k j)"
    if "i \<in> {0..<ROWS}" "j \<in> {0..<COLUMNS}" for i j
  proof -
    have "{k. (i, j, k) \<in> all_macs} = {0..<ROWS}" using that by (auto simp: all_macs_def)
    then show ?thesis by (simp add: mac_sum_def)
  qed
  have "mac_sum M ?S i j \<le> mac_sum M all_macs i j" if "i \<in> {0..<ROWS}" "j \<in> {0..<COLUMNS}" for i j
    using mac_sum_nonneg[OF assms(4) order_refl, of i j] part[OF that(2)] all[OF that] by auto
  then have "mats_small M ?S" using assms(4) unfolding mats_small_def by fastforce
  from foldE_macs[OF assms(1) distinct_mac_list sub this] part show ?thesis
    unfolding do_matrix_multiply_macs by auto
qed

theorem matrix_rows_witness:
  "\<exists>M'. do_matrix_multiply \<lparr>start_row = 25, end_row = 50\<rparr> fresh_mats = Inr M' \<and>
     elem_at (output_mat M') 30 7 = 100 \<and> elem_at (output_mat M') 60 7 = 0"
proof -
  let ?arg = "\<lparr>start_row = 25, end_row = 50\<rparr> :: worker_arg"
  obtain M' where M': "do_matrix_multiply ?arg fresh_mats = Inr M'"
    and out: "\<And>i j. i \<in> {0..<ROWS} \<Longrightarrow> j \<in> {0..<COLUMNS} \<Longrightarrow> elem_at (output_mat M') i j = elem_at (output_mat fresh_mats) i j +
        (if start_row ?arg \<le> i \<and> i < end_row ?arg
         then \<Sum>k \<in> {0..<ROWS}. elem_at (input_mat1 fresh_mats) i k * elem_at (input_mat2 fresh_mats) k j else 0)"
    using matrix_rows[OF fresh_mats_ok, of ?arg] fresh_small by (auto simp: ROWS_def)
  moreover have "(\<Sum>k \<in> {0..<ROWS}. elem_at (input_mat1 fresh_mats) 30 k * elem_at (input_mat2 fresh_mats) k 7) = 100"
  proof -
    have "(\<Sum>k \<in> {0..<ROWS}. elem_at (input_mat1 fresh_mats) 30 k * elem_at (input_mat2 fresh_mats) k 7) =
        (\<Sum>k \<in> {0..<ROWS}. 1)"
      using fresh_elems(1)[of 30] fresh_elems(2)[of _ 7]
      by (intro sum.cong) (simp_all add: ROWS_def COLUMNS_def)
    then show ?thesis by (simp add: ROWS_def)
  qed
  moreover have "elem_at (output_mat fresh_mats) 30 7 = 0" "elem_at (output_mat fresh_mats) 60 7 = 0"
    using fresh_elems(3)[of 30 7] fresh_elems(3)[of 60 7] by (auto simp: ROWS_def COLUMNS_def)
  ultimately show ?thesis
    using M' out[of 30 7] out[of 60 7] by (intro exI[of _ M']) (simp add: ROWS_def COLUMNS_def)
qed

text \<open>C23: sharing the rows among tasks changes nothing. Whatever the matrices held before, and in
  whatever order the four tasks are performed, the program with a dispatch queue ends with the
  same matrices as the program without, the correct product, and \<open>verify_output\<close> prints nothing.\<close>

theorem matrix_any_order:
  assumes "mats_ok M" "mset order = mset [0..NUM_THREADS - 1]"
  shows "single_thread_mat_mul M = Inr (product_mats, []) \<and> multi_thread_mat_mul order M = single_thread_mat_mul M"
proof -
  have "do_matrix_multiply \<lparr>start_row = 0, end_row = ROWS\<rparr> fresh_mats = Inr product_mats"
    unfolding do_matrix_multiply_macs by (rule macs_product) (rule refl)
  moreover have "foldE (\<lambda>i. do_matrix_multiply (thread_arg i)) order fresh_mats = Inr product_mats"
    unfolding tasks_macs using thread_macs[OF assms(2)] by (rule macs_product)
  ultimately show ?thesis
    by (simp add: single_thread_mat_mul_def multi_thread_mat_mul_def reset_matrices_ok[OF assms(1)] verify_product)
qed

theorem matrix_any_order_witness:
  "multi_thread_mat_mul [2, 0, 3, 1] product_mats = Inr (product_mats, [])"
proof -
  have "mats_ok product_mats" by (simp add: mats_ok_def mat_ok_def product_mats_def fresh_mats_def)
  moreover have "mset [2, 0, 3, 1] = mset [0..NUM_THREADS - 1]"
    by (simp add: NUM_THREADS_def upto.simps)
  ultimately show ?thesis using matrix_any_order[of product_mats "[2, 0, 3, 1]"] by simp
qed

text \<open>The tasks may run at the same time. However the statements of the innermost loops of the
  four tasks are interleaved, they end with the correct product: the tasks write different rows.\<close>

theorem matrix_interleaved:
  assumes "mset ls = mset (concat (map (\<lambda>i. mac_list (thread_arg i)) [0..NUM_THREADS - 1]))"
  shows "foldE mac ls fresh_mats = Inr product_mats"
  using macs_product assms thread_macs[OF refl] by simp

theorem matrix_interleaved_witness:
  "foldE mac (rev (concat (map (\<lambda>i. mac_list (thread_arg i)) [0..NUM_THREADS - 1]))) fresh_mats = Inr product_mats"
  by (rule matrix_interleaved) simp

end
