(* ===== verification/Matrix_Dispatch.thy ===== *)
theory Matrix_Dispatch
  imports Dispatch_Metal Dispatch_Effects Matrix_Multiply
begin

text \<open>
  The matrix multiplication example on the bare-metal dispatch queue: the objects that
  \<open>multi_thread_mat_mul\<close> creates, and what the application holds when \<open>dispatch_queue_group_wait\<close>
  comes back. It brings together the group, the dispatch queue at work and the tasks.
\<close>

section \<open>The objects\<close>

text \<open>
  \<open>args i\<close> is the address of \<open>args[i]\<close>, \<open>f\<close> the function pointer \<open>do_matrix_multiply\<close>. The result: the
  dispatch queue, the group, the store and the workers launched.
\<close>

definition multi_thread_setup :: "chanend \<Rightarrow> nat \<Rightarrow> fptr \<Rightarrow> (nat \<Rightarrow> ptr) \<Rightarrow> mem \<Rightarrow>
    (ptr \<times> ptr \<times> mem \<times> launch list) result" where
  "multi_thread_setup cend mutex f args m =
     (let queue_length = of_int NUM_THREADS; queue_thread_count = of_int NUM_THREADS
      in bindE (dispatch_queue_create_metal cend mutex queue_length queue_thread_count 1024 m) (\<lambda>(queue, m, ls).
         bindE (dispatch_group_create queue_thread_count True m) (\<lambda>(grp, m).
         bindE (for_range 0 (nat NUM_THREADS) (\<lambda>i m.
           bindE (dispatch_group_function_add grp f (args i) m) (\<lambda>(_, m). Inr m)) m) (\<lambda>m.
         Inr (queue, grp, m, ls)))))"

abbreviation matrix_task :: "fptr \<Rightarrow> (nat \<Rightarrow> ptr) \<Rightarrow> nat \<Rightarrow> dispatch_task" where
  "matrix_task f args i \<equiv>
     \<lparr>task_function = f, task_argument = args i, task_waitable = True, task_private_data = NULL\<rparr>"

text \<open>One \<open>dispatch_group_function_add\<close>, with all that it changes.\<close>

lemma function_add_exact:
  assumes ok: "mem_ok m" and mem: "\<not> oom m (brk m)" and f: "f \<noteq> NULL"
    and g: "grp \<noteq> NULL" "heap m grp = Some (Group g)" "group_waitable g"
    and a: "group_tasks g \<noteq> NULL" "heap m (group_tasks g) = Some (Ptr_Array xs)" "grp \<noteq> group_tasks g"
    and room: "group_count g < group_length g" "unat (group_count g) < length xs"
  shows "dispatch_group_function_add grp f a m = Inr (Suc (brk m), m\<lparr>brk := Suc (brk m), heap := (heap m)
     (Suc (brk m) \<mapsto> Task \<lparr>task_function = f, task_argument = a, task_waitable = True, task_private_data = NULL\<rparr>,
      group_tasks g \<mapsto> Ptr_Array (xs[unat (group_count g) := Some (Suc (brk m))]),
      grp \<mapsto> Group (g\<lparr>group_count := group_count g + 1\<rparr>))\<rparr>)"
proof -
  have "heap m (Suc (brk m)) = None" using ok by (simp add: mem_ok_def)
  then have "Suc (brk m) \<noteq> grp" "Suc (brk m) \<noteq> group_tasks g" using g a by auto
  then show ?thesis
    using assms dispatch_task_create_ok[OF f mem, of a True]
    by (simp add: dispatch_group_function_add_def dispatch_group_task_add_def load_group_def load_task_def
        load_def store_def write_ptr_def load_ptr_array_def write_slot_def fun_upd_twist)
qed

text \<open>After \<open>i\<close> tasks: the group at \<open>b + 9\<close>, its array at \<open>b + 10\<close>, the tasks from \<open>b + 11\<close> on.\<close>

definition no_new_counter :: "mem \<Rightarrow> mem \<Rightarrow> bool" where
  "no_new_counter m0 m \<longleftrightarrow>
     (\<forall>p c. heap m p = Some (Counter_Metal c) \<longrightarrow> heap m0 p = Some (Counter_Metal c)) \<and>
     (\<forall>p c. heap m p = Some (Counter_Rtos c) \<longrightarrow> heap m0 p = Some (Counter_Rtos c))"

definition group_filled :: "fptr \<Rightarrow> (nat \<Rightarrow> ptr) \<Rightarrow> mem \<Rightarrow> nat \<Rightarrow> mem \<Rightarrow> bool" where
  "group_filled f args m0 i m \<longleftrightarrow> mem_ok m \<and> brk m = brk m0 + 2 + i \<and> oom m = oom m0 \<and>
     heap m (brk m0 + 1) = Some (Group \<lparr>group_length = 4, group_count = of_nat i, group_waitable = True,
       group_tasks = brk m0 + 2\<rparr>) \<and>
     heap m (brk m0 + 2) = Some (Ptr_Array (map (\<lambda>j. Some (brk m0 + 3 + j)) [0..<i] @ replicate (4 - i) None)) \<and>
     (\<forall>j < i. heap m (brk m0 + 3 + j) = Some (Task (matrix_task f args j))) \<and>
     (\<forall>p. heap m0 p \<noteq> None \<longrightarrow> heap m p = heap m0 p) \<and> no_new_counter m0 m"

lemma group_filled_start:
  assumes "mem_ok m0" "\<not> oom m0 (brk m0)" "\<not> oom m0 (Suc (brk m0))"
  shows "\<exists>m. dispatch_group_create 4 True m0 = Inr (brk m0 + 1, m) \<and> group_filled f args m0 0 m"
proof -
  let ?m = "m0\<lparr>brk := brk m0 + 2, heap := (heap m0)
     (brk m0 + 1 \<mapsto> Group \<lparr>group_length = 4, group_count = 0, group_waitable = True, group_tasks = brk m0 + 2\<rparr>,
      brk m0 + 2 \<mapsto> Ptr_Array (replicate 4 None))\<rparr>"
  have "dispatch_group_create 4 True m0 = Inr (brk m0 + 1, ?m)"
    using assms ptr_slots[of 4]
    by (simp add: dispatch_group_create_def malloc_ok malloc_ptrs_ok store_def dispatch_group_init_def
        load_group_def load_def fun_upd_twist)
  moreover have "mem_ok ?m" "\<forall>p. heap m0 p \<noteq> None \<longrightarrow> heap ?m p = heap m0 p" "no_new_counter m0 ?m"
    using assms(1) by (auto simp: mem_ok_def no_new_counter_def split: if_splits)
  ultimately show ?thesis by (intro exI[of _ ?m]) (simp add: group_filled_def)
qed

lemma group_filled_step:
  assumes fill: "group_filled f args m0 i m" and i: "i < 4" and f: "f \<noteq> NULL" and ok: "mem_ok m0"
    and mem: "\<not> oom m0 (brk m0 + 2 + i)"
  shows "\<exists>task m'. dispatch_group_function_add (brk m0 + 1) f (args i) m = Inr (task, m') \<and>
     group_filled f args m0 (Suc i) m'"
proof -
  let ?b = "brk m0"
  let ?g = "\<lparr>group_length = 4, group_count = of_nat i, group_waitable = True, group_tasks = ?b + 2\<rparr>"
  let ?xs = "map (\<lambda>j. Some (?b + 3 + j)) [0..<i] @ replicate (4 - i) None"
  have a: "mem_ok m" "brk m = ?b + 2 + i" "oom m = oom m0" "heap m (?b + 1) = Some (Group ?g)"
    "heap m (?b + 2) = Some (Ptr_Array ?xs)" "\<And>j. j < i \<Longrightarrow> heap m (?b + 3 + j) = Some (Task (matrix_task f args j))"
    "\<And>p. heap m0 p \<noteq> None \<Longrightarrow> heap m p = heap m0 p"
    using fill by (auto simp: group_filled_def)
  have cnt: "unat (of_nat i :: size_t) = i" using i by (simp add: unat_of_nat)
  let ?m' = "m\<lparr>brk := Suc (brk m), heap := (heap m)
     (Suc (brk m) \<mapsto> Task (matrix_task f args i), ?b + 2 \<mapsto> Ptr_Array (?xs[i := Some (Suc (brk m))]),
      ?b + 1 \<mapsto> Group (?g\<lparr>group_count := group_count ?g + 1\<rparr>))\<rparr>"
  have "dispatch_group_function_add (?b + 1) f (args i) m = Inr (Suc (brk m), ?m')"
    using function_add_exact[OF a(1) _ f _ a(4), of ?xs "args i"] a(2,3,5) mem i cnt
    by (simp add: word_less_nat_alt)
  moreover have "group_filled f args m0 (Suc i) ?m'"
    unfolding group_filled_def
  proof (intro conjI)
    show "mem_ok ?m'" using a(1,2) by (auto simp: mem_ok_def)
    show "heap ?m' (?b + 2) = Some (Ptr_Array (map (\<lambda>j. Some (?b + 3 + j)) [0..<Suc i] @ replicate (4 - Suc i) None))"
      using i a(2) by (simp add: list_update_append Suc_diff_Suc[symmetric] numeral_eq_Suc
          flip: replicate_Suc) (auto simp: list_eq_iff_nth_eq nth_append nth_Cons' nth_list_update)
    show "\<forall>p. heap m0 p \<noteq> None \<longrightarrow> heap ?m' p = heap m0 p"
      using ok a(2,7) by (auto simp: mem_ok_def)
    have "no_new_counter m0 m" using fill by (simp add: group_filled_def)
    then show "no_new_counter m0 ?m'" by (auto simp: no_new_counter_def split: if_splits)
    show "\<forall>j < Suc i. heap ?m' (?b + 3 + j) = Some (Task (matrix_task f args j))"
      using a(2,6) by (auto simp: less_Suc_eq)
  qed (use a(2,3) in simp_all)
  ultimately show ?thesis by blast
qed

lemma group_filled_rep:
  assumes "group_filled f args m0 4 m"
  shows "group_rep m (brk m0 + 1) 4 True (map (\<lambda>j. brk m0 + 3 + j) [0..<4])"
  using assms by (auto simp: group_filled_def group_rep_def nth_append)

text \<open>The matrices as the state of the application: a call that ends in an error ends the program.\<close>

definition matrix_call :: "fptr \<Rightarrow> (ptr \<Rightarrow> worker_arg) \<Rightarrow> fptr \<Rightarrow> ptr \<Rightarrow> mats result \<Rightarrow> mats result" where
  "matrix_call f arg_at g a M = (if g = f then bindE M (do_matrix_multiply (arg_at a)) else M)"

lemma perform_matrix_tasks:
  assumes "\<forall>p \<in> set ps. fst (spec p) = f"
  shows "perform_all (matrix_call f arg_at) spec ps r = bindE r (foldE (\<lambda>p. do_matrix_multiply (arg_at (snd (spec p)))) ps)"
  using assms
proof (induction ps arbitrary: r)
  case (Cons p ps)
  then show ?case by (simp add: perform_all_def matrix_call_def foldE_eqs bindE_assoc)
qed (simp add: perform_all_def foldE_eqs bindE_def split: sum.splits)

lemma mset_concat_map_cong: "mset ps = mset qs \<Longrightarrow> mset (concat (map h ps)) = mset (concat (map h qs))"
  by (metis mset_concat mset_map sum_mset_sum_list map_map)

section \<open>The setup\<close>

text \<open>What the setup leaves; \<open>m0\<close> is the store before.\<close>

definition setup_done :: "fptr \<Rightarrow> (nat \<Rightarrow> ptr) \<Rightarrow> 'n \<Rightarrow> mem \<Rightarrow> mem \<Rightarrow> bool" where
  "setup_done f args nt m0 m \<longleftrightarrow> metal_env (brk m0 + 1) (brk m0 + 6) 4 m nt \<and>
     brk m = brk m0 + 14 \<and> oom m = oom m0 \<and>
     group_rep m (brk m0 + 9) 4 True (map (\<lambda>j. brk m0 + 11 + j) [0..<4]) \<and>
     (\<forall>j < 4. heap m (brk m0 + 11 + j) = Some (Task (matrix_task f args j))) \<and> no_new_counter m0 m"

lemma fill_group:
  assumes ok: "mem_ok m0" and mem: "\<And>i. i < 6 \<Longrightarrow> \<not> oom m0 (brk m0 + i)" and f: "f \<noteq> NULL"
  shows "\<exists>m1 m. dispatch_group_create 4 True m0 = Inr (brk m0 + 1, m1) \<and>
     for_range 0 4 (\<lambda>i m. bindE (dispatch_group_function_add (brk m0 + 1) f (args i) m) (\<lambda>(_, m). Inr m)) m1 = Inr m \<and>
     group_filled f args m0 4 m"
proof -
  obtain m1 where m1: "dispatch_group_create 4 True m0 = Inr (brk m0 + 1, m1)" "group_filled f args m0 0 m1"
    using group_filled_start[OF ok, of f args] mem[of 0] mem[of 1] by auto
  have "\<exists>m. for_range 0 4 (\<lambda>i m. bindE (dispatch_group_function_add (brk m0 + 1) f (args i) m) (\<lambda>(_, m). Inr m)) m1 = Inr m \<and>
     group_filled f args m0 4 m"
  proof (rule for_range_rule)
    fix j t
    assume "j < (4 :: nat)" "group_filled f args m0 j t"
    moreover from this(1) have "\<not> oom m0 (brk m0 + 2 + j)" using mem[of "2 + j"] by (simp add: add.assoc)
    ultimately show "\<exists>t'. bindE (dispatch_group_function_add (brk m0 + 1) f (args j) t) (\<lambda>(_, m). Inr m) = Inr t' \<and>
        group_filled f args m0 (Suc j) t'"
      using group_filled_step[of f args m0 j t] f ok by fastforce
  qed (use m1(2) in simp_all)
  with m1(1) show ?thesis by blast
qed

lemma setup_ok:
  assumes ok: "mem_ok m0" and mem: "\<And>i. i < 14 \<Longrightarrow> \<not> oom m0 (brk m0 + i)" and f: "f \<noteq> NULL"
  shows "\<exists>m ls. multi_thread_setup cend mutex f args m0 = Inr (brk m0 + 1, brk m0 + 9, m, ls) \<and>
     length ls = 4 \<and> setup_done f args nt m0 m"
proof -
  let ?m1 = "created_mem cend mutex 4 4 1024 m0" and ?b = "brk m0"
  let ?d = "xcore_at ?b cend 4 4 1024" and ?ss = "map (\<lambda>i. DISPATCH_WORKER_READY_STATUS) [0..<4]"
  have queue: "dispatch_queue_create_metal cend mutex 4 4 1024 m0 = Inr (?b + 1, ?m1, map (worker_launch ?d) [0..<4])"
    using dispatch_queue_create_ok[of 4 4 m0 cend mutex 1024] mem by simp
  have m1: "mem_ok ?m1" "brk ?m1 = ?b + 8" "oom ?m1 = oom m0" "no_new_counter m0 ?m1"
    using ok by (auto simp: mem_ok_def created_mem_def Let_def no_new_counter_def split: if_splits)
  have own: "heap ?m1 (?b + 1) = Some (Dispatch_Metal ?d)" "heap ?m1 (?b + 6) = Some (Word_Array (map Some ?ss))"
    by (simp_all add: created_mem_def Let_def comp_def)
  have room: "\<not> oom ?m1 (brk ?m1 + i)" if "i < 6" for i
    using mem[of "8 + i"] that by (simp add: m1(2,3) add.assoc)
  have nine: "?b + 8 + 1 = ?b + 9" by simp
  obtain m2 m where m: "dispatch_group_create 4 True ?m1 = Inr (?b + 9, m2)"
    "for_range 0 4 (\<lambda>i m. bindE (dispatch_group_function_add (?b + 9) f (args i) m) (\<lambda>(_, m). Inr m)) m2 = Inr m"
    "group_filled f args ?m1 4 m"
    using fill_group[OF m1(1) room f, of args, unfolded m1(2) nine] by blast
  have created: "multi_thread_setup cend mutex f args m0 = Inr (?b + 1, ?b + 9, m, map (worker_launch ?d) [0..<4])"
    using queue m(1,2) by (simp add: multi_thread_setup_def NUM_THREADS_def)
  have fill: "mem_ok m" "brk m = ?b + 14" "oom m = oom m0" "no_new_counter ?m1 m"
    "\<And>p. heap ?m1 p \<noteq> None \<Longrightarrow> heap m p = heap ?m1 p"
    "\<forall>j < 4. heap m (?b + 11 + j) = Some (Task (matrix_task f args j))"
    using m(3) by (auto simp: group_filled_def m1(2,3) add.assoc)
  have "metal_env (?b + 1) (?b + 6) 4 m nt"
    using fill(1) fill(5)[of "?b + 1"] fill(5)[of "?b + 6"] own
    unfolding metal_env_def by (auto intro!: exI[of _ ?ss] simp: xcore_at_def)
  moreover have "group_rep m (?b + 9) 4 True (map (\<lambda>j. ?b + 11 + j) [0..<4])"
    using group_filled_rep[OF m(3)] by (simp add: m1(2) add.commute)
  moreover have "no_new_counter m0 m" using m1(4) fill(4) by (simp add: no_new_counter_def)
  ultimately show ?thesis using created fill by (auto simp: setup_done_def)
qed

section \<open>The run\<close>

lemma only_value: "\<exists>s. P s \<Longrightarrow> (\<And>s. P s \<Longrightarrow> g s = v) \<Longrightarrow> {g s |s. P s} = {v}"
  by auto

lemma consecutive:
  assumes "p \<in> set (map (\<lambda>j. b + j) [0..<n])"
  shows "\<exists>j < n. p = b + j"
proof -
  obtain j where "j \<in> set [0..<n]" "p = b + j" using assms unfolding set_map by blast
  then show ?thesis by auto
qed

lemma matrix_tasks_effect:
  assumes args: "\<forall>i < 4. arg_at (args i) = thread_arg (int i)"
    and m: "\<forall>j < 4. heap m (b + j) = Some (Task (matrix_task f args j))"
    and ps: "mset ps = mset (map (\<lambda>j. b + j) [0..<4])"
  shows "perform_all (matrix_call f arg_at) (\<lambda>p. case heap m p of Some (Task t) \<Rightarrow> task_call t | _ \<Rightarrow> (0, 0)) ps
     (Inr fresh_mats) = Inr product_mats"
proof -
  let ?spec = "\<lambda>p. case heap m p of Some (Task t) \<Rightarrow> task_call t | _ \<Rightarrow> (0, 0)"
  have spec: "?spec (b + j) = (f, args j)" if "j < 4" for j using m that by (simp add: task_call_def)
  have "\<exists>j < 4. p = b + j" if "p \<in> set ps" for p
    using that mset_eq_setD[OF ps] consecutive by blast
  then have "\<forall>p \<in> set ps. fst (?spec p) = f" using spec by (metis fst_conv)
  then have "perform_all (matrix_call f arg_at) ?spec ps (Inr fresh_mats) =
      foldE mac (concat (map (\<lambda>p. mac_list (arg_at (snd (?spec p)))) ps)) fresh_mats"
    by (simp add: perform_matrix_tasks foldE_concat foldE_map do_matrix_multiply_macs)
  also have "\<dots> = Inr product_mats"
  proof (rule macs_product)
    have "mset (concat (map (\<lambda>p. mac_list (arg_at (snd (?spec p)))) ps)) =
        mset (concat (map (\<lambda>p. mac_list (arg_at (snd (?spec p)))) (map (\<lambda>j. b + j) [0..<4])))"
      using ps by (rule mset_concat_map_cong)
    also have "map (\<lambda>p. mac_list (arg_at (snd (?spec p)))) (map (\<lambda>j. b + j) [0..<4]) =
        map (\<lambda>i. mac_list (thread_arg i)) [0..NUM_THREADS - 1]"
    proof -
      have "[0..NUM_THREADS - 1] = map int [0..<4]" by (simp add: NUM_THREADS_def upto.simps upt_rec)
      then show ?thesis using spec args by simp
    qed
    finally show "mset (concat (map (\<lambda>p. mac_list (arg_at (snd (?spec p)))) ps)) =
        mset (mac_list \<lparr>start_row = 0, end_row = ROWS\<rparr>)" using thread_macs[OF refl] by simp
  qed
  finally show ?thesis .
qed

section \<open>Properties\<close>

text \<open>C22: the matrix example from end to end on the bare-metal dispatch queue. When the calls of
  \<open>malloc\<close> succeed, \<open>multi_thread_mat_mul\<close> creates a dispatch queue with four workers and a group of
  four tasks; adding the group and waiting for it comes, on some schedule, to the return of
  \<open>dispatch_queue_group_wait\<close>; and on every schedule on which it returns, with no other task sent,
  the output is the correct product, whatever the matrices held before.\<close>

theorem matrix_dispatch:
  assumes m: "mem_ok m" "\<And>i. i < 16 \<Longrightarrow> \<not> oom m (brk m + i)" and f: "f \<noteq> NULL" and M: "mats_ok M"
    and laws: "note_laws N tokens" and h: "tokens nt h = 0"
      "\<And>p c. heap m p = Some (Counter_Metal c) \<Longrightarrow> ec_cend c \<noteq> h"
      "\<And>p c. heap m p = Some (Counter_Rtos c) \<Longrightarrow> es_semaphore c \<noteq> h"
    and args: "\<forall>i < 4. arg_at (args i) = thread_arg (int i)"
  shows "\<exists>queue grp m' ls st ts. multi_thread_setup cend mutex f args m = Inr (queue, grp, m', ls) \<and> length ls = 4 \<and>
     (let s0 = idle_system m' nt (reset_matrices M);
          run = (disp_step (metal_platform N queue st) N tokens (matrix_call f arg_at) queue 4 4)\<^sup>*\<^sup>*;
          returns = (\<lambda>s. (\<exists>c. ds_client s = C_Free (For_Group grp) c) \<and> set (ds_sent s) \<subseteq> set ts)
      in metal_env queue st 4 m' nt \<and> group_rep m' grp 4 True ts \<and> (\<exists>s. run s0 s \<and> returns s) \<and>
         {ds_app s |s. run s0 s \<and> returns s} = {Inr product_mats})"
proof -
  let ?b = "brk m" and ?ts = "map (\<lambda>j. brk m + 11 + j) [0..<4]"
  obtain m' ls where created: "multi_thread_setup cend mutex f args m = Inr (?b + 1, ?b + 9, m', ls)" "length ls = 4"
    and fin: "setup_done f args nt m m'" using setup_ok[OF m(1) _ f, of cend mutex args nt] m(2) by auto
  have env: "metal_env (?b + 1) (?b + 6) 4 m' nt" and grp: "group_rep m' (?b + 9) 4 True ?ts"
    and brk: "brk m' = ?b + 14" "oom m' = oom m" and cnt: "no_new_counter m m'"
    and tasks: "\<forall>j < 4. heap m' (?b + 11 + j) = Some (Task (matrix_task f args j))"
    using fin by (simp_all add: setup_done_def)
  let ?s0 = "idle_system m' nt (reset_matrices M)"
  let ?run = "(disp_step (metal_platform N (?b + 1) (?b + 6)) N tokens (matrix_call f arg_at) (?b + 1) 4 4)\<^sup>*\<^sup>*"
  let ?returns = "\<lambda>s. (\<exists>c. ds_client s = C_Free (For_Group (?b + 9)) c) \<and> set (ds_sent s) \<subseteq> set ?ts"
  have init: "disp_init (metal_env (?b + 1) (?b + 6) 4) ?s0" using env by (rule idle_system_init)
  have new: "\<forall>p \<in> set ?ts. new_task ?s0 True p"
  proof
    fix p
    assume "p \<in> set ?ts"
    then obtain j where "j < 4" "p = ?b + 11 + j" using consecutive by blast
    then show "new_task ?s0 True p" using tasks f by (simp add: new_task_def)
  qed
  have "\<not> oom m (?b + 14)" "\<not> oom m (Suc (?b + 14))" using m(2)[of 14] m(2)[of 15] by (simp_all add: add.commute)
  then have fresh: "fresh_channel tokens h ?s0"
    using h cnt unfolding fresh_channel_def no_new_counter_def idle_system_simps brk by blast
  have "\<exists>s c. ?run ?s0 s \<and> ds_client s = C_Free (For_Group (?b + 9)) c \<and> set (ds_sent s) \<subseteq> set ?ts"
    by (rule metal.group_run_exists[OF init laws _ _ _ _ _ new fresh]) (use grp in \<open>simp_all add: distinct_map\<close>)
  then have ex: "\<exists>s. ?run ?s0 s \<and> ?returns s" by blast
  have all: "ds_app s = Inr product_mats" if run: "?run ?s0 s" and ret: "?returns s" for s
  proof -
    obtain c where "ds_client s = C_Free (For_Group (?b + 9)) c" using ret by blast
    from metal.group_effect[OF init run laws this, of 4 True ?ts] grp ret brk(1) obtain ps where "mset ps = mset ?ts"
      "ds_app s = perform_all (matrix_call f arg_at)
         (\<lambda>p. case heap m' p of Some (Task t) \<Rightarrow> task_call t | _ \<Rightarrow> (0, 0)) ps (reset_matrices M)" by auto
    with matrix_tasks_effect[OF args tasks] show ?thesis by (simp add: reset_matrices_ok[OF M])
  qed
  have "{ds_app s |s. ?run ?s0 s \<and> ?returns s} = {Inr product_mats}"
    using ex by (rule only_value) (use all in blast)
  with created env grp ex show ?thesis unfolding Let_def by blast
qed

theorem matrix_dispatch_witness:
  "\<exists>queue grp m' ls st ts. multi_thread_setup 9 0 5 (\<lambda>i. 20 + i) empty_mem = Inr (queue, grp, m', ls) \<and> length ls = 4 \<and>
     (let s0 = idle_system m' (\<lambda>_. 0) (reset_matrices product_mats);
          run = (disp_step (metal_platform binary_notes queue st) binary_notes (\<lambda>n. n)
            (matrix_call 5 (\<lambda>a. thread_arg (int (a - 20)))) queue 4 4)\<^sup>*\<^sup>*;
          returns = (\<lambda>s. (\<exists>c. ds_client s = C_Free (For_Group grp) c) \<and> set (ds_sent s) \<subseteq> set ts)
      in metal_env queue st 4 m' (\<lambda>_ :: nat. 0 :: nat) \<and> group_rep m' grp 4 True ts \<and> (\<exists>s. run s0 s \<and> returns s) \<and>
         {ds_app s |s. run s0 s \<and> returns s} = {Inr product_mats})"
proof -
  have "mats_ok product_mats" by (simp add: mats_ok_def mat_ok_def product_mats_def fresh_mats_def)
  then show ?thesis
    by (intro matrix_dispatch binary_notes_laws) simp_all
qed

end
