(* ===== verification/Dispatch_Queue_Host.thy ===== *)
theory Dispatch_Queue_Host
  imports Dispatch_Threads
begin

text \<open>
  The dispatch queue of the host, after \<open>dispatch_queue_host.cc\<close>: C++ threads around a deque with a
  mutex and a condition variable, the class \<open>EventCounter\<close> to wait for tasks, and a
  \<open>BinarySemaphore\<close> per worker that says when it is ready. One client thread makes the calls.

  A step is one access to shared state. What happens while a mutex is held, and touches nothing
  but what the mutex protects, is one step; the mutex of the dispatch queue is held across
  steps by workers only, so it has an owner. A thread that waits in a condition variable is
  at a program counter \<open>Blocked\<close>; it comes back by a notification, or without one, as the C++
  standard allows. The dispatch queue is a record here, its tasks, groups and event counters live in
  the store. The fields from \<open>hs_todo\<close> on are bookkeeping, as in theory \<open>Dispatch_Threads\<close>.
\<close>

section \<open>Event counters\<close>

text \<open>\<open>new EventCounter(count)\<close>, \<open>delete counter\<close>, and the part of \<open>Signal\<close> under the mutex.\<close>

definition event_counter_create_host :: "size_t \<Rightarrow> mem \<Rightarrow> (ptr \<times> mem) result" where
  "event_counter_create_host count m =
     (let (counter, m) = malloc 8 m in
      if counter = NULL then Inl Uncaught_Exception
      else bindE (store counter (Counter_Host \<lparr>eh_count = count\<rparr>) m) (\<lambda>m. Inr (counter, m)))"

definition event_counter_delete_host :: "ptr \<Rightarrow> mem \<Rightarrow> mem result" where
  "event_counter_delete_host counter m = bindE (load_counter_host counter m) (\<lambda>_. free counter m)"

definition count_down :: "size_t \<Rightarrow> size_t" where
  "count_down count = (if count > 0 then count - 1 else count)"

definition event_counter_decrement_host :: "ptr \<Rightarrow> mem \<Rightarrow> mem result" where
  "event_counter_decrement_host counter m =
     bindE (load_counter_host counter m) (\<lambda>c.
     store counter (Counter_Host (c\<lparr>eh_count := count_down (eh_count c)\<rparr>)) m)"

text \<open>The predicate \<open>count == 0\<close>, as \<open>Wait\<close> evaluates it under the mutex and \<open>Signal\<close> without.\<close>

definition event_counter_done_host :: "ptr \<Rightarrow> mem \<Rightarrow> bool result" where
  "event_counter_done_host counter m = bindE (load_counter_host counter m) (\<lambda>c. Inr (eh_count c = 0))"

section \<open>The state\<close>

text \<open>
  The program counters of \<open>dispatch_queue_worker\<close>. \<open>W_Ready\<close>, \<open>W_Ready_Check\<close> and \<open>W_Ready_Notify\<close> are
  the three accesses of \<open>ready_semaphore->Signal()\<close>, \<open>W_Signal\<close>, \<open>W_Check\<close> and \<open>W_Notify\<close> those of
  \<open>counter->Signal()\<close>.
\<close>

datatype host_worker =
    W_Start
  | W_Ready
  | W_Ready_Check
  | W_Ready_Notify
  | W_Wait
  | W_Blocked
  | W_Woken
  | W_Branch
  | W_Reset
  | W_Pop
  | W_Perform ptr
  | W_Finish ptr
  | W_Signal ptr ptr
  | W_Check ptr
  | W_Notify ptr
  | W_Relock
  | W_While
  | W_Exit
  | W_Fault error

text \<open>
  \<open>H_Push task k\<close>: about to push the task, going on with \<open>k\<close>; \<open>H_Notify k\<close>: about to notify a worker of it.
  \<open>H_Size\<close> and \<open>H_Each i\<close>: in \<open>dispatch_queue_wait\<close>, reading the size of the deque, waiting for the
  semaphore of worker \<open>i\<close>. From \<open>H_Quit\<close> on: in \<open>dispatch_queue_delete\<close>.
\<close>

datatype host_client =
    H_Idle
  | H_Push ptr host_client
  | H_Notify host_client
  | H_Group ptr nat ptr
  | H_Await wait_target ptr
  | H_Blocked wait_target ptr
  | H_Free wait_target ptr
  | H_Size
  | H_Each nat
  | H_Each_Blocked nat
  | H_Quit
  | H_Notify_All
  | H_Join nat
  | H_Delete
  | H_Gone
  | H_Fault error

record 'u host_sys =
  hs_mem :: mem
  hs_app :: 'u
  hs_lock :: "nat option"
  hs_deque :: "ptr list"
  hs_quit :: bool
  hs_ready :: "nat \<Rightarrow> size_t"
  hs_worker :: "nat \<Rightarrow> host_worker"
  hs_client :: host_client
  hs_todo :: "ptr list"
  hs_phase :: "ptr \<Rightarrow> task_phase"
  hs_batch :: "ptr \<rightharpoonup> ptr"
  hs_sent :: "ptr list"
  hs_done :: "ptr list"

text \<open>\<open>dispatch_queue_create\<close> and \<open>dispatch_queue_init\<close>: a \<open>BinarySemaphore\<close> counts from 1.\<close>

definition dispatch_queue_init_host :: "'u host_sys \<Rightarrow> 'u host_sys" where
  "dispatch_queue_init_host s = s\<lparr>hs_quit := False, hs_ready := (\<lambda>_. 1), hs_worker := (\<lambda>_. W_Start)\<rparr>"

definition dispatch_queue_create_host :: "mem \<Rightarrow> 'u \<Rightarrow> 'u host_sys" where
  "dispatch_queue_create_host m u = dispatch_queue_init_host
     \<lparr>hs_mem = m, hs_app = u, hs_lock = None, hs_deque = [], hs_quit = False, hs_ready = (\<lambda>_. 0),
      hs_worker = (\<lambda>_. W_Exit), hs_client = H_Idle, hs_todo = [], hs_phase = (\<lambda>_. Unknown),
      hs_batch = (\<lambda>_. None), hs_sent = [], hs_done = []\<rparr>"

section \<open>The workers\<close>

definition at_worker :: "nat \<Rightarrow> host_worker \<Rightarrow> 'u host_sys \<Rightarrow> 'u host_sys" where
  "at_worker i c s = s\<lparr>hs_worker := (hs_worker s)(i := c)\<rparr>"

definition worker_res :: "nat \<Rightarrow> 'u host_sys \<Rightarrow> 'a result \<Rightarrow> ('a \<Rightarrow> 'u host_sys) \<Rightarrow> 'u host_sys option" where
  "worker_res i s r f = Some (case r of Inl e \<Rightarrow> at_worker i (W_Fault e) s | Inr x \<Rightarrow> f x)"

definition acquire :: "nat \<Rightarrow> host_worker \<Rightarrow> 'u host_sys \<Rightarrow> 'u host_sys option" where
  "acquire i c s = (if hs_lock s = None then Some (at_worker i c (s\<lparr>hs_lock := Some i\<rparr>)) else None)"

text \<open>What \<open>notify_all\<close> does to the client, on the condition of an event counter or of semaphore \<open>i\<close>.\<close>

fun wake :: "ptr \<Rightarrow> host_client \<Rightarrow> host_client" where
  "wake counter (H_Blocked target c) = (if c = counter then H_Await target c else H_Blocked target c)"
| "wake counter k = k"

fun wake_each :: "nat \<Rightarrow> host_client \<Rightarrow> host_client" where
  "wake_each i (H_Each_Blocked j) = (if j = i then H_Each j else H_Each_Blocked j)"
| "wake_each i k = k"

definition host_worker_step :: "(fptr \<Rightarrow> ptr \<Rightarrow> 'u \<Rightarrow> 'u) \<Rightarrow> nat \<Rightarrow> 'u host_sys \<Rightarrow> 'u host_sys option" where
  "host_worker_step call i s =
     (case hs_worker s i of
        W_Start \<Rightarrow> acquire i W_Ready s
      | W_Ready \<Rightarrow> Some (at_worker i W_Ready_Check
          (s\<lparr>hs_ready := (hs_ready s)(i := count_down (hs_ready s i))\<rparr>))
      | W_Ready_Check \<Rightarrow> Some (at_worker i (if hs_ready s i = 0 then W_Ready_Notify else W_Wait) s)
      | W_Ready_Notify \<Rightarrow> Some (at_worker i W_Wait (s\<lparr>hs_client := wake_each i (hs_client s)\<rparr>))
      | W_Wait \<Rightarrow> Some
          (if hs_deque s \<noteq> [] \<or> hs_quit s then at_worker i W_Branch s
           else at_worker i W_Blocked (s\<lparr>hs_lock := None\<rparr>))
      | W_Blocked \<Rightarrow> None
      | W_Woken \<Rightarrow> acquire i W_Wait s
      | W_Branch \<Rightarrow> Some (at_worker i (if \<not> hs_quit s \<and> hs_deque s \<noteq> [] then W_Reset else W_While) s)
      | W_Reset \<Rightarrow> Some (at_worker i W_Pop (s\<lparr>hs_ready := (hs_ready s)(i := 1)\<rparr>))
      | W_Pop \<Rightarrow>
          (case hs_deque s of
             [] \<Rightarrow> Some (at_worker i (W_Fault Invalid_Pointer) s)
           | task # xs \<Rightarrow> Some (at_worker i (W_Perform task)
               (s\<lparr>hs_deque := xs, hs_lock := None, hs_phase := (hs_phase s)(task := Taken i)\<rparr>)))
      | W_Perform task \<Rightarrow>
          worker_res i s (dispatch_task_perform call task (hs_mem s) (hs_app s)) (\<lambda>u.
            at_worker i (W_Finish task) (s\<lparr>hs_app := u, hs_done := hs_done s @ [task]\<rparr>))
      | W_Finish task \<Rightarrow>
          worker_res i s
            (bindE (load_task task (hs_mem s)) (\<lambda>t.
             if task_waitable t then Inr (W_Signal task (task_private_data t), s)
             else bindE (dispatch_task_delete task (hs_mem s)) (\<lambda>m.
                  Inr (W_Relock, s\<lparr>hs_mem := m, hs_phase := (hs_phase s)(task := Finished)\<rparr>))))
            (\<lambda>(c, s). at_worker i c s)
      | W_Signal task counter \<Rightarrow>
          worker_res i s (event_counter_decrement_host counter (hs_mem s)) (\<lambda>m.
            at_worker i (W_Check counter) (s\<lparr>hs_mem := m, hs_phase := (hs_phase s)(task := Finished)\<rparr>))
      | W_Check counter \<Rightarrow>
          worker_res i s (event_counter_done_host counter (hs_mem s)) (\<lambda>b.
            at_worker i (if b then W_Notify counter else W_Relock) s)
      | W_Notify counter \<Rightarrow>
          worker_res i s (load_counter_host counter (hs_mem s)) (\<lambda>_.
            at_worker i W_Relock (s\<lparr>hs_client := wake counter (hs_client s)\<rparr>))
      | W_Relock \<Rightarrow> acquire i W_While s
      | W_While \<Rightarrow> Some (if hs_quit s then at_worker i W_Exit (s\<lparr>hs_lock := None\<rparr>) else at_worker i W_Ready s)
      | W_Exit \<Rightarrow> None
      | W_Fault e \<Rightarrow> None)"

section \<open>The client\<close>

definition client_res :: "'u host_sys \<Rightarrow> 'a result \<Rightarrow> ('a \<Rightarrow> 'u host_sys) \<Rightarrow> 'u host_sys option" where
  "client_res s r f = Some (case r of Inl e \<Rightarrow> s\<lparr>hs_client := H_Fault e\<rparr> | Inr x \<Rightarrow> f x)"

text \<open>One turn of the loop of \<open>dispatch_queue_group_add\<close>, with the beginning of \<open>task_add\<close>.\<close>

definition group_add_next_host :: "ptr \<Rightarrow> nat \<Rightarrow> ptr \<Rightarrow> mem \<Rightarrow> (ptr option \<times> mem) result" where
  "group_add_next_host grp i counter m =
     bindE (load_group grp m) (\<lambda>g.
     if i < unat (group_count g) then
       bindE (read_ptr (group_tasks g) i m) (\<lambda>task.
       if counter \<noteq> NULL then
         bindE (load_task task m) (\<lambda>t.
         bindE (store task (Task (t\<lparr>task_private_data := counter\<rparr>)) m) (\<lambda>m.
         Inr (Some task, m)))
       else Inr (Some task, m))
     else Inr (None, m))"

definition wait_finish_host :: "wait_target \<Rightarrow> ptr \<Rightarrow> mem \<Rightarrow> mem result" where
  "wait_finish_host target counter m =
     (case target of
        For_Task task \<Rightarrow> task_wait_finish event_counter_delete_host task counter m
      | For_Group grp \<Rightarrow> event_counter_delete_host counter m)"

text \<open>
  \<open>task_add\<close>: the push onto the deque under the mutex, and \<open>notify_one\<close> after it; \<open>pick\<close> is the worker that
  is woken, if one of the \<open>n\<close> workers is blocked.
\<close>

definition push_task :: "ptr \<Rightarrow> host_client \<Rightarrow> 'u host_sys \<Rightarrow> 'u host_sys option" where
  [simp]: "push_task task k s =
     (if hs_lock s = None then
        Some (s\<lparr>hs_deque := hs_deque s @ [task], hs_client := H_Notify k, hs_todo := tl (hs_todo s),
          hs_phase := (hs_phase s)(task := Queued), hs_sent := hs_sent s @ [task]\<rparr>)
      else None)"

definition notify_one :: "nat \<Rightarrow> nat \<Rightarrow> host_client \<Rightarrow> 'u host_sys \<Rightarrow> 'u host_sys option" where
  [simp]: "notify_one n pick k s =
     (if pick < n \<and> hs_worker s pick = W_Blocked then
        Some (at_worker pick W_Woken (s\<lparr>hs_client := k\<rparr>))
      else if list_all (\<lambda>i. hs_worker s i \<noteq> W_Blocked) [0..<n] then Some (s\<lparr>hs_client := k\<rparr>)
      else None)"

text \<open>A step of the client.\<close>

definition host_client_step :: "nat \<Rightarrow> nat \<Rightarrow> 'u host_sys \<Rightarrow> 'u host_sys option" where
  "host_client_step n pick s =
     (case hs_client s of
        H_Idle \<Rightarrow> None
      | H_Push task k \<Rightarrow> push_task task k s
      | H_Notify k \<Rightarrow> notify_one n pick k s
      | H_Group grp i counter \<Rightarrow>
          client_res s (group_add_next_host grp i counter (hs_mem s)) (\<lambda>(r, m).
            case r of
              None \<Rightarrow> s\<lparr>hs_client := H_Idle\<rparr>
            | Some task \<Rightarrow> s\<lparr>hs_mem := m, hs_client := H_Push task (H_Group grp (Suc i) counter)\<rparr>)
      | H_Await target counter \<Rightarrow>
          client_res s (event_counter_done_host counter (hs_mem s)) (\<lambda>b.
            s\<lparr>hs_client := (if b then H_Free target counter else H_Blocked target counter)\<rparr>)
      | H_Blocked target counter \<Rightarrow> None
      | H_Free target counter \<Rightarrow>
          client_res s (wait_finish_host target counter (hs_mem s)) (\<lambda>m.
            s\<lparr>hs_mem := m, hs_client := H_Idle,
              hs_batch := (\<lambda>p. if hs_batch s p = Some counter then None else hs_batch s p)\<rparr>)
      | H_Size \<Rightarrow>
          if hs_lock s = None then Some (if hs_deque s = [] then s\<lparr>hs_client := H_Each 0\<rparr> else s) else None
      | H_Each i \<Rightarrow> Some
          (s\<lparr>hs_client := (if i < n then if hs_ready s i = 0 then H_Each (Suc i) else H_Each_Blocked i else H_Idle)\<rparr>)
      | H_Each_Blocked i \<Rightarrow> None
      | H_Quit \<Rightarrow> if hs_lock s = None then Some (s\<lparr>hs_quit := True, hs_client := H_Notify_All\<rparr>) else None
      | H_Notify_All \<Rightarrow> Some (s\<lparr>hs_client := H_Join 0,
          hs_worker := (\<lambda>i. if hs_worker s i = W_Blocked then W_Woken else hs_worker s i)\<rparr>)
      | H_Join i \<Rightarrow>
          if i < n then if hs_worker s i = W_Exit then Some (s\<lparr>hs_client := H_Join (Suc i)\<rparr>) else None
          else Some (s\<lparr>hs_client := H_Delete\<rparr>)
      | H_Delete \<Rightarrow> Some (s\<lparr>hs_client := H_Gone\<rparr>)
      | H_Gone \<Rightarrow> None
      | H_Fault e \<Rightarrow> None)"

text \<open>The calls up to their first access to shared state.\<close>

definition task_add_host :: "ptr \<Rightarrow> mem \<Rightarrow> (ptr \<times> mem) result" where
  "task_add_host task m =
     bindE (assertE (task \<noteq> NULL)) (\<lambda>_.
     bindE (load_task task m) (\<lambda>t.
     if task_waitable t then
       bindE (event_counter_create_host 1 m) (\<lambda>(counter, m).
       bindE (store task (Task (t\<lparr>task_private_data := counter\<rparr>)) m) (\<lambda>m.
       Inr (counter, m)))
     else Inr (NULL, m)))"

definition group_add_host :: "ptr \<Rightarrow> mem \<Rightarrow> (ptr \<times> mem) result" where
  "group_add_host grp m =
     bindE (assertE (grp \<noteq> NULL)) (\<lambda>_.
     bindE (load_group grp m) (\<lambda>g.
     if group_waitable g then event_counter_create_host (group_count g) m
     else Inr (NULL, m)))"

definition mark_added :: "ptr list \<Rightarrow> bool \<Rightarrow> ptr \<Rightarrow> 'u host_sys \<Rightarrow> 'u host_sys" where
  "mark_added ts w counter s = s\<lparr>hs_todo := ts,
     hs_phase := (\<lambda>p. if p \<in> set ts then Todo else hs_phase s p),
     hs_batch := (\<lambda>p. if p \<in> set ts \<and> w then Some counter else hs_batch s p)\<rparr>"

text \<open>
  The contract of the client is that of theory \<open>Dispatch_Threads\<close>: a task, alive and with a function, is
  added once only; what is waited for has been added and not been waited for. There is memory for
  an event counter, and to spare. Between calls the client may create tasks.
\<close>

definition addable :: "'u host_sys \<Rightarrow> bool \<Rightarrow> ptr \<Rightarrow> bool" where
  "addable s w p \<longleftrightarrow> hs_phase s p = Unknown \<and>
     (\<exists>t. heap (hs_mem s) p = Some (Task t) \<and> task_function t \<noteq> NULL \<and> task_waitable t = w)"

definition has_room :: "'u host_sys \<Rightarrow> bool" where
  "has_room s \<longleftrightarrow> \<not> oom (hs_mem s) (brk (hs_mem s)) \<and> \<not> oom (hs_mem s) (Suc (brk (hs_mem s)))"

inductive host_step :: "(fptr \<Rightarrow> ptr \<Rightarrow> 'u \<Rightarrow> 'u) \<Rightarrow> nat \<Rightarrow> 'u host_sys \<Rightarrow> 'u host_sys \<Rightarrow> bool" for call n where
  worker: "i < n \<Longrightarrow> host_worker_step call i s = Some s' \<Longrightarrow> host_step call n s s'"
| client: "host_client_step n pick s = Some s' \<Longrightarrow> host_step call n s s'"
| spurious_worker: "i < n \<Longrightarrow> hs_worker s i = W_Blocked \<Longrightarrow> host_step call n s (at_worker i W_Woken s)"
| spurious_await: "hs_client s = H_Blocked target c \<Longrightarrow> host_step call n s (s\<lparr>hs_client := H_Await target c\<rparr>)"
| spurious_each: "hs_client s = H_Each_Blocked i \<Longrightarrow> host_step call n s (s\<lparr>hs_client := H_Each i\<rparr>)"
| task_add: "hs_client s = H_Idle \<Longrightarrow> addable s w task \<Longrightarrow> has_room s \<Longrightarrow>
    client_res s (task_add_host task (hs_mem s)) (\<lambda>(counter, m).
      mark_added [task] w counter (s\<lparr>hs_mem := m, hs_client := H_Push task H_Idle\<rparr>)) = Some s' \<Longrightarrow>
    host_step call n s s'"
| group_add: "hs_client s = H_Idle \<Longrightarrow> group_rep (hs_mem s) grp l w ts \<Longrightarrow> distinct ts \<Longrightarrow>
    (w \<longrightarrow> ts \<noteq> []) \<Longrightarrow> (\<forall>p \<in> set ts. addable s w p) \<Longrightarrow> has_room s \<Longrightarrow>
    client_res s (group_add_host grp (hs_mem s)) (\<lambda>(counter, m).
      mark_added ts w counter (s\<lparr>hs_mem := m, hs_client := H_Group grp 0 counter\<rparr>)) = Some s' \<Longrightarrow>
    host_step call n s s'"
| task_wait: "hs_client s = H_Idle \<Longrightarrow> {p. hs_batch s p = Some c} = {task} \<Longrightarrow>
    client_res s (task_wait_counter task (hs_mem s)) (\<lambda>counter.
      s\<lparr>hs_client := H_Await (For_Task task) counter\<rparr>) = Some s' \<Longrightarrow>
    host_step call n s s'"
| group_wait: "hs_client s = H_Idle \<Longrightarrow> group_rep (hs_mem s) grp l True ts \<Longrightarrow> ts \<noteq> [] \<Longrightarrow>
    distinct ts \<Longrightarrow> {p. hs_batch s p = Some c} = set ts \<Longrightarrow>
    client_res s (group_wait_counter grp (hs_mem s)) (\<lambda>counter.
      s\<lparr>hs_client := H_Await (For_Group grp) counter\<rparr>) = Some s' \<Longrightarrow>
    host_step call n s s'"
| wait_all: "hs_client s = H_Idle \<Longrightarrow> host_step call n s (s\<lparr>hs_client := H_Size\<rparr>)"
| delete: "hs_client s = H_Idle \<Longrightarrow> host_step call n s (s\<lparr>hs_client := H_Quit\<rparr>)"
| task_create: "hs_client s = H_Idle \<Longrightarrow> dispatch_task_create f a w (hs_mem s) = Inr (task, m) \<Longrightarrow>
    host_step call n s (s\<lparr>hs_mem := m\<rparr>)"

text \<open>The start: a new dispatch queue, and a store without event counters.\<close>

definition host_init :: "'u host_sys \<Rightarrow> bool" where
  "host_init s \<longleftrightarrow> (\<exists>m u. s = dispatch_queue_create_host m u \<and> mem_ok m \<and>
     (\<forall>p c. heap m p \<noteq> Some (Counter_Metal c)) \<and> (\<forall>p c. heap m p \<noteq> Some (Counter_Rtos c)) \<and>
     (\<forall>p c. heap m p \<noteq> Some (Counter_Host c)))"

definition host_reach :: "(fptr \<Rightarrow> ptr \<Rightarrow> 'u \<Rightarrow> 'u) \<Rightarrow> nat \<Rightarrow> 'u host_sys \<Rightarrow> bool" where
  "host_reach call n = reach host_init (host_step call n)"

lemma host_reach_step: "host_reach call n s \<Longrightarrow> host_step call n s s' \<Longrightarrow> host_reach call n s'"
  unfolding host_reach_def by (rule reach_step)

end
