(* ===== verification/Dispatch_Host_Refines.thy ===== *)
theory Dispatch_Host_Refines
  imports Dispatch_Queue_Host Dispatch_RTOS
begin

text \<open>
  The dispatch queue of the host refines the one of theory \<open>Dispatch_Threads\<close>: with the event counters of
  one notification each in place of mutex, count and condition variable, and without the
  semaphores, the deque's mutex and the notifications of the workers, its steps are steps of
  that system. The promises of \<open>dispatch_platform\<close> carry over. What the primitives of the host add is
  proved here: the mutex, the ready semaphores, that no wake-up is lost, and what goes wrong when
  an event counter is deleted while a worker is still inside its \<open>Signal\<close>.
\<close>

section \<open>The specification\<close>

definition ideal_platform :: "(nat \<Rightarrow> nat) platform" where
  "ideal_platform =
     \<lparr>pf_create = event_counter_create_rtos,
      pf_decrement = event_counter_decrement_rtos,
      pf_channel = (\<lambda>c m. bindE (load_counter_rtos c m) (\<lambda>cr. Inr (es_semaphore cr))),
      pf_wait = event_counter_wait_rtos binary_notes,
      pf_delete = event_counter_delete_rtos,
      pf_busy = (\<lambda>i m nt. Inr (m, nt)),
      pf_ready = (\<lambda>i m nt. Inr (m, nt)),
      pf_poll = (\<lambda>pc waiting_count m nt. Inr None)\<rparr>"

lemma ideal_platform_simps [simp]:
  "pf_create ideal_platform = event_counter_create_rtos"
  "pf_decrement ideal_platform = event_counter_decrement_rtos"
  "pf_channel ideal_platform c m = bindE (load_counter_rtos c m) (\<lambda>cr. Inr (es_semaphore cr))"
  "pf_wait ideal_platform = event_counter_wait_rtos binary_notes"
  "pf_delete ideal_platform = event_counter_delete_rtos"
  "pf_busy ideal_platform i m nt = Inr (m, nt)"
  "pf_ready ideal_platform i m nt = Inr (m, nt)"
  "pf_poll ideal_platform pc waiting_count m nt = Inr None"
  by (simp_all add: ideal_platform_def)

abbreviation ideal_env :: "mem \<Rightarrow> (nat \<Rightarrow> nat) \<Rightarrow> bool" where
  "ideal_env m nt \<equiv> mem_ok m"

interpretation ideal: dispatch_platform Rtos_Counter ideal_platform binary_notes "\<lambda>n. n"
  ideal_env 1 k True for k
  apply unfold_locales
  apply (unfold ideal_platform_simps)
  subgoal by (rule binary_notes_laws)
  subgoal by (rule rtos_create)
  subgoal by (rule rtos_decrement)
  subgoal by (rule rtos_channel)
  subgoal by (rule rtos_channel)
  subgoal by (rule rtos_delete)
  subgoal by (simp add: differs_refl)
  subgoal by (simp add: differs_refl)
  subgoal by simp
  subgoal by simp
  subgoal .
  subgoal .
  subgoal .
  done

abbreviation ideal_step :: "(fptr \<Rightarrow> ptr \<Rightarrow> 'u \<Rightarrow> 'u) \<Rightarrow> nat \<Rightarrow> nat \<Rightarrow> (nat \<Rightarrow> nat, 'u) disp_sys \<Rightarrow> (nat \<Rightarrow> nat, 'u) disp_sys \<Rightarrow> bool" where
  "ideal_step call n len \<equiv> disp_step ideal_platform binary_notes (\<lambda>n. n) call 1 n len"

abbreviation ideal_reach :: "(fptr \<Rightarrow> ptr \<Rightarrow> 'u \<Rightarrow> 'u) \<Rightarrow> nat \<Rightarrow> nat \<Rightarrow> (nat \<Rightarrow> nat, 'u) disp_sys \<Rightarrow> bool" where
  "ideal_reach call n len \<equiv> disp_reach ideal_platform binary_notes (\<lambda>n. n) ideal_env call 1 n len"

section \<open>The relation\<close>

fun abs_worker :: "host_worker \<Rightarrow> worker_pc" where
  "abs_worker (W_Perform p) = K_Perform p"
| "abs_worker (W_Finish p) = K_Finish p"
| "abs_worker (W_Signal p c) = K_Signal p c"
| "abs_worker c = K_Receive"

fun abs_client :: "host_client \<Rightarrow> client_pc" where
  "abs_client (H_Push p k) = C_Send p (abs_client k)"
| "abs_client (H_Notify k) = abs_client k"
| "abs_client (H_Group g i c) = C_Group g i c"
| "abs_client (H_Await x c) = C_Await x c"
| "abs_client (H_Blocked x c) = C_Await x c"
| "abs_client (H_Free x c) = C_Free x c"
| "abs_client (H_Fault e) = C_Fault e"
| "abs_client c = C_Idle"

text \<open>
  A block of the specification and the block of the host. The \<open>private_data\<close> of a task that is not
  waitable means nothing.
\<close>

fun block_rel :: "obj \<Rightarrow> obj \<Rightarrow> bool" where
  "block_rel (Task t) ob \<longleftrightarrow> (\<exists>t'. ob = Task t' \<and> task_call t' = task_call t \<and> task_waitable t' = task_waitable t \<and>
     (task_waitable t \<longrightarrow> task_private_data t' = task_private_data t))"
| "block_rel (Counter_Rtos c) ob \<longleftrightarrow> ob = Counter_Host \<lparr>eh_count = es_count c\<rparr>"
| "block_rel ob ob' \<longleftrightarrow> ob' = ob"

text \<open>\<open>Z\<close> are the tasks that \<open>dispatch_queue_group_wait\<close> of the specification has deleted; that of the host
  leaves them.\<close>

definition mem_rel :: "ptr set \<Rightarrow> mem \<Rightarrow> mem \<Rightarrow> bool" where
  "mem_rel Z ma ms \<longleftrightarrow> mem_ok ma \<and> brk ms = brk ma \<and> oom ms = oom ma \<and>
     (\<forall>p \<in> Z. heap ma p = None \<and> p \<noteq> NULL \<and> p \<le> brk ma \<and> (\<exists>t. heap ms p = Some (Task t))) \<and>
     (\<forall>p. p \<notin> Z \<longrightarrow> rel_option block_rel (heap ma p) (heap ms p)) \<and>
     (\<forall>p c. heap ma p = Some (Counter_Rtos c) \<longrightarrow> es_semaphore c = p) \<and>
     (\<forall>p c. heap ma p \<noteq> Some (Counter_Metal c)) \<and> (\<forall>p c. heap ma p \<noteq> Some (Counter_Host c))"

definition host_rel :: "ptr set \<Rightarrow> (nat \<Rightarrow> nat, 'u) disp_sys \<Rightarrow> 'u host_sys \<Rightarrow> bool" where
  "host_rel Z a s \<longleftrightarrow> mem_rel Z (ds_mem a) (hs_mem s) \<and> (\<forall>h > brk (ds_mem a). ds_note a h = 0) \<and>
     ds_app a = hs_app s \<and> ds_queue a = hs_deque s \<and> ds_worker a = (\<lambda>i. abs_worker (hs_worker s i)) \<and>
     ds_client a = abs_client (hs_client s) \<and> ds_todo a = hs_todo s \<and> ds_phase a = hs_phase s \<and>
     ds_batch a = hs_batch s \<and> ds_sent a = hs_sent s \<and> ds_done a = hs_done s \<and>
     (\<forall>p \<in> Z. hs_phase s p \<noteq> Unknown)"

lemma mem_relD:
  assumes "mem_rel Z ma ms"
  shows "mem_ok ma" "brk ms = brk ma" "oom ms = oom ma"
    "p \<in> Z \<Longrightarrow> heap ma p = None" "p \<in> Z \<Longrightarrow> p \<noteq> NULL \<and> p \<le> brk ma"
    "p \<in> Z \<Longrightarrow> \<exists>t. heap ms p = Some (Task t)"
    "p \<notin> Z \<Longrightarrow> rel_option block_rel (heap ma p) (heap ms p)"
    "heap ma p = Some (Counter_Rtos c) \<Longrightarrow> es_semaphore c = p"
  using assms by (simp_all add: mem_rel_def)

lemma mem_rel_live: "mem_rel Z ma ms \<Longrightarrow> heap ma p = Some ob \<Longrightarrow> p \<notin> Z \<and> p \<noteq> NULL \<and> p \<le> brk ma"
  using mem_relD(1,4) mem_ok_live by fastforce

lemma mem_rel_block:
  assumes "mem_rel Z ma ms" "heap ma p = Some ob"
  obtains ob' where "heap ms p = Some ob'" "block_rel ob ob'" "p \<noteq> NULL"
proof -
  have "p \<notin> Z" "p \<noteq> NULL" using mem_rel_live[OF assms] by auto
  with mem_relD(7)[OF assms(1), of p] assms(2) show thesis by (auto simp: option_rel_Some1 intro: that)
qed

lemma block_rel_same [simp]:
  "block_rel ob (Group g) \<longleftrightarrow> ob = Group g"
  "block_rel ob (Ptr_Array xs) \<longleftrightarrow> ob = Ptr_Array xs"
  by (cases ob; auto)+

lemma block_rel_group: "block_rel (Group g) ob \<longleftrightarrow> ob = Group g" "block_rel (Ptr_Array xs) ob \<longleftrightarrow> ob = Ptr_Array xs"
  by simp_all

lemma mem_rel_task:
  assumes "mem_rel Z ma ms" "heap ma p = Some (Task t)"
  obtains t' where "heap ms p = Some (Task t')" "p \<noteq> NULL" "task_function t' = task_function t"
    "task_argument t' = task_argument t" "task_waitable t' = task_waitable t"
    "task_waitable t \<Longrightarrow> task_private_data t' = task_private_data t"
proof -
  obtain ob' where ob': "heap ms p = Some ob'" "block_rel (Task t) ob'" "p \<noteq> NULL" using assms by (rule mem_rel_block)
  then obtain t' where "ob' = Task t'" "task_call t' = task_call t" "task_waitable t' = task_waitable t"
    "task_waitable t \<longrightarrow> task_private_data t' = task_private_data t" by auto
  with ob'(1,3) show thesis by (auto simp: task_call_def intro: that)
qed

lemma mem_rel_counter:
  assumes "mem_rel Z ma ms" "heap ma p = Some (Counter_Rtos c)"
  shows "heap ms p = Some (Counter_Host \<lparr>eh_count = es_count c\<rparr>)" "p \<noteq> NULL" "es_semaphore c = p"
  using mem_rel_block[OF assms] mem_relD(8)[OF assms] by auto

lemma mem_rel_same:
  assumes rel: "mem_rel Z ma ms" and ob: "(\<exists>g. ob = Group g) \<or> (\<exists>xs. ob = Ptr_Array xs)"
  shows "heap ms p = Some ob \<longleftrightarrow> heap ma p = Some ob"
proof (cases "p \<in> Z")
  case True
  then show ?thesis using mem_relD(4,6)[OF rel] ob by fastforce
next
  case False
  from mem_relD(7)[OF rel this] show ?thesis using ob by (cases rule: option.rel_cases) auto
qed

lemma mem_rel_group: "mem_rel Z ma ms \<Longrightarrow> group_rep ms g l w ts \<longleftrightarrow> group_rep ma g l w ts"
  by (auto simp: group_rep_def mem_rel_same)

text \<open>Changing, adding and deleting a block on both sides.\<close>

lemma mem_rel_upd:
  assumes rel: "mem_rel Z ma ms" and p: "heap ma p \<noteq> None" and b: "block_rel ob ob'"
    and c: "\<forall>c. ob = Counter_Rtos c \<longrightarrow> es_semaphore c = p" "\<forall>c. ob \<noteq> Counter_Metal c" "\<forall>c. ob \<noteq> Counter_Host c"
  shows "mem_rel Z (ma\<lparr>heap := (heap ma)(p \<mapsto> ob)\<rparr>) (ms\<lparr>heap := (heap ms)(p \<mapsto> ob')\<rparr>)"
proof -
  have "p \<notin> Z" "p \<noteq> NULL" "p \<le> brk ma" using mem_rel_live[OF rel] p by auto
  with rel b c show ?thesis by (auto simp: mem_rel_def mem_ok_def)
qed

lemma mem_rel_new:
  assumes rel: "mem_rel Z ma ms" and b: "block_rel ob ob'"
    and c: "\<forall>c. ob = Counter_Rtos c \<longrightarrow> es_semaphore c = Suc (brk ma)" "\<forall>c. ob \<noteq> Counter_Metal c" "\<forall>c. ob \<noteq> Counter_Host c"
  shows "mem_rel Z (ma\<lparr>brk := Suc (brk ma), heap := (heap ma)(Suc (brk ma) \<mapsto> ob)\<rparr>)
     (ms\<lparr>brk := Suc (brk ms), heap := (heap ms)(Suc (brk ms) \<mapsto> ob')\<rparr>)"
proof -
  have "Suc (brk ma) \<notin> Z" using mem_relD(5)[OF rel] by fastforce
  with rel b c show ?thesis by (auto simp: mem_rel_def mem_ok_def)
qed

lemma mem_rel_restrict:
  assumes rel: "mem_rel Z ma ms" and Y: "Y \<subseteq> X" "\<And>p. p \<in> X - Y \<Longrightarrow> (\<exists>t. heap ms p = Some (Task t)) \<and> p \<noteq> NULL \<and> p \<le> brk ma"
    and Z: "Z \<inter> Y = {}"
  shows "mem_rel (Z \<union> (X - Y)) (ma\<lparr>heap := (heap ma) |` (- X)\<rparr>) (ms\<lparr>heap := (heap ms) |` (- Y)\<rparr>)"
  unfolding mem_rel_def
proof (intro conjI ballI allI impI)
  fix p
  assume "p \<in> Z \<union> (X - Y)"
  then show "heap (ma\<lparr>heap := (heap ma) |` (- X)\<rparr>) p = None" "p \<noteq> NULL" "p \<le> brk (ma\<lparr>heap := (heap ma) |` (- X)\<rparr>)"
    "\<exists>t. heap (ms\<lparr>heap := (heap ms) |` (- Y)\<rparr>) p = Some (Task t)"
    using mem_relD(4-6)[OF rel] Y(2) Z by (auto simp: restrict_map_def)
next
  fix p
  assume "p \<notin> Z \<union> (X - Y)"
  then show "rel_option block_rel (heap (ma\<lparr>heap := (heap ma) |` (- X)\<rparr>) p) (heap (ms\<lparr>heap := (heap ms) |` (- Y)\<rparr>) p)"
    using mem_relD(7)[OF rel, of p] Y(1) by (auto simp: restrict_map_def)
qed (use rel in \<open>auto simp: mem_rel_def mem_ok_def restrict_map_def split: if_splits\<close>)

section \<open>The simulation\<close>

lemma host_relD:
  assumes "host_rel Z a s"
  shows "mem_rel Z (ds_mem a) (hs_mem s)" "ds_app a = hs_app s" "ds_queue a = hs_deque s"
    "ds_worker a i = abs_worker (hs_worker s i)" "ds_client a = abs_client (hs_client s)" "ds_todo a = hs_todo s"
    "ds_phase a = hs_phase s" "ds_batch a = hs_batch s" "ds_sent a = hs_sent s" "ds_done a = hs_done s"
    "h > brk (ds_mem a) \<Longrightarrow> ds_note a h = 0"
  using assms by (simp_all add: host_rel_def)

lemmas to_simps = to_worker_def at_worker_def

lemma ideal_worker:
  "i < n \<Longrightarrow> worker_step ideal_platform binary_notes call len i a = Some a' \<Longrightarrow> (ideal_step call n len)\<^sup>*\<^sup>* a a'"
  by (blast intro: disp_step.worker)

lemma ideal_client:
  "client_step ideal_platform len a = Some a' \<Longrightarrow> (ideal_step call n len)\<^sup>*\<^sup>* a a'"
  by (blast intro: disp_step.client)

lemma ideal_steps_reach:
  "ideal_reach call n len a \<Longrightarrow> (ideal_step call n len)\<^sup>*\<^sup>* a a' \<Longrightarrow> ideal_reach call n len a'"
  unfolding disp_reach_def by (rule reach_rtranclp)

lemma ideal_ok:
  assumes "ideal_reach call n len a" "(ideal_step call n len)\<^sup>*\<^sup>* a a'"
  shows "ds_worker a' i \<noteq> K_Fault e" "ds_client a' \<noteq> C_Fault e"
  using ideal.threads_safe[OF ideal_steps_reach[OF assms]] by blast+

text \<open>A step of a worker of the specification that may fail does not.\<close>

lemma ideal_worker_try:
  assumes r: "ideal_reach call n len a" and i: "i < n"
    and step: "worker_step ideal_platform binary_notes call len i a = worker_try i a r f"
  obtains x where "r = Inr x" "(ideal_step call n len)\<^sup>*\<^sup>* a (f x)"
proof (cases r)
  case (Inl e)
  then have "worker_step ideal_platform binary_notes call len i a = Some (to_worker i (K_Fault e) a)"
    using step by (simp add: worker_try_def)
  from ideal_ok(1)[OF r ideal_worker[OF i this], of i e] show thesis by (simp add: to_worker_def)
next
  case (Inr x)
  then have "worker_step ideal_platform binary_notes call len i a = Some (f x)" using step by (simp add: worker_try_def)
  with Inr ideal_worker[OF i] that show thesis by blast
qed

lemma ideal_client_try:
  assumes r: "ideal_reach call n len a" and step: "\<And>e. r = Inl e \<Longrightarrow> ideal_step call n len a (a\<lparr>ds_client := C_Fault e\<rparr>)"
  obtains x where "r = Inr x"
proof (cases r)
  case (Inl e)
  then have "(ideal_step call n len)\<^sup>*\<^sup>* a (a\<lparr>ds_client := C_Fault e\<rparr>)" using step by blast
  from ideal_ok(2)[OF r this, of e] show thesis by simp
qed (use that in blast)

text \<open>Steps that only concern the primitives of the host.\<close>

definition stutter :: "'u host_sys \<Rightarrow> 'u host_sys \<Rightarrow> bool" where
  "stutter s s' \<longleftrightarrow> (\<exists>l q r ws c. s' = s\<lparr>hs_lock := l, hs_quit := q, hs_ready := r, hs_worker := ws, hs_client := c\<rparr> \<and>
     (\<forall>i. abs_worker (ws i) = abs_worker (hs_worker s i)) \<and> abs_client c = abs_client (hs_client s))"

lemma stutter_rel: "host_rel Z a s \<Longrightarrow> stutter s s' \<Longrightarrow> host_rel Z a s'"
  by (auto simp: stutter_def host_rel_def)

lemma stutterI:
  assumes "hs_mem s' = hs_mem s" "hs_app s' = hs_app s" "hs_deque s' = hs_deque s" "hs_todo s' = hs_todo s"
    "hs_phase s' = hs_phase s" "hs_batch s' = hs_batch s" "hs_sent s' = hs_sent s" "hs_done s' = hs_done s"
    "\<And>i. abs_worker (hs_worker s' i) = abs_worker (hs_worker s i)" "abs_client (hs_client s') = abs_client (hs_client s)"
  shows "stutter s s'"
  unfolding stutter_def
  by (rule exI[of _ "hs_lock s'"], rule exI[of _ "hs_quit s'"], rule exI[of _ "hs_ready s'"],
      rule exI[of _ "hs_worker s'"], rule exI[of _ "hs_client s'"]) (use assms in \<open>cases s; cases s'; simp\<close>)

lemma abs_wake [simp]: "abs_client (wake c k) = abs_client k" "abs_client (wake_each i k) = abs_client k"
  by (cases k; simp)+

lemma worker_stutter:
  assumes step: "host_worker_step call i s = Some s'"
    and pc: "abs_worker (hs_worker s i) = K_Receive" "hs_worker s i \<noteq> W_Pop"
  shows "stutter s s'"
  by (rule stutterI; cases "hs_worker s i")
    (use assms in \<open>auto simp: host_worker_step_def acquire_def worker_res_def at_worker_def
       split: if_splits sum.splits\<close>)

abbreviation simulates :: "(fptr \<Rightarrow> ptr \<Rightarrow> 'u \<Rightarrow> 'u) \<Rightarrow> nat \<Rightarrow> nat \<Rightarrow> (nat \<Rightarrow> nat, 'u) disp_sys \<Rightarrow> 'u host_sys \<Rightarrow> bool" where
  "simulates call n len a s' \<equiv> \<exists>a' Z'. (ideal_step call n len)\<^sup>*\<^sup>* a a' \<and> host_rel Z' a' s'"

lemma pop_sim:
  assumes rel: "host_rel Z a s" and i: "i < n" and pc: "hs_worker s i = W_Pop"
    and step: "host_worker_step call i s = Some s'"
  shows "simulates call n len a s'"
proof (cases "hs_deque s")
  case Nil
  then have "stutter s s'" using step pc by (intro stutterI) (auto simp: host_worker_step_def at_worker_def)
  with rel stutter_rel show ?thesis by blast
next
  case (Cons p xs)
  let ?a1 = "to_worker i (K_Claim p) (a\<lparr>ds_queue := xs, ds_phase := (ds_phase a)(p := Taken i)\<rparr>)"
  let ?a2 = "to_worker i (K_Perform p) (?a1\<lparr>ds_mem := ds_mem ?a1, ds_note := ds_note ?a1\<rparr>)"
  have s1: "worker_step ideal_platform binary_notes call len i a = Some ?a1"
    using host_relD(3)[OF rel] host_relD(4)[OF rel, of i] pc Cons by (simp add: worker_step_def)
  have s2: "worker_step ideal_platform binary_notes call len i ?a1 = Some ?a2"
    by (simp add: worker_step_def worker_try_def to_worker_def)
  have "(ideal_step call n len)\<^sup>*\<^sup>* a ?a2"
    using ideal_worker[OF i s1] ideal_worker[OF i s2] by (rule rtranclp_trans)
  moreover have "host_rel Z ?a2 s'"
    using rel step pc Cons by (auto simp: host_rel_def host_worker_step_def to_simps fun_eq_iff split: if_splits)
  ultimately show ?thesis by blast
qed

lemma perform_sim:
  assumes r: "ideal_reach call n len a" and rel: "host_rel Z a s" and i: "i < n" and pc: "hs_worker s i = W_Perform p"
    and step: "host_worker_step call i s = Some s'"
  shows "simulates call n len a s' \<and> (\<forall>e. hs_worker s' i \<noteq> W_Fault e)"
proof -
  have "worker_step ideal_platform binary_notes call len i a =
      worker_try i a (dispatch_task_perform call p (ds_mem a) (ds_app a)) (\<lambda>u.
        to_worker i (K_Finish p) (a\<lparr>ds_app := u, ds_done := ds_done a @ [p]\<rparr>))"
    using host_relD(4)[OF rel, of i] pc by (simp add: worker_step_def)
  from ideal_worker_try[OF r i this] obtain u where u: "dispatch_task_perform call p (ds_mem a) (ds_app a) = Inr u"
    "(ideal_step call n len)\<^sup>*\<^sup>* a (to_worker i (K_Finish p) (a\<lparr>ds_app := u, ds_done := ds_done a @ [p]\<rparr>))" by blast
  from u(1) obtain t where t: "heap (ds_mem a) p = Some (Task t)" "task_function t \<noteq> NULL"
    "u = call (task_function t) (task_argument t) (ds_app a)"
    by (auto simp: dispatch_task_perform_def result_simps mem_simps split: if_splits)
  obtain t' where "heap (hs_mem s) p = Some (Task t')" "p \<noteq> NULL" "task_function t' = task_function t"
    "task_argument t' = task_argument t" using mem_rel_task[OF host_relD(1)[OF rel] t(1)] by blast
  then have "dispatch_task_perform call p (hs_mem s) (hs_app s) = Inr u"
    using t host_relD(2)[OF rel] by (simp add: dispatch_task_perform_def load_task_def load_def)
  then have s': "s' = at_worker i (W_Finish p) (s\<lparr>hs_app := u, hs_done := hs_done s @ [p]\<rparr>)"
    using step pc by (simp add: host_worker_step_def worker_res_def)
  have "host_rel Z (to_worker i (K_Finish p) (a\<lparr>ds_app := u, ds_done := ds_done a @ [p]\<rparr>)) s'"
    using rel unfolding s' by (simp add: host_rel_def to_simps fun_eq_iff)
  with u(2) show ?thesis by (auto simp: s' at_worker_def)
qed

lemma finish_sim:
  assumes r: "ideal_reach call n len a" and rel: "host_rel Z a s" and i: "i < n" and pc: "hs_worker s i = W_Finish p"
    and step: "host_worker_step call i s = Some s'"
  shows "simulates call n len a s' \<and> (\<forall>e. hs_worker s' i \<noteq> W_Fault e)"
proof -
  let ?r = "bindE (load_task p (ds_mem a)) (\<lambda>t.
      if task_waitable t then Inr (K_Signal p (task_private_data t), a)
      else bindE (dispatch_task_delete p (ds_mem a)) (\<lambda>m.
        Inr (K_Ready, a\<lparr>ds_mem := m, ds_phase := (ds_phase a)(p := Finished)\<rparr>)))"
  have "worker_step ideal_platform binary_notes call len i a = worker_try i a ?r (\<lambda>(c, s). to_worker i c s)"
    using host_relD(4)[OF rel, of i] pc by (simp add: worker_step_def)
  from ideal_worker_try[OF r i this] obtain x where x: "?r = Inr x"
    "(ideal_step call n len)\<^sup>*\<^sup>* a ((\<lambda>(c, s). to_worker i c s) x)" by blast
  from x(1) obtain t where t: "heap (ds_mem a) p = Some (Task t)" by (auto simp: result_simps mem_simps)
  obtain t' where t': "heap (hs_mem s) p = Some (Task t')" "p \<noteq> NULL" "task_waitable t' = task_waitable t"
    "task_waitable t \<Longrightarrow> task_private_data t' = task_private_data t"
    using mem_rel_task[OF host_relD(1)[OF rel] t] by blast
  note sims = load_task_def load_def dispatch_task_delete_def free_def
  show ?thesis
  proof (cases "task_waitable t")
    case True
    then have s': "s' = at_worker i (W_Signal p (task_private_data t)) s"
      using step pc t' by (simp add: host_worker_step_def worker_res_def sims)
    have "x = (K_Signal p (task_private_data t), a)" using x(1) t t'(2) True by (simp add: sims)
    moreover have "host_rel Z (to_worker i (K_Signal p (task_private_data t)) a) s'"
      using rel unfolding s' by (simp add: host_rel_def to_simps fun_eq_iff)
    ultimately show ?thesis using x(2) by (auto simp: s' at_worker_def)
  next
    case False
    let ?a1 = "to_worker i K_Ready (a\<lparr>ds_mem := (ds_mem a)\<lparr>heap := (heap (ds_mem a))(p := None)\<rparr>,
        ds_phase := (ds_phase a)(p := Finished)\<rparr>)"
    let ?a2 = "to_worker i K_Receive (?a1\<lparr>ds_mem := ds_mem ?a1, ds_note := ds_note ?a1\<rparr>)"
    have s': "s' = at_worker i W_Relock (s\<lparr>hs_mem := (hs_mem s)\<lparr>heap := (heap (hs_mem s))(p := None)\<rparr>,
        hs_phase := (hs_phase s)(p := Finished)\<rparr>)"
      using step pc t' False by (simp add: host_worker_step_def worker_res_def sims assertE_def)
    have s1: "(\<lambda>(c, s). to_worker i c s) x = ?a1" using x(1) t t'(2) False by (auto simp: sims assertE_def)
    have s2: "worker_step ideal_platform binary_notes call len i ?a1 = Some ?a2"
      by (simp add: worker_step_def worker_try_def to_worker_def)
    have run: "(ideal_step call n len)\<^sup>*\<^sup>* a ?a2"
      using x(2)[unfolded s1] ideal_worker[OF i s2] by (rule rtranclp_trans)
    have upd: "f |` (- {p}) = f(p := None)" for f :: "ptr \<rightharpoonup> obj" by (auto simp: restrict_map_def)
    have "mem_rel (Z \<union> ({p} - {p})) ((ds_mem a)\<lparr>heap := (heap (ds_mem a)) |` (- {p})\<rparr>)
        ((hs_mem s)\<lparr>heap := (heap (hs_mem s)) |` (- {p})\<rparr>)"
      using host_relD(1)[OF rel] by (rule mem_rel_restrict) (use mem_rel_live[OF host_relD(1)[OF rel] t] in auto)
    then have "mem_rel Z ((ds_mem a)\<lparr>heap := (heap (ds_mem a))(p := None)\<rparr>) ((hs_mem s)\<lparr>heap := (heap (hs_mem s))(p := None)\<rparr>)"
      by (simp add: upd)
    then have "host_rel Z ?a2 s'" using rel unfolding s' by (simp add: host_rel_def to_simps fun_eq_iff)
    with run show ?thesis by (auto simp: s' at_worker_def)
  qed
qed

lemma decrement_rel:
  assumes rel: "mem_rel Z ma ms" and dec: "bindE (assertE (c \<noteq> NULL)) (\<lambda>_. event_counter_decrement_rtos c ma) = Inr (b, m')"
  obtains cr ms' where "heap m' c = Some (Counter_Rtos cr)" "c \<noteq> NULL" "es_semaphore cr = c" "c \<le> brk ma" "brk m' = brk ma"
    "event_counter_decrement_host c ms = Inr ms'" "mem_rel Z m' ms'"
proof -
  obtain cr where cr: "c \<noteq> NULL" "heap ma c = Some (Counter_Rtos cr)"
    "m' = ma\<lparr>heap := (heap ma)(c \<mapsto> Counter_Rtos (cr\<lparr>es_count := count_down (es_count cr)\<rparr>))\<rparr>"
  proof -
    from dec obtain cr where cr: "c \<noteq> NULL" "heap ma c = Some (Counter_Rtos cr)"
      by (auto simp: event_counter_decrement_rtos_def result_simps mem_simps)
    have "ma\<lparr>heap := (heap ma)(c \<mapsto> Counter_Rtos cr)\<rparr> = ma" by (simp add: cr(2) fun_upd_idem)
    with dec cr have "m' = ma\<lparr>heap := (heap ma)(c \<mapsto> Counter_Rtos (cr\<lparr>es_count := count_down (es_count cr)\<rparr>))\<rparr>"
      by (auto simp: event_counter_decrement_rtos_def count_down_def result_simps mem_simps load_counter_rtos_def load_def
          split: if_splits)
    with cr that show thesis by blast
  qed
  note live = mem_rel_live[OF rel cr(2)] and ct = mem_rel_counter[OF rel cr(2)]
  let ?ms = "ms\<lparr>heap := (heap ms)(c \<mapsto> Counter_Host \<lparr>eh_count = count_down (es_count cr)\<rparr>)\<rparr>"
  have "event_counter_decrement_host c ms = Inr ?ms"
    using ct by (simp add: event_counter_decrement_host_def load_counter_host_def load_def store_def)
  moreover have "mem_rel Z m' ?ms" unfolding cr(3) using rel by (rule mem_rel_upd) (use cr(2) ct in simp_all)
  ultimately show thesis
    using live ct cr by (intro that[of "cr\<lparr>es_count := count_down (es_count cr)\<rparr>" ?ms]) simp_all
qed

lemma signal_sim:
  assumes r: "ideal_reach call n len a" and rel: "host_rel Z a s" and i: "i < n" and pc: "hs_worker s i = W_Signal p c"
    and step: "host_worker_step call i s = Some s'"
  shows "simulates call n len a s' \<and> (\<forall>e. hs_worker s' i \<noteq> W_Fault e)"
proof -
  let ?r = "bindE (assertE (c \<noteq> NULL)) (\<lambda>_. event_counter_decrement_rtos c (ds_mem a))"
  let ?f = "\<lambda>(signal, m). to_worker i (if signal then K_Notify c else K_Ready)
      (a\<lparr>ds_mem := m, ds_phase := (ds_phase a)(p := Finished)\<rparr>)"
  have "worker_step ideal_platform binary_notes call len i a = worker_try i a ?r ?f"
    using host_relD(4)[OF rel, of i] pc by (simp add: worker_step_def)
  from ideal_worker_try[OF r i this] obtain b m' where x: "?r = Inr (b, m')" "(ideal_step call n len)\<^sup>*\<^sup>* a (?f (b, m'))"
    by (metis surj_pair)
  from decrement_rel[OF host_relD(1)[OF rel] x(1)] obtain cr ms' where m': "heap m' c = Some (Counter_Rtos cr)"
    "c \<noteq> NULL" "es_semaphore cr = c" "c \<le> brk (ds_mem a)" "brk m' = brk (ds_mem a)"
    "event_counter_decrement_host c (hs_mem s) = Inr ms'" "mem_rel Z m' ms'" by blast
  have s': "s' = at_worker i (W_Check c) (s\<lparr>hs_mem := ms', hs_phase := (hs_phase s)(p := Finished)\<rparr>)"
    using step pc m'(6) by (simp add: host_worker_step_def worker_res_def)
  let ?nt = "if b then notify binary_notes (ds_note a) c else ds_note a"
  let ?a1 = "a\<lparr>ds_mem := m', ds_phase := (ds_phase a)(p := Finished)\<rparr>"
  let ?a2 = "to_worker i K_Ready (?a1\<lparr>ds_note := ?nt\<rparr>)"
  let ?a3 = "to_worker i K_Receive (?a2\<lparr>ds_mem := ds_mem ?a2, ds_note := ds_note ?a2\<rparr>)"
  have run2: "(ideal_step call n len)\<^sup>*\<^sup>* a ?a2"
  proof (cases b)
    case True
    then have s2: "worker_step ideal_platform binary_notes call len i (?f (b, m')) = Some ?a2"
      using m'(1-3) by (simp add: worker_step_def worker_try_def to_worker_def load_counter_rtos_def load_def)
    show ?thesis using x(2) ideal_worker[OF i s2] by (rule rtranclp_trans)
  qed (use x(2) in simp)
  have s3: "worker_step ideal_platform binary_notes call len i ?a2 = Some ?a3"
    by (simp add: worker_step_def worker_try_def to_worker_def)
  have "(ideal_step call n len)\<^sup>*\<^sup>* a ?a3" using run2 ideal_worker[OF i s3] by (rule rtranclp_trans)
  moreover have "host_rel Z ?a3 s'"
  proof -
    have "\<forall>h > brk (ds_mem a). ds_note a h = 0" using rel by (simp add: host_rel_def)
    then have "\<forall>h > brk m'. ?nt h = 0" using m'(4,5) by (auto simp: binary_notes_def)
    then show ?thesis
      using rel m'(7) unfolding s' by (auto simp: host_rel_def to_simps fun_eq_iff split: if_splits)
  qed
  ultimately show ?thesis by (auto simp: s' at_worker_def)
qed

text \<open>All steps of the workers. A worker can fault only at the end of a \<open>Signal\<close>, or at the deque.\<close>

lemma worker_sim:
  assumes "ideal_reach call n len a" "host_rel Z a s" "i < n" "host_worker_step call i s = Some s'"
  shows "simulates call n len a s'"
    and "hs_worker s' i = W_Fault e \<Longrightarrow> hs_worker s i = W_Pop \<or> (\<exists>c. hs_worker s i = W_Check c \<or> hs_worker s i = W_Notify c)"
proof -
  have "simulates call n len a s' \<and> (hs_worker s' i = W_Fault e \<longrightarrow>
      hs_worker s i = W_Pop \<or> (\<exists>c. hs_worker s i = W_Check c \<or> hs_worker s i = W_Notify c))" for e
  proof -
    have st: "simulates call n len a s'" if "abs_worker (hs_worker s i) = K_Receive" "hs_worker s i \<noteq> W_Pop"
      using stutter_rel[OF assms(2) worker_stutter[OF assms(4) that]] by blast
    have fl: "hs_worker s' i \<noteq> W_Fault e" if "abs_worker (hs_worker s i) = K_Receive" "hs_worker s i \<noteq> W_Pop"
      "\<forall>c. hs_worker s i \<noteq> W_Check c \<and> hs_worker s i \<noteq> W_Notify c"
      using assms(4) that by (cases "hs_worker s i") (auto simp: host_worker_step_def acquire_def at_worker_def split: if_splits)
    show ?thesis
    proof (cases "hs_worker s i")
      case W_Pop
      then show ?thesis using pop_sim[OF assms(2,3) W_Pop assms(4)] by blast
    next
      case (W_Perform p)
      then show ?thesis using perform_sim[OF assms(1-3) W_Perform assms(4)] by blast
    next
      case (W_Finish p)
      then show ?thesis using finish_sim[OF assms(1-3) W_Finish assms(4)] by blast
    next
      case (W_Signal p c)
      then show ?thesis using signal_sim[OF assms(1-3) W_Signal assms(4)] by blast
    qed (use st fl in simp_all)
  qed
  then show "simulates call n len a s'"
    "hs_worker s' i = W_Fault e \<Longrightarrow> hs_worker s i = W_Pop \<or> (\<exists>c. hs_worker s i = W_Check c \<or> hs_worker s i = W_Notify c)"
    by blast+
qed

text \<open>The client.\<close>

lemma ideal_inv: "ideal_reach call n len a \<Longrightarrow> disp_inv Rtos_Counter (\<lambda>n. n) ideal_env n len a"
  using ideal.disp_reach_inv by blast

lemma batch_counter_rtos:
  assumes r: "ideal_reach call n len a" and c: "c \<in> ran (ds_batch a)"
  obtains cr where "heap (ds_mem a) c = Some (Counter_Rtos cr)" "c \<noteq> NULL"
    "unat (es_count cr) = card (outstanding (ds_phase a) (ds_batch a) c)"
    "counter_at Rtos_Counter (ds_mem a) c \<lparr>vw_chan = es_semaphore cr, vw_count = es_count cr, vw_lock = c\<rparr>"
proof -
  have ok: "mem_ok (ds_mem a)" and bi: "batch_inv Rtos_Counter (ds_mem a) (ds_phase a) (ds_batch a)"
    using ideal_inv[OF r] by (auto elim: disp_invE)
  obtain v where v: "counter_at Rtos_Counter (ds_mem a) c v" "unat (vw_count v) = card (outstanding (ds_phase a) (ds_batch a) c)"
    using bi c by (rule batch_counter)
  from v(1) ok obtain cr where cr: "heap (ds_mem a) c = Some (Counter_Rtos cr)" "c \<noteq> NULL"
    "v = \<lparr>vw_chan = es_semaphore cr, vw_count = es_count cr, vw_lock = c\<rparr>" by (rule rtos_counterE)
  show thesis by (rule that[of cr]) (use v cr in simp_all)
qed

lemma group_next_rel:
  assumes rel: "mem_rel Z ma ms" and nx: "group_add_next g i c ma = Inr (r, m')"
    and c: "\<And>q t. r = Some q \<Longrightarrow> heap ma q = Some (Task t) \<Longrightarrow> task_waitable t \<Longrightarrow> c \<noteq> NULL"
  shows "\<exists>ms'. group_add_next_host g i c ms = Inr (r, ms') \<and> mem_rel Z m' ms'"
proof -
  from nx obtain gr where gr: "g \<noteq> NULL" "heap ma g = Some (Group gr)"
    by (auto simp: group_add_next_def result_simps mem_simps)
  then have gs: "heap ms g = Some (Group gr)" using mem_rel_same[OF rel] by simp
  show ?thesis
  proof (cases "i < unat (group_count gr)")
    case False
    then show ?thesis
      using nx gr gs rel by (simp add: group_add_next_def group_add_next_host_def load_group_def load_def)
  next
    case True
    with nx gr obtain q t where q: "r = Some q" "read_ptr (group_tasks gr) i ma = Inr q" "heap ma q = Some (Task t)" "q \<noteq> NULL"
      "m' = ma\<lparr>heap := (heap ma)(q \<mapsto> Task (t\<lparr>task_private_data := c\<rparr>))\<rparr>"
      by (auto simp: group_add_next_def result_simps mem_simps)
    then have read: "read_ptr (group_tasks gr) i ms = Inr q" using mem_rel_same[OF rel] by (simp add: mem_simps)
    obtain t' where t': "heap ms q = Some (Task t')" "task_function t' = task_function t"
      "task_argument t' = task_argument t" "task_waitable t' = task_waitable t" using mem_rel_task[OF rel q(3)] by blast
    show ?thesis
    proof (cases "c = NULL")
      case True
      have keep: "ms\<lparr>heap := (heap ms)(q \<mapsto> Task t')\<rparr> = ms" by (simp add: t'(1) fun_upd_idem)
      have "mem_rel Z m' (ms\<lparr>heap := (heap ms)(q \<mapsto> Task t')\<rparr>)"
        unfolding q(5) using rel by (rule mem_rel_upd) (use q t' True c in \<open>auto simp: task_call_def\<close>)
      then show ?thesis
        using True gr gs read q(1) \<open>i < unat (group_count gr)\<close>
        by (simp add: keep group_add_next_host_def load_group_def load_def)
    next
      case False
      let ?ms = "ms\<lparr>heap := (heap ms)(q \<mapsto> Task (t'\<lparr>task_private_data := c\<rparr>))\<rparr>"
      have "mem_rel Z m' ?ms"
        unfolding q(5) using rel by (rule mem_rel_upd) (use q t' in \<open>auto simp: task_call_def\<close>)
      moreover have "group_add_next_host g i c ms = Inr (r, ?ms)"
        using False gr gs read q(1,4) t'(1) \<open>i < unat (group_count gr)\<close>
        by (simp add: group_add_next_host_def load_group_def load_task_def load_def store_def)
      ultimately show ?thesis by blast
    qed
  qed
qed

lemma group_sim:
  assumes r: "ideal_reach call n len a" and rel: "host_rel Z a s" and pc: "hs_client s = H_Group g i c"
    and step: "host_client_step n pick s = Some s'"
  shows "simulates call n len a s'"
proof -
  have pca: "ds_client a = C_Group g i c" using host_relD(5)[OF rel] pc by simp
  obtain x m' where nx: "group_add_next g i c (ds_mem a) = Inr (x, m')" using ideal.client_group_inv[OF ideal_inv[OF r] pca] by blast
  have ti: "task_inv (ds_mem a) (ds_phase a) (ds_batch a) (unset (ds_client a) (ds_todo a))"
    and ci: "client_pc_inv (ds_mem a) (ds_batch a) (ds_todo a) (ds_client a)"
    and l: "link_inv (ds_phase a) (ds_todo a) (ds_queue a) (ds_worker a)"
    using ideal_inv[OF r] by (auto elim: disp_invE)
  have nn: "c \<noteq> NULL" if x: "x = Some q" and t: "heap (ds_mem a) q = Some (Task t)" "task_waitable t" for q t
  proof -
    obtain l' w ts where g: "group_rep (ds_mem a) g l' w ts" "ds_todo a = drop i ts"
      "\<forall>q \<in> set (ds_todo a). ds_batch a q = (if w then Some c else None)" using ci pca by (auto simp: group_loop_def)
    obtain gr where "load_group g (ds_mem a) = Inr gr" "unat (group_count gr) = length ts"
      using ideal.group_rep_count[OF g(1)] by blast
    then have i: "i < length ts" using nx x by (auto simp: group_add_next_def split: if_splits)
    from ideal.group_rep_nth[OF g(1) this] nx x have q: "q = ts ! i" by (auto simp: group_add_next_def result_simps)
    then have "q \<in> set (ds_todo a)" using i g(2) by (metis Cons_nth_drop_Suc list.set_intros(1))
    then have "active (ds_phase a q)" "ds_batch a q = (if w then Some c else None)"
      using link_phase(1)[OF l, of q] g(3) by auto
    then have "ds_batch a q = Some c" using ti t unfolding task_inv_def by (metis obj.inject(2) option.inject)
    then have "c \<in> ran (ds_batch a)" by (rule ranI)
    then show ?thesis using batch_counter_rtos[OF r] by blast
  qed
  obtain ms' where ms': "group_add_next_host g i c (hs_mem s) = Inr (x, ms')" "mem_rel Z m' ms'"
    using group_next_rel[OF host_relD(1)[OF rel] nx] nn by metis
  have brk: "brk m' = brk (ds_mem a)" using nx by (auto simp: group_add_next_def result_simps mem_simps split: if_splits)
  show ?thesis
  proof (cases x)
    case None
    then have s': "s' = s\<lparr>hs_client := H_Idle\<rparr>" using step pc ms' by (simp add: host_client_step_def client_res_def)
    have "(ideal_step call n len)\<^sup>*\<^sup>* a (a\<lparr>ds_client := C_Idle\<rparr>)"
      by (rule ideal_client) (simp add: client_step_def client_try_def pca nx None)
    moreover have "host_rel Z (a\<lparr>ds_client := C_Idle\<rparr>) s'" using rel unfolding s' by (simp add: host_rel_def)
    ultimately show ?thesis by (auto simp: s')
  next
    case (Some q)
    let ?a = "a\<lparr>ds_mem := m', ds_client := C_Send q (C_Group g (Suc i) c)\<rparr>"
    have s': "s' = s\<lparr>hs_mem := ms', hs_client := H_Push q (H_Group g (Suc i) c)\<rparr>"
      using step pc ms' Some by (simp add: host_client_step_def client_res_def)
    have "(ideal_step call n len)\<^sup>*\<^sup>* a ?a"
      by (rule ideal_client) (simp add: client_step_def client_try_def pca nx Some)
    moreover have "host_rel Z ?a s'" using rel ms'(2) brk unfolding s' by (simp add: host_rel_def)
    ultimately show ?thesis by (auto simp: s')
  qed
qed

lemma await_sim:
  assumes r: "ideal_reach call n len a" and rel: "host_rel Z a s" and pc: "hs_client s = H_Await x c"
    and step: "host_client_step n pick s = Some s'"
  shows "simulates call n len a s'"
proof -
  have pca: "ds_client a = C_Await x c" using host_relD(5)[OF rel] pc by simp
  have ni: "note_inv Rtos_Counter (\<lambda>n. n) (ds_mem a) (ds_note a) (ds_phase a) (ds_batch a) (ds_worker a) (freeing (ds_client a))"
    and ci: "client_pc_inv (ds_mem a) (ds_batch a) (ds_todo a) (ds_client a)"
    and bi: "batch_inv Rtos_Counter (ds_mem a) (ds_phase a) (ds_batch a)"
    using ideal_inv[OF r] by (auto elim: disp_invE)
  have "target_inv (ds_mem a) (ds_batch a) x c" using ci pca by simp
  then have c: "c \<in> ran (ds_batch a)" by (rule ideal.target_ran)
  obtain cr where cr: "heap (ds_mem a) c = Some (Counter_Rtos cr)" "c \<noteq> NULL"
    "unat (es_count cr) = card (outstanding (ds_phase a) (ds_batch a) c)"
    "counter_at Rtos_Counter (ds_mem a) c \<lparr>vw_chan = es_semaphore cr, vw_count = es_count cr, vw_lock = c\<rparr>"
    using r c by (rule batch_counter_rtos)
  note ch = mem_rel_counter[OF host_relD(1)[OF rel] cr(1)]
  have "event_counter_done_host c (hs_mem s) = Inr (es_count cr = 0)"
    using ch by (simp add: event_counter_done_host_def load_counter_host_def load_def)
  then have s': "s' = s\<lparr>hs_client := (if es_count cr = 0 then H_Free x c else H_Blocked x c)\<rparr>"
    using step pc by (simp add: host_client_step_def client_res_def)
  show ?thesis
  proof (cases "es_count cr = 0")
    case False
    then have "stutter s s'" using pc unfolding s' by (intro stutterI) auto
    with rel have "host_rel Z a s'" by (rule stutter_rel)
    then have "simulates call n len a s'" by blast
    then show ?thesis using False by (simp add: s')
  next
    case True
    then have none: "outstanding (ds_phase a) (ds_batch a) c = {}" using cr(3) outstanding_finite[OF bi, of c] by simp
    have recv: "ds_worker a i \<noteq> K_Notify c" for i
      unfolding host_relD(4)[OF rel] by (cases "hs_worker s i") auto
    have "\<forall>cm. counter_at Rtos_Counter (ds_mem a) c cm \<longrightarrow> ds_note a (vw_chan cm) = 1"
      using ni c none recv pca unfolding note_inv_def by auto
    from this[rule_format, OF cr(4)] have "ds_note a c = 1" using ch(3) by simp
    then have "client_step ideal_platform len a = Some (a\<lparr>ds_note := (ds_note a)(c := 0), ds_client := C_Free x c\<rparr>)"
      using pca cr(1,2) ch(3) by (simp add: client_step_def client_try_def event_counter_wait_rtos_def assertE_def
          load_counter_rtos_def load_def binary_notes_def)
    then have "(ideal_step call n len)\<^sup>*\<^sup>* a (a\<lparr>ds_note := (ds_note a)(c := 0), ds_client := C_Free x c\<rparr>)"
      by (rule ideal_client)
    moreover have "host_rel Z (a\<lparr>ds_note := (ds_note a)(c := 0), ds_client := C_Free x c\<rparr>) s'"
      using rel True unfolding s' by (simp add: host_rel_def)
    ultimately show ?thesis using True by (auto simp: s')
  qed
qed

lemma free_sim:
  assumes r: "ideal_reach call n len a" and rel: "host_rel Z a s" and pc: "hs_client s = H_Free x c"
    and step: "host_client_step n pick s = Some s'"
  shows "simulates call n len a s'"
proof -
  let ?ma = "ds_mem a" and ?ms = "hs_mem s" and ?B = "{p. ds_batch a p = Some c}"
  have pca: "ds_client a = C_Free x c" using host_relD(5)[OF rel] pc by simp
  have ok: "mem_ok ?ma" and ti: "task_inv ?ma (ds_phase a) (ds_batch a) (unset (ds_client a) (ds_todo a))"
    and ci: "client_pc_inv ?ma (ds_batch a) (ds_todo a) (ds_client a)"
    using ideal_inv[OF r] by (auto elim: disp_invE)
  have x: "target_inv ?ma (ds_batch a) x c" using ci pca by simp
  obtain cr where cr: "heap ?ma c = Some (Counter_Rtos cr)" "c \<noteq> NULL"
    "counter_at Rtos_Counter ?ma c \<lparr>vw_chan = es_semaphore cr, vw_count = es_count cr, vw_lock = c\<rparr>"
    using batch_counter_rtos[OF r ideal.target_ran[OF x]] by blast
  have tasks: "\<exists>t. heap ?ma p = Some (Task t)" "ds_phase a p \<noteq> Unknown" if "ds_batch a p = Some c" for p
    using ti that unfolding task_inv_def by blast+
  note rm = host_relD(1)[OF rel]
  note ch = mem_rel_counter[OF rm cr(1)]
  have twin: "(\<exists>t. heap ?ms p = Some (Task t)) \<and> p \<noteq> NULL \<and> p \<le> brk ?ma \<and> p \<notin> Z \<and> p \<noteq> c" if "p \<in> ?B" for p
  proof -
    have "ds_batch a p = Some c" using that by simp
    from tasks(1)[OF this] obtain t where t: "heap ?ma p = Some (Task t)" by blast
    obtain t' where "heap ?ms p = Some (Task t')" using mem_rel_task[OF rm t] by blast
    moreover have "p \<noteq> c" using t cr(1) by auto
    ultimately show ?thesis using mem_rel_live[OF rm t] by blast
  qed
  let ?bat = "\<lambda>p. if ds_batch a p = Some c then None else ds_batch a p"
  let ?a = "a\<lparr>ds_mem := ?ma\<lparr>heap := (heap ?ma) |` (- ({c} \<union> ?B))\<rparr>, ds_client := C_Idle, ds_batch := ?bat\<rparr>"
  have "wait_finish (pf_delete ideal_platform) x c ?ma = Inr (?ma\<lparr>heap := (heap ?ma) |` (- ({c} \<union> ?B))\<rparr>)"
    using ideal.wait_finish_ok[OF ok cr(3) x tasks(1)] by simp
  then have "client_step ideal_platform len a = Some ?a" using pca by (simp add: client_step_def client_try_def)
  then have run: "(ideal_step call n len)\<^sup>*\<^sup>* a ?a" by (rule ideal_client)
  define Y where "Y = (case x of For_Task p \<Rightarrow> {c} \<union> ?B | For_Group g \<Rightarrow> {c})"
  let ?m' = "?ms\<lparr>heap := (heap ?ms) |` (- Y)\<rparr>"
  have del: "event_counter_delete_host c ?ms = Inr (?ms\<lparr>heap := (heap ?ms)(c := None)\<rparr>)"
    using ch by (simp add: event_counter_delete_host_def load_counter_host_def load_def free_def)
  have "wait_finish_host x c ?ms = Inr ?m'"
  proof (cases x)
    case (For_Task p)
    then have p: "?B = {p}" using x by simp
    then have "(\<exists>t. heap ?ms p = Some (Task t)) \<and> p \<noteq> NULL \<and> p \<noteq> c" using twin[of p] by blast
    moreover have "(heap ?ms)(c := None, p := None) = (heap ?ms) |` (- {p, c})" by (auto simp: restrict_map_def)
    ultimately show ?thesis
      using del For_Task
      by (auto simp: wait_finish_host_def task_wait_finish_def dispatch_task_delete_def assertE_def free_def Y_def p)
  next
    case (For_Group g)
    have "(heap ?ms)(c := None) = (heap ?ms) |` (- {c})" by (auto simp: restrict_map_def)
    then show ?thesis using del For_Group by (simp add: wait_finish_host_def Y_def)
  qed
  then have s': "s' = s\<lparr>hs_mem := ?m', hs_client := H_Idle,
      hs_batch := (\<lambda>p. if hs_batch s p = Some c then None else hs_batch s p)\<rparr>"
    using step pc by (simp add: host_client_step_def client_res_def)
  have cZ: "c \<notin> Z" using mem_rel_live[OF rm cr(1)] by blast
  have "mem_rel (Z \<union> ({c} \<union> ?B - Y)) (?ma\<lparr>heap := (heap ?ma) |` (- ({c} \<union> ?B))\<rparr>) ?m'"
    using rm by (rule mem_rel_restrict) (use twin cZ in \<open>auto simp: Y_def split: wait_target.splits\<close>)
  then have "host_rel (Z \<union> ({c} \<union> ?B - Y)) ?a s'"
    using rel tasks(2) unfolding s' by (auto simp: host_rel_def Y_def split: wait_target.splits)
  with run show ?thesis by (auto simp: s')
qed

text \<open>The calls.\<close>

lemma create_rel:
  assumes rel: "mem_rel Z ma ms" and room: "\<not> oom ms (brk ms)"
  shows "\<exists>ma' ms'. event_counter_create_rtos (Suc (brk ma)) cnt ma = Inr (Suc (brk ma), ma') \<and>
     event_counter_create_host cnt ms = Inr (Suc (brk ma), ms') \<and> mem_rel Z ma' ms' \<and> brk ma' = Suc (brk ma) \<and>
     (\<forall>p ob. heap ma p = Some ob \<longrightarrow> heap ma' p = Some ob)"
proof -
  have eq: "brk ms = brk ma" "oom ms = oom ma" using mem_relD(2,3)[OF rel] by auto
  let ?c = "Suc (brk ma)"
  let ?ma = "ma\<lparr>brk := ?c, heap := (heap ma)(?c \<mapsto> Counter_Rtos \<lparr>es_semaphore = ?c, es_count = cnt\<rparr>)\<rparr>"
  let ?ms = "ms\<lparr>brk := Suc (brk ms), heap := (heap ms)(Suc (brk ms) \<mapsto> Counter_Host \<lparr>eh_count = cnt\<rparr>)\<rparr>"
  have "event_counter_create_rtos ?c cnt ma = Inr (?c, ?ma)"
    using room eq by (intro event_counter_create_rtos_ok) simp
  moreover have "event_counter_create_host cnt ms = Inr (?c, ?ms)"
    using room eq by (simp add: event_counter_create_host_def malloc_ok store_def)
  moreover have "mem_rel Z ?ma ?ms" using rel by (rule mem_rel_new) simp_all
  moreover have "\<forall>p ob. heap ma p = Some ob \<longrightarrow> heap ?ma p = Some ob"
    using mem_ok_not_fresh[OF mem_relD(1)[OF rel]] by auto
  ultimately show ?thesis by (intro exI[of _ ?ma] exI[of _ ?ms]) simp
qed

lemma fresh_rel:
  assumes rel: "host_rel Z a s" and room: "has_room s"
  shows "fresh_channel (\<lambda>n. n) (Suc (brk (ds_mem a))) a"
proof -
  note rm = host_relD(1)[OF rel]
  have "heap (ds_mem a) p \<noteq> Some (Counter_Metal c)" for p c using rm by (simp add: mem_rel_def)
  moreover have "es_semaphore c \<noteq> Suc (brk (ds_mem a))" if "heap (ds_mem a) p = Some (Counter_Rtos c)" for p c
    using mem_rel_counter(3)[OF rm that] mem_rel_live[OF rm that] by simp
  ultimately show ?thesis
    using host_relD(11)[OF rel, of "Suc (brk (ds_mem a))"] room mem_relD(2,3)[OF rm]
    by (auto simp: fresh_channel_def has_room_def)
qed

lemma addable_rel:
  assumes rel: "host_rel Z a s" and add: "addable s w p"
  shows "new_task a w p"
proof -
  from add obtain t where t: "hs_phase s p = Unknown" "heap (hs_mem s) p = Some (Task t)" "task_function t \<noteq> NULL" "task_waitable t = w"
    by (auto simp: addable_def)
  have "p \<notin> Z" using rel t(1) by (auto simp: host_rel_def)
  from mem_relD(7)[OF host_relD(1)[OF rel] this] t(2) obtain ob where ob: "heap (ds_mem a) p = Some ob" "block_rel ob (Task t)"
    by (auto simp: option_rel_Some2)
  then obtain u where "ob = Task u" "task_call t = task_call u" "task_waitable t = task_waitable u" by (cases ob) auto
  with ob t host_relD(7)[OF rel] show ?thesis by (auto simp: new_task_def task_call_def)
qed

lemma task_add_sim:
  assumes r: "ideal_reach call n len a" and rel: "host_rel Z a s" and pc: "hs_client s = H_Idle"
    and add: "addable s w task" and room: "has_room s"
    and step: "client_res s (task_add_host task (hs_mem s)) (\<lambda>(counter, m).
      mark_added [task] w counter (s\<lparr>hs_mem := m, hs_client := H_Push task H_Idle\<rparr>)) = Some s'"
  shows "simulates call n len a s'"
proof -
  let ?ma = "ds_mem a" and ?ms = "hs_mem s"
  let ?h = "Suc (brk ?ma)"
  note rm = host_relD(1)[OF rel]
  have pca: "ds_client a = C_Idle" using host_relD(5)[OF rel] pc by simp
  note new = addable_rel[OF rel add]
  then obtain t where t: "heap ?ma task = Some (Task t)" "task_waitable t = w" by (auto simp: new_task_def)
  obtain t' where t': "heap ?ms task = Some (Task t')" "task \<noteq> NULL" "task_function t' = task_function t"
    "task_argument t' = task_argument t" "task_waitable t' = w" using mem_rel_task[OF rm t(1)] t(2) by metis
  have enter: "(ideal_step call n len)\<^sup>*\<^sup>* a a'" if "enter_task_add ideal_platform ?h 1 task w a = Some a'" for a'
    using disp_step.task_add[OF pca new fresh_rel[OF rel room] that] by blast
  show ?thesis
  proof (cases w)
    case True
    obtain ma1 ms1 where cr: "event_counter_create_rtos ?h 1 ?ma = Inr (?h, ma1)" "event_counter_create_host 1 ?ms = Inr (?h, ms1)"
      "mem_rel Z ma1 ms1" "brk ma1 = ?h" "\<forall>p ob. heap ?ma p = Some ob \<longrightarrow> heap ma1 p = Some ob"
      using create_rel[OF rm, of 1] room by (auto simp: has_room_def)
    have t1: "heap ma1 task = Some (Task t)" using cr(5) t(1) by blast
    obtain t1' where "heap ms1 task = Some (Task t1')" using mem_rel_task[OF cr(3) t1] by blast
    then have live: "heap ms1 task \<noteq> None" by simp
    let ?ma = "ma1\<lparr>heap := (heap ma1)(task \<mapsto> Task (t\<lparr>task_private_data := ?h\<rparr>))\<rparr>"
    let ?ms = "ms1\<lparr>heap := (heap ms1)(task \<mapsto> Task (t'\<lparr>task_private_data := ?h\<rparr>))\<rparr>"
    let ?a = "add_tasks [task] w ?h (a\<lparr>ds_mem := ?ma, ds_client := C_Send task C_Idle\<rparr>)"
    have "mem_rel Z ?ma ?ms" using cr(3) by (rule mem_rel_upd) (use t t' t1 in \<open>auto simp: task_call_def\<close>)
    moreover have "enter_task_add ideal_platform ?h 1 task w a = Some ?a"
      using cr(1) t t'(2) t1 True
      by (simp add: client_try_def task_add_prepare_def assertE_def load_task_def load_def store_def)
    note enter[OF this]
    moreover have "s' = mark_added [task] w ?h (s\<lparr>hs_mem := ?ms, hs_client := H_Push task H_Idle\<rparr>)"
      using step cr(2) t' live True
      by (simp add: client_res_def task_add_host_def assertE_def load_task_def load_def store_def)
    moreover from calculation(1,3) have "host_rel Z ?a s'"
      using rel cr(4) by (auto simp: host_rel_def add_tasks_def mark_added_def fun_eq_iff split: if_splits)
    ultimately show ?thesis by blast
  next
    case False
    let ?a = "add_tasks [task] w (task_private_data t) (a\<lparr>ds_mem := ?ma, ds_client := C_Send task C_Idle\<rparr>)"
    have "enter_task_add ideal_platform ?h 1 task w a = Some ?a"
      using t t'(2) False by (simp add: client_try_def task_add_prepare_def assertE_def load_task_def load_def)
    note enter[OF this]
    moreover have "s' = mark_added [task] w NULL (s\<lparr>hs_mem := ?ms, hs_client := H_Push task H_Idle\<rparr>)"
      using step t' False by (simp add: client_res_def task_add_host_def assertE_def load_task_def load_def)
    moreover from this have "host_rel Z ?a s'"
      using rel False by (auto simp: host_rel_def add_tasks_def mark_added_def fun_eq_iff split: if_splits)
    ultimately show ?thesis by blast
  qed
qed

lemma group_add_sim:
  assumes r: "ideal_reach call n len a" and rel: "host_rel Z a s" and pc: "hs_client s = H_Idle"
    and grp: "group_rep (hs_mem s) grp l w ts" and ts: "distinct ts" "w \<longrightarrow> ts \<noteq> []" "\<forall>p \<in> set ts. addable s w p"
    and room: "has_room s"
    and step: "client_res s (group_add_host grp (hs_mem s)) (\<lambda>(counter, m).
      mark_added ts w counter (s\<lparr>hs_mem := m, hs_client := H_Group grp 0 counter\<rparr>)) = Some s'"
  shows "simulates call n len a s'"
proof -
  let ?ma = "ds_mem a" and ?ms = "hs_mem s"
  let ?h = "Suc (brk ?ma)"
  note rm = host_relD(1)[OF rel]
  have pca: "ds_client a = C_Idle" using host_relD(5)[OF rel] pc by simp
  have grpa: "group_rep ?ma grp l w ts" using grp mem_rel_group[OF rm] by simp
  have new: "\<forall>p \<in> set ts. new_task a w p" using ts(3) addable_rel[OF rel] by blast
  have enter: "(ideal_step call n len)\<^sup>*\<^sup>* a a'" if "enter_group_add ideal_platform ?h 1 grp ts w a = Some a'" for a'
    using disp_step.group_add[OF pca grpa ts(1,2) new fresh_rel[OF rel room] that] by blast
  from grpa obtain g where g: "grp \<noteq> NULL" "heap ?ma grp = Some (Group g)" "group_waitable g = w" by (auto elim: group_repE)
  then have gs: "heap ?ms grp = Some (Group g)" using mem_rel_same[OF rm] by simp
  define c where "c = (if w then ?h else NULL)"
  have "\<exists>ma' ms'. group_add_prepare event_counter_create_rtos ?h 1 grp ?ma = Inr (c, ma') \<and>
      group_add_host grp ?ms = Inr (c, ms') \<and> mem_rel Z ma' ms' \<and> brk ?ma \<le> brk ma'"
  proof (cases w)
    case True
    then show ?thesis
      using create_rel[OF rm, of "group_count g"] room g gs
      by (auto simp: has_room_def group_add_prepare_def group_add_host_def assertE_def load_group_def load_def c_def)
  next
    case False
    then show ?thesis
      using rm g gs by (auto simp: group_add_prepare_def group_add_host_def assertE_def load_group_def load_def c_def)
  qed
  then obtain ma' ms' where m': "group_add_prepare event_counter_create_rtos ?h 1 grp ?ma = Inr (c, ma')"
    "group_add_host grp ?ms = Inr (c, ms')" "mem_rel Z ma' ms'" "brk ?ma \<le> brk ma'" by blast
  let ?a = "add_tasks ts w c (a\<lparr>ds_mem := ma', ds_client := C_Group grp 0 c\<rparr>)"
  have "enter_group_add ideal_platform ?h 1 grp ts w a = Some ?a" using m'(1) by (simp add: client_try_def)
  note enter[OF this]
  moreover have s': "s' = mark_added ts w c (s\<lparr>hs_mem := ms', hs_client := H_Group grp 0 c\<rparr>)"
    using step m'(2) by (simp add: client_res_def)
  have "host_rel Z ?a s'"
    using rel m'(3,4) unfolding s' by (auto simp: host_rel_def add_tasks_def mark_added_def fun_eq_iff split: if_splits)
  ultimately show ?thesis by (auto simp: s' mark_added_def)
qed

lemma task_wait_sim:
  assumes r: "ideal_reach call n len a" and rel: "host_rel Z a s" and pc: "hs_client s = H_Idle"
    and bat: "{p. hs_batch s p = Some c} = {task}"
    and step: "client_res s (task_wait_counter task (hs_mem s)) (\<lambda>counter.
      s\<lparr>hs_client := H_Await (For_Task task) counter\<rparr>) = Some s'"
  shows "simulates call n len a s'"
proof -
  have pca: "ds_client a = C_Idle" using host_relD(5)[OF rel] pc by simp
  have bata: "{p. ds_batch a p = Some c} = {task}" using bat host_relD(8)[OF rel] by simp
  have enter: "ideal_step call n len a a'" if "enter_task_wait task a = Some a'" for a'
    using pca bata that by (rule disp_step.task_wait)
  obtain x where x: "task_wait_counter task (ds_mem a) = Inr x"
    by (rule ideal_client_try[OF r, of "task_wait_counter task (ds_mem a)"]) (rule enter, simp add: client_try_def)
  then obtain t where t: "heap (ds_mem a) task = Some (Task t)" "task_waitable t" "x = task_private_data t"
    by (auto simp: task_wait_counter_def result_simps mem_simps)
  obtain t' where "heap (hs_mem s) task = Some (Task t')" "task \<noteq> NULL" "task_waitable t'" "task_private_data t' = x"
    using mem_rel_task[OF host_relD(1)[OF rel] t(1)] t(2,3) by metis
  then have "s' = s\<lparr>hs_client := H_Await (For_Task task) x\<rparr>"
    using step by (simp add: client_res_def task_wait_counter_def assertE_def load_task_def load_def)
  moreover have "(ideal_step call n len)\<^sup>*\<^sup>* a (a\<lparr>ds_client := C_Await (For_Task task) x\<rparr>)"
    using enter x by (simp add: client_try_def r_into_rtranclp)
  moreover have "host_rel Z (a\<lparr>ds_client := C_Await (For_Task task) x\<rparr>) (s\<lparr>hs_client := H_Await (For_Task task) x\<rparr>)"
    using rel by (simp add: host_rel_def)
  ultimately show ?thesis by auto
qed

lemma group_wait_sim:
  assumes r: "ideal_reach call n len a" and rel: "host_rel Z a s" and pc: "hs_client s = H_Idle"
    and grp: "group_rep (hs_mem s) grp l True ts" and ts: "ts \<noteq> []" "distinct ts"
    and bat: "{p. hs_batch s p = Some c} = set ts"
    and step: "client_res s (group_wait_counter grp (hs_mem s)) (\<lambda>counter.
      s\<lparr>hs_client := H_Await (For_Group grp) counter\<rparr>) = Some s'"
  shows "simulates call n len a s'"
proof -
  note rm = host_relD(1)[OF rel]
  have pca: "ds_client a = C_Idle" using host_relD(5)[OF rel] pc by simp
  have grpa: "group_rep (ds_mem a) grp l True ts" using grp mem_rel_group[OF rm] by simp
  have bata: "{p. ds_batch a p = Some c} = set ts" using bat host_relD(8)[OF rel] by simp
  have enter: "ideal_step call n len a a'" if "enter_group_wait grp a = Some a'" for a'
    using pca grpa ts bata that by (rule disp_step.group_wait)
  obtain x where x: "group_wait_counter grp (ds_mem a) = Inr x"
    by (rule ideal_client_try[OF r, of "group_wait_counter grp (ds_mem a)"]) (rule enter, simp add: client_try_def)
  have hd: "0 < length ts" using ts(1) by simp
  obtain gr where gr: "load_group grp (ds_mem a) = Inr gr" "read_ptr (group_tasks gr) 0 (ds_mem a) = Inr (ts ! 0)"
    using ideal.group_rep_nth[OF grpa hd] by blast
  then obtain t where t: "heap (ds_mem a) (ts ! 0) = Some (Task t)" "group_waitable gr" "x = task_private_data t" "grp \<noteq> NULL"
    using x by (auto simp: group_wait_counter_def result_simps mem_simps)
  have ti: "task_inv (ds_mem a) (ds_phase a) (ds_batch a) (unset (ds_client a) (ds_todo a))"
    using ideal_inv[OF r] by (rule disp_invE)
  have "ds_batch a (ts ! 0) = Some c" using bata hd nth_mem by blast
  then have "task_waitable t" using ti t(1) unfolding task_inv_def by (metis obj.inject(2) option.inject)
  then obtain t' where "heap (hs_mem s) (ts ! 0) = Some (Task t')" "ts ! 0 \<noteq> NULL" "task_private_data t' = x"
    using mem_rel_task[OF rm t(1)] t(3) by metis
  moreover have "load_group grp (hs_mem s) = Inr gr" "read_ptr (group_tasks gr) 0 (hs_mem s) = Inr (ts ! 0)"
    using gr mem_rel_same[OF rm] by (simp_all add: mem_simps)
  ultimately have "s' = s\<lparr>hs_client := H_Await (For_Group grp) x\<rparr>"
    using step t by (simp add: client_res_def group_wait_counter_def assertE_def load_task_def load_def)
  moreover have "(ideal_step call n len)\<^sup>*\<^sup>* a (a\<lparr>ds_client := C_Await (For_Group grp) x\<rparr>)"
    using enter x by (simp add: client_try_def r_into_rtranclp)
  moreover have "host_rel Z (a\<lparr>ds_client := C_Await (For_Group grp) x\<rparr>) (s\<lparr>hs_client := H_Await (For_Group grp) x\<rparr>)"
    using rel by (simp add: host_rel_def)
  ultimately show ?thesis by auto
qed

lemma task_create_sim:
  assumes rel: "host_rel Z a s" and pc: "hs_client s = H_Idle"
    and create: "dispatch_task_create f x w (hs_mem s) = Inr (p, m)"
  shows "simulates call n len a (s\<lparr>hs_mem := m\<rparr>)"
proof -
  note rm = host_relD(1)[OF rel] and m = task_create_new[OF create]
  let ?t = "Task \<lparr>task_function = f, task_argument = x, task_waitable = w, task_private_data = NULL\<rparr>"
  let ?m = "(ds_mem a)\<lparr>brk := Suc (brk (ds_mem a)), heap := (heap (ds_mem a))(Suc (brk (ds_mem a)) \<mapsto> ?t)\<rparr>"
  have "\<not> oom (ds_mem a) (brk (ds_mem a))"
    using create dispatch_task_create_error[of f "hs_mem s" x w] mem_relD(2,3)[OF rm] by auto
  then have "dispatch_task_create f x w (ds_mem a) = Inr (Suc (brk (ds_mem a)), ?m)"
    using m(1) by (rule dispatch_task_create_ok[rotated])
  moreover have "ds_client a = C_Idle" using host_relD(5)[OF rel] pc by simp
  ultimately have "ideal_step call n len a (a\<lparr>ds_mem := ?m\<rparr>)" by (intro disp_step.task_create)
  moreover have "mem_rel Z ?m m" unfolding m(3) by (rule mem_rel_new[OF rm]) simp_all
  then have "host_rel Z (a\<lparr>ds_mem := ?m\<rparr>) (s\<lparr>hs_mem := m\<rparr>)" using rel by (simp add: host_rel_def)
  ultimately show ?thesis by blast
qed

lemma push_sim:
  assumes rel: "host_rel Z a s" and pc: "hs_client s = H_Push p k" and len: "length (hs_deque s') \<le> len"
    and step: "host_client_step n pick s = Some s'"
  shows "simulates call n len a s'"
proof -
  let ?a = "a\<lparr>ds_queue := ds_queue a @ [p], ds_client := abs_client k, ds_todo := tl (ds_todo a),
      ds_phase := (ds_phase a)(p := Queued), ds_sent := ds_sent a @ [p]\<rparr>"
  have s': "s' = s\<lparr>hs_deque := hs_deque s @ [p], hs_client := H_Notify k, hs_todo := tl (hs_todo s),
      hs_phase := (hs_phase s)(p := Queued), hs_sent := hs_sent s @ [p]\<rparr>"
    using step pc by (simp add: host_client_step_def split: if_splits)
  have "client_step ideal_platform len a = Some ?a"
    using host_relD(3,5)[OF rel] pc len by (simp add: client_step_def s')
  then have "(ideal_step call n len)\<^sup>*\<^sup>* a ?a" by (rule ideal_client)
  moreover have "host_rel Z ?a s'" using rel unfolding s' by (auto simp: host_rel_def fun_eq_iff split: if_splits)
  ultimately show ?thesis by blast
qed

lemma client_stutter:
  assumes step: "host_client_step n pick s = Some s'"
    and pc: "\<And>p k. hs_client s \<noteq> H_Push p k" "\<And>g i c. hs_client s \<noteq> H_Group g i c" "\<And>x c. hs_client s \<noteq> H_Await x c"
      "\<And>x c. hs_client s \<noteq> H_Free x c"
  shows "stutter s s'"
  by (rule stutterI; cases "hs_client s")
    (use assms in \<open>auto simp: host_client_step_def at_worker_def split: if_splits\<close>)

text \<open>Every step of the host is a run of the specification, in which the queue has room for what the deque
  holds.\<close>

lemma host_step_sim:
  assumes r: "ideal_reach call n len a" and rel: "host_rel Z a s" and step: "host_step call n s s'"
    and len: "length (hs_deque s') \<le> len"
  shows "simulates call n len a s'"
proof -
  have st: "simulates call n len a s'" if "stutter s s'" using stutter_rel[OF rel that] by blast
  from step show ?thesis
  proof cases
    case (worker i)
    then show ?thesis using worker_sim(1)[OF r rel] by blast
  next
    case (client pick)
    consider (push) p k where "hs_client s = H_Push p k" | (grp) g i c where "hs_client s = H_Group g i c"
      | (aw) x c where "hs_client s = H_Await x c" | (fr) x c where "hs_client s = H_Free x c" | (other) "stutter s s'"
      using client_stutter[OF client] by blast
    then show ?thesis
    proof cases
      case push
      then show ?thesis using push_sim[OF rel _ len client] by blast
    next
      case grp
      then show ?thesis using group_sim[OF r rel _ client] by blast
    next
      case aw
      then show ?thesis using await_sim[OF r rel _ client] by blast
    next
      case fr
      then show ?thesis using free_sim[OF r rel _ client] by blast
    qed (rule st)
  next
    case (spurious_worker i)
    then show ?thesis by (intro st stutterI) (auto simp: at_worker_def)
  next
    case (task_add w task)
    then show ?thesis using task_add_sim[OF r rel] by blast
  next
    case (group_add grp l w ts)
    then show ?thesis using group_add_sim[OF r rel] by blast
  next
    case (task_wait c task)
    then show ?thesis using task_wait_sim[OF r rel] by blast
  next
    case (group_wait grp l ts c)
    then show ?thesis using group_wait_sim[OF r rel] by blast
  next
    case (task_create f a w task m)
    then show ?thesis using task_create_sim[OF rel] by blast
  qed (intro st stutterI; simp)+
qed

lemma host_init_rel:
  assumes "host_init s"
  shows "disp_init ideal_env (idle_system (hs_mem s) (\<lambda>_. 0) (hs_app s))"
    "host_rel {} (idle_system (hs_mem s) (\<lambda>_. 0) (hs_app s)) s"
proof -
  obtain m u where s: "s = dispatch_queue_create_host m u" "mem_ok m" "\<forall>p c. heap m p \<noteq> Some (Counter_Metal c)"
    "\<forall>p c. heap m p \<noteq> Some (Counter_Rtos c)" "\<forall>p c. heap m p \<noteq> Some (Counter_Host c)"
    using assms by (auto simp: host_init_def)
  have mem: "hs_mem s = m" by (simp add: s(1) dispatch_queue_create_host_def dispatch_queue_init_host_def)
  then show "disp_init ideal_env (idle_system (hs_mem s) (\<lambda>_. 0) (hs_app s))" using s(2) by (intro idle_system_init) simp
  have "block_rel ob ob" if "heap m p = Some ob" for p ob using s(3-5) that by (cases ob) auto
  then have "rel_option block_rel (heap m p) (heap m p)" for p by (cases "heap m p") auto
  then have "mem_rel {} m m" using s(2-5) by (simp add: mem_rel_def)
  then show "host_rel {} (idle_system (hs_mem s) (\<lambda>_. 0) (hs_app s)) s"
    using mem by (simp add: host_rel_def idle_system_def s(1) dispatch_queue_create_host_def dispatch_queue_init_host_def)
qed

lemma host_run_sim:
  assumes init: "host_init s0" and run: "(host_step call n)\<^sup>*\<^sup>* s0 s"
  shows "\<exists>l0. \<forall>len \<ge> l0. \<exists>a Z. (ideal_step call n len)\<^sup>*\<^sup>* (idle_system (hs_mem s0) (\<lambda>_. 0) (hs_app s0)) a \<and> host_rel Z a s"
  using run
proof (induction rule: rtranclp_induct)
  case base
  show ?case using host_init_rel(2)[OF init] by blast
next
  case (step s s')
  let ?a0 = "idle_system (hs_mem s0) (\<lambda>_. 0 :: nat) (hs_app s0)"
  from step.IH obtain l0 where l0: "\<And>len. len \<ge> l0 \<Longrightarrow> \<exists>a Z. (ideal_step call n len)\<^sup>*\<^sup>* ?a0 a \<and> host_rel Z a s" by blast
  have "\<exists>a Z. (ideal_step call n len)\<^sup>*\<^sup>* ?a0 a \<and> host_rel Z a s'" if len: "len \<ge> max l0 (length (hs_deque s'))" for len
  proof -
    obtain a Z where a: "(ideal_step call n len)\<^sup>*\<^sup>* ?a0 a" "host_rel Z a s" using l0 len by force
    have "ideal_reach call n len ?a0" unfolding disp_reach_def using host_init_rel(1)[OF init] by (rule reach.reach_init)
    then have r: "ideal_reach call n len a" using a(1) by (rule ideal_steps_reach)
    from host_step_sim[OF r a(2) step.hyps(2)] len obtain a' Z' where "(ideal_step call n len)\<^sup>*\<^sup>* a a'" "host_rel Z' a' s'" by auto
    with a(1) show ?thesis by (meson rtranclp_trans)
  qed
  then show ?case by blast
qed

lemma host_reach_run: "host_reach call n s \<Longrightarrow> \<exists>s0. host_init s0 \<and> (host_step call n)\<^sup>*\<^sup>* s0 s"
  unfolding host_reach_def by (induction rule: reach.induct) (blast intro: rtranclp.rtrancl_into_rtrancl)+

lemma host_reach_sim:
  assumes "host_reach call n s"
  obtains len a Z where "ideal_reach call n len a" "host_rel Z a s"
proof -
  from host_reach_run[OF assms] obtain s0 where s0: "host_init s0" "(host_step call n)\<^sup>*\<^sup>* s0 s" by blast
  from host_run_sim[OF this] obtain len a Z where a:
    "(ideal_step call n len)\<^sup>*\<^sup>* (idle_system (hs_mem s0) (\<lambda>_. 0) (hs_app s0)) a" "host_rel Z a s" by blast
  have "ideal_reach call n len (idle_system (hs_mem s0) (\<lambda>_. 0) (hs_app s0))"
    unfolding disp_reach_def using host_init_rel(1)[OF s0(1)] by (rule reach.reach_init)
  then show thesis using ideal_steps_reach[OF _ a(1)] a(2) that by blast
qed

end
