(* ===== verification/Dispatch_Host.thy ===== *)
theory Dispatch_Host
  imports Dispatch_Host_Refines
begin

text \<open>
  What the dispatch queue of the host promises: the promises of the specification, carried over the
  refinement of theory \<open>Dispatch_Host_Refines\<close>, and what rests on its mutex, its condition variables and its
  semaphores, by an invariant of its own: a waiting thread is not forgotten, \<open>dispatch_queue_wait\<close> waits
  for the tasks, \<open>dispatch_queue_delete\<close> for the workers. And the one thing that is wrong with it.
\<close>

section \<open>The invariant\<close>

text \<open>The workers that hold the mutex of the dispatch queue.\<close>

fun holds :: "host_worker \<Rightarrow> bool" where
  "holds W_Ready = True"
| "holds W_Ready_Check = True"
| "holds W_Ready_Notify = True"
| "holds W_Wait = True"
| "holds W_Branch = True"
| "holds W_Reset = True"
| "holds W_Pop = True"
| "holds W_While = True"
| "holds c = False"

text \<open>What a worker knows: of \<open>quit\<close>, of tasks in the deque, of the count of its semaphore.\<close>

fun worker_ok :: "bool \<Rightarrow> bool \<Rightarrow> size_t \<Rightarrow> host_worker \<Rightarrow> bool" where
  "worker_ok q d r W_Ready_Check \<longleftrightarrow> r = 0"
| "worker_ok q d r W_Ready_Notify \<longleftrightarrow> r = 0"
| "worker_ok q d r W_Wait \<longleftrightarrow> r = 0"
| "worker_ok q d r W_Blocked \<longleftrightarrow> r = 0"
| "worker_ok q d r W_Woken \<longleftrightarrow> r = 0"
| "worker_ok q d r W_Branch \<longleftrightarrow> r = 0 \<and> (q \<or> d)"
| "worker_ok q d r W_Reset \<longleftrightarrow> r = 0 \<and> \<not> q \<and> d"
| "worker_ok q d r W_Pop \<longleftrightarrow> r = 1 \<and> \<not> q \<and> d"
| "worker_ok q d r W_While \<longleftrightarrow> q \<or> r = 1"
| "worker_ok q d r W_Exit \<longleftrightarrow> q"
| "worker_ok q d r c \<longleftrightarrow> r = 1"

fun going_on :: "host_client \<Rightarrow> bool" where
  "going_on H_Idle = True"
| "going_on (H_Group g i c) = True"
| "going_on c = False"

fun client_ok :: "nat \<Rightarrow> 'u host_sys \<Rightarrow> host_client \<Rightarrow> bool" where
  "client_ok n s (H_Push p k) \<longleftrightarrow> going_on k"
| "client_ok n s (H_Notify k) \<longleftrightarrow> going_on k"
| "client_ok n s (H_Blocked x c) \<longleftrightarrow> c \<noteq> NULL \<and> (\<exists>h. heap (hs_mem s) c = Some (Counter_Host h) \<and>
     (eh_count h = 0 \<longrightarrow> (\<exists>i < n. hs_worker s i = W_Check c \<or> hs_worker s i = W_Notify c)))"
| "client_ok n s (H_Each j) \<longleftrightarrow> j \<le> n \<and> hs_deque s = [] \<and> (\<forall>i < j. hs_ready s i = 0)"
| "client_ok n s (H_Each_Blocked j) \<longleftrightarrow> j < n \<and> hs_deque s = [] \<and> (\<forall>i < j. hs_ready s i = 0) \<and>
     (hs_ready s j = 0 \<longrightarrow> hs_worker s j = W_Ready_Check \<or> hs_worker s j = W_Ready_Notify)"
| "client_ok n s (H_Join j) \<longleftrightarrow> j \<le> n \<and> (\<forall>i < j. hs_worker s i = W_Exit)"
| "client_ok n s H_Delete \<longleftrightarrow> (\<forall>i < n. hs_worker s i = W_Exit)"
| "client_ok n s H_Gone \<longleftrightarrow> (\<forall>i < n. hs_worker s i = W_Exit)"
| "client_ok n s c \<longleftrightarrow> True"

fun quitting :: "host_client \<Rightarrow> bool" where
  "quitting H_Notify_All = True"
| "quitting (H_Join j) = True"
| "quitting H_Delete = True"
| "quitting H_Gone = True"
| "quitting c = False"

definition host_inv :: "nat \<Rightarrow> 'u host_sys \<Rightarrow> bool" where
  "host_inv n s \<longleftrightarrow>
     (\<forall>i. holds (hs_worker s i) \<longleftrightarrow> hs_lock s = Some i) \<and> (\<forall>i \<ge> n. hs_worker s i = W_Start) \<and>
     (\<forall>i. worker_ok (hs_quit s) (hs_deque s \<noteq> []) (hs_ready s i) (hs_worker s i)) \<and>
     client_ok n s (hs_client s) \<and> (hs_quit s \<longleftrightarrow> quitting (hs_client s)) \<and>
     (hs_quit s \<and> hs_client s \<noteq> H_Notify_All \<longrightarrow> (\<forall>i. hs_worker s i \<noteq> W_Blocked)) \<and>
     (hs_deque s \<noteq> [] \<and> 0 < n \<longrightarrow> (\<exists>k. hs_client s = H_Notify k) \<or> (\<exists>i < n. hs_worker s i \<noteq> W_Blocked))"

lemma host_invD:
  assumes "host_inv n s"
  shows "holds (hs_worker s i) \<longleftrightarrow> hs_lock s = Some i" "i \<ge> n \<Longrightarrow> hs_worker s i = W_Start"
    "worker_ok (hs_quit s) (hs_deque s \<noteq> []) (hs_ready s i) (hs_worker s i)"
    "client_ok n s (hs_client s)" "hs_quit s \<longleftrightarrow> quitting (hs_client s)"
    "hs_quit s \<Longrightarrow> hs_client s \<noteq> H_Notify_All \<Longrightarrow> hs_worker s i \<noteq> W_Blocked"
    "hs_deque s \<noteq> [] \<Longrightarrow> 0 < n \<Longrightarrow> (\<exists>k. hs_client s = H_Notify k) \<or> (\<exists>i < n. hs_worker s i \<noteq> W_Blocked)"
  using assms unfolding host_inv_def by blast+

lemma worker_ok_idle: "\<not> holds c \<Longrightarrow> worker_ok q d r c \<Longrightarrow> worker_ok q d' r c"
  by (cases c) auto

lemma worker_ok_quit: "\<not> holds c \<Longrightarrow> worker_ok False d r c \<Longrightarrow> worker_ok True d r c"
  by (cases c) auto

lemma host_init_inv: "host_init s \<Longrightarrow> host_inv n s"
  by (auto simp: host_init_def host_inv_def dispatch_queue_create_host_def dispatch_queue_init_host_def)

text \<open>A worker, part by part.\<close>

lemma count_down_1 [simp]: "count_down 1 = 0"
  by (simp add: count_down_def)

lemma finish_step:
  assumes step: "host_worker_step call i s = Some s'" and pc: "hs_worker s i = W_Finish p"
  shows "(\<exists>e. s' = at_worker i (W_Fault e) s) \<or> (\<exists>c. s' = at_worker i (W_Signal p c) s) \<or>
     (\<exists>t. heap (hs_mem s) p = Some (Task t) \<and> s' = at_worker i W_Relock (s\<lparr>
        hs_mem := (hs_mem s)\<lparr>heap := (heap (hs_mem s))(p := None)\<rparr>, hs_phase := (hs_phase s)(p := Finished)\<rparr>))"
proof (cases "load_task p (hs_mem s)")
  case (Inl e)
  then show ?thesis using step pc by (auto simp: host_worker_step_def worker_res_def)
next
  case (Inr t)
  then have t: "p \<noteq> NULL" "heap (hs_mem s) p = Some (Task t)" by (auto simp: mem_simps)
  then have "dispatch_task_delete p (hs_mem s) = Inr ((hs_mem s)\<lparr>heap := (heap (hs_mem s))(p := None)\<rparr>)"
    by (simp add: dispatch_task_delete_def assertE_def free_def)
  with Inr t step pc show ?thesis by (auto simp: host_worker_step_def worker_res_def split: if_splits)
qed

lemma signal_step:
  assumes step: "host_worker_step call i s = Some s'" and pc: "hs_worker s i = W_Signal p c"
  shows "(\<exists>e. s' = at_worker i (W_Fault e) s) \<or>
     (\<exists>h. heap (hs_mem s) c = Some (Counter_Host h) \<and> s' = at_worker i (W_Check c) (s\<lparr>
        hs_mem := (hs_mem s)\<lparr>heap := (heap (hs_mem s))(c \<mapsto> Counter_Host (h\<lparr>eh_count := count_down (eh_count h)\<rparr>))\<rparr>,
        hs_phase := (hs_phase s)(p := Finished)\<rparr>))"
proof (cases "event_counter_decrement_host c (hs_mem s)")
  case (Inl e)
  then show ?thesis using step pc by (auto simp: host_worker_step_def worker_res_def)
next
  case (Inr m)
  then obtain h where "heap (hs_mem s) c = Some (Counter_Host h)"
    "m = (hs_mem s)\<lparr>heap := (heap (hs_mem s))(c \<mapsto> Counter_Host (h\<lparr>eh_count := count_down (eh_count h)\<rparr>))\<rparr>"
    by (auto simp: event_counter_decrement_host_def result_simps mem_simps)
  with Inr step pc show ?thesis by (auto simp: host_worker_step_def worker_res_def)
qed

lemma worker_effect_all:
  assumes step: "host_worker_step call i s = Some s'" and pop: "hs_worker s i = W_Pop \<longrightarrow> hs_deque s \<noteq> []"
    and lock: "holds (hs_worker s i) \<longrightarrow> hs_lock s = Some i"
  shows "hs_quit s' = hs_quit s \<and> (\<forall>j. j \<noteq> i \<longrightarrow> hs_worker s' j = hs_worker s j \<and> hs_ready s' j = hs_ready s j) \<and>
     hs_lock s' = (if holds (hs_worker s' i) then Some i else if holds (hs_worker s i) then None else hs_lock s) \<and>
     (holds (hs_worker s' i) \<longrightarrow> holds (hs_worker s i) \<or> hs_lock s = None) \<and>
     hs_deque s' = (if hs_worker s i = W_Pop then tl (hs_deque s) else hs_deque s)"
proof (cases "hs_worker s i")
  case (W_Finish p)
  then show ?thesis
    using finish_step[OF step W_Finish] by (auto simp: at_worker_def)
qed (use assms in \<open>auto simp: host_worker_step_def acquire_def worker_res_def at_worker_def
    split: if_splits sum.splits list.splits\<close>)

lemma worker_effect:
  assumes inv: "host_inv n s" and step: "host_worker_step call i s = Some s'"
  shows "hs_quit s' = hs_quit s" "j \<noteq> i \<Longrightarrow> hs_worker s' j = hs_worker s j" "j \<noteq> i \<Longrightarrow> hs_ready s' j = hs_ready s j"
    "hs_lock s' = (if holds (hs_worker s' i) then Some i else if holds (hs_worker s i) then None else hs_lock s)"
    "holds (hs_worker s' i) \<Longrightarrow> holds (hs_worker s i) \<or> hs_lock s = None"
    "hs_deque s' = (if hs_worker s i = W_Pop then tl (hs_deque s) else hs_deque s)"
proof -
  have pop: "hs_worker s i = W_Pop \<longrightarrow> hs_deque s \<noteq> []" and lock: "holds (hs_worker s i) \<longrightarrow> hs_lock s = Some i"
    using host_invD(1,3)[OF inv, of i] by auto
  note all = worker_effect_all[OF step pop lock]
  show "hs_quit s' = hs_quit s" "j \<noteq> i \<Longrightarrow> hs_worker s' j = hs_worker s j" "j \<noteq> i \<Longrightarrow> hs_ready s' j = hs_ready s j"
    "hs_lock s' = (if holds (hs_worker s' i) then Some i else if holds (hs_worker s i) then None else hs_lock s)"
    "hs_deque s' = (if hs_worker s i = W_Pop then tl (hs_deque s) else hs_deque s)"
    using all by (blast, blast, blast, simp, simp)
  show "holds (hs_worker s' i) \<Longrightarrow> holds (hs_worker s i) \<or> hs_lock s = None" using all by simp
qed

lemma worker_locks:
  assumes inv: "host_inv n s" and i: "i < n" and step: "host_worker_step call i s = Some s'"
  shows "holds (hs_worker s' j) \<longleftrightarrow> hs_lock s' = Some j" "j \<ge> n \<Longrightarrow> hs_worker s' j = W_Start"
proof -
  note e = worker_effect[OF inv step]
  show "j \<ge> n \<Longrightarrow> hs_worker s' j = W_Start" using e(2)[of j] host_invD(2)[OF inv, of j] i by auto
  show "holds (hs_worker s' j) \<longleftrightarrow> hs_lock s' = Some j"
    using e(2)[of j] e(4,5) host_invD(1)[OF inv, of j] host_invD(1)[OF inv, of i] by (cases "j = i") auto
qed

lemma worker_own:
  assumes inv: "host_inv n s" and step: "host_worker_step call i s = Some s'"
  shows "worker_ok (hs_quit s') (hs_deque s' \<noteq> []) (hs_ready s' i) (hs_worker s' i)"
  using host_invD(3)[OF inv, of i] step
proof (cases "hs_worker s i")
  case (W_Finish p)
  then show ?thesis
    using finish_step[OF step W_Finish] host_invD(3)[OF inv, of i] by (auto simp: at_worker_def)
qed (auto simp: host_worker_step_def acquire_def worker_res_def at_worker_def split: if_splits sum.splits list.splits)

lemma worker_oks:
  assumes inv: "host_inv n s" and i: "i < n" and step: "host_worker_step call i s = Some s'"
  shows "worker_ok (hs_quit s') (hs_deque s' \<noteq> []) (hs_ready s' j) (hs_worker s' j)"
proof (cases "j = i")
  case True
  then show ?thesis using worker_own[OF inv step] by simp
next
  case False
  note e = worker_effect[OF inv step]
  have j: "hs_worker s' j = hs_worker s j" "hs_ready s' j = hs_ready s j" using e(2,3)[OF False] .
  show ?thesis
  proof (cases "hs_worker s i = W_Pop")
    case True
    then have "\<not> holds (hs_worker s j)" using host_invD(1)[OF inv] False by (metis holds.simps(7) option.inject)
    then show ?thesis using host_invD(3)[OF inv, of j] e(1) j by (auto intro: worker_ok_idle)
  qed (use host_invD(3)[OF inv, of j] e(1,6) j in simp)
qed

text \<open>A step of a worker and the client.\<close>

lemma worker_wakes:
  assumes "host_worker_step call i s = Some s'"
  shows "hs_client s' = (case hs_worker s i of W_Ready_Notify \<Rightarrow> wake_each i (hs_client s)
     | W_Notify c \<Rightarrow> if hs_worker s' i = W_Relock then wake c (hs_client s) else hs_client s | _ \<Rightarrow> hs_client s)"
proof (cases "hs_worker s i")
  case (W_Finish p)
  then show ?thesis
    using finish_step[OF assms W_Finish] by (auto simp: at_worker_def)
qed (use assms in \<open>auto simp: host_worker_step_def acquire_def worker_res_def at_worker_def
    split: if_splits sum.splits list.splits\<close>)

text \<open>What it does to an event counter that is not being freed.\<close>

lemma worker_counter:
  assumes step: "host_worker_step call i s = Some s'" and c: "heap (hs_mem s) c = Some (Counter_Host h)"
  shows "\<exists>h'. heap (hs_mem s') c = Some (Counter_Host h') \<and>
     (eh_count h' = 0 \<longrightarrow> eh_count h = 0 \<or> hs_worker s' i = W_Check c)"
proof (cases "hs_worker s i")
  case (W_Finish p)
  then show ?thesis
    using finish_step[OF step W_Finish] c by (auto simp: at_worker_def)
next
  case (W_Signal p x)
  then show ?thesis
    using signal_step[OF step W_Signal] c by (auto simp: at_worker_def)
qed (use assms in \<open>auto simp: host_worker_step_def acquire_def worker_res_def at_worker_def
    split: if_splits sum.splits list.splits\<close>)

lemma worker_stays:
  assumes step: "host_worker_step call i s = Some s'" and c: "heap (hs_mem s) c = Some (Counter_Host h)" "eh_count h = 0" "c \<noteq> NULL"
  shows "hs_worker s i = W_Check c \<Longrightarrow> hs_worker s' i = W_Notify c"
    and "hs_worker s i = W_Notify c \<Longrightarrow> hs_worker s' i = W_Relock"
  using assms
  by (auto simp: host_worker_step_def worker_res_def at_worker_def event_counter_done_host_def load_counter_host_def load_def
      split: if_splits)

lemma worker_client:
  assumes inv: "host_inv n s" and i: "i < n" and step: "host_worker_step call i s = Some s'"
  shows "client_ok n s' (hs_client s')"
proof -
  note e = worker_effect[OF inv step] and wk = worker_wakes[OF step]
  have ok: "client_ok n s (hs_client s)" and me: "worker_ok (hs_quit s) (hs_deque s \<noteq> []) (hs_ready s i) (hs_worker s i)"
    and q: "hs_quit s \<longleftrightarrow> quitting (hs_client s)"
    using inv by (rule host_invD)+
  have keep: "hs_client s' = hs_client s"
    if "\<And>x c. hs_client s \<noteq> H_Blocked x c" "\<And>j. hs_client s \<noteq> H_Each_Blocked j"
    using wk that by (cases "hs_client s") (auto split: host_worker.splits if_splits)
  have exit: "hs_worker s' j = W_Exit" if "hs_worker s j = W_Exit" for j
  proof (cases "j = i")
    case True
    then show ?thesis using step that by (simp add: host_worker_step_def)
  qed (use e(2) that in simp)
  have down: "hs_ready s' j = 0" if "hs_ready s j = 0" "hs_deque s = []" for j
  proof (cases "j = i")
    case True
    have "hs_ready s' i = hs_ready s i \<or> hs_worker s i = W_Ready \<or> hs_worker s i = W_Reset"
      using step by (cases "hs_worker s i")
        (auto simp: host_worker_step_def acquire_def worker_res_def at_worker_def result_simps split: if_splits sum.splits list.splits)
    then show ?thesis using that me True by (auto simp: count_down_def)
  qed (use e(3) that in simp)
  have empty: "hs_deque s' = []" if "hs_deque s = []" using e(6) that by simp
  show ?thesis
  proof (cases "hs_client s")
    case (H_Blocked x c)
    then obtain h where c: "c \<noteq> NULL" "heap (hs_mem s) c = Some (Counter_Host h)"
      "eh_count h = 0 \<longrightarrow> (\<exists>j < n. hs_worker s j = W_Check c \<or> hs_worker s j = W_Notify c)" using ok by auto
    obtain h' where h': "heap (hs_mem s') c = Some (Counter_Host h')"
      "eh_count h' = 0 \<longrightarrow> eh_count h = 0 \<or> hs_worker s' i = W_Check c" using worker_counter[OF step c(2)] by blast
    show ?thesis
    proof (cases "hs_worker s i = W_Notify c \<and> hs_worker s' i = W_Relock")
      case True
      then have "hs_client s' = H_Await x c" using wk H_Blocked by simp
      then show ?thesis by simp
    next
      case False
      then have same: "hs_client s' = H_Blocked x c" using wk H_Blocked by (auto split: host_worker.splits if_splits)
      have "\<exists>j < n. hs_worker s' j = W_Check c \<or> hs_worker s' j = W_Notify c" if z: "eh_count h' = 0"
      proof (cases "hs_worker s' i = W_Check c")
        case not: False
        then have z': "eh_count h = 0" using h'(2) z by blast
        then obtain j where j: "j < n" "hs_worker s j = W_Check c \<or> hs_worker s j = W_Notify c" using c(3) by blast
        show ?thesis
        proof (cases "j = i")
          case True
          then show ?thesis using j False worker_stays[OF step c(2) z' c(1)] by blast
        qed (use j e(2) in auto)
      qed (use i in blast)
      then show ?thesis using same c(1) h'(1) by simp
    qed
  next
    case (H_Each_Blocked j)
    then have j: "j < n" "hs_deque s = []" "\<forall>i < j. hs_ready s i = 0"
      "hs_ready s j = 0 \<longrightarrow> hs_worker s j = W_Ready_Check \<or> hs_worker s j = W_Ready_Notify" using ok by auto
    show ?thesis
    proof (cases "j = i \<and> hs_worker s i = W_Ready_Notify")
      case True
      then have "hs_client s' = H_Each j" using wk H_Each_Blocked by simp
      then show ?thesis using j down empty by simp
    next
      case False
      then have same: "hs_client s' = H_Each_Blocked j" using wk H_Each_Blocked by (auto split: host_worker.splits if_splits)
      have "hs_worker s' j = W_Ready_Check \<or> hs_worker s' j = W_Ready_Notify" if z: "hs_ready s' j = 0"
      proof (cases "j = i")
        case True
        have "hs_worker s i = W_Ready \<and> hs_worker s' i = W_Ready_Check \<or>
            hs_worker s i = W_Ready_Check \<and> hs_worker s' i = W_Ready_Notify \<or> hs_ready s' i \<noteq> 0"
        proof (cases "hs_worker s i = W_Ready \<or> hs_worker s i = W_Ready_Check")
          case True
          then show ?thesis using step me by (auto simp: host_worker_step_def at_worker_def)
        next
          case other: False
          then have "hs_ready s i \<noteq> 0" using j(4) True False by blast
          then have "hs_ready s' i \<noteq> 0"
            using step other by (cases "hs_worker s i")
              (auto simp: host_worker_step_def acquire_def worker_res_def at_worker_def result_simps split: if_splits sum.splits list.splits)
          then show ?thesis by blast
        qed
        with z True show ?thesis by auto
      qed (use j e(2,3) z in simp)
      then show ?thesis using same j down empty by simp
    qed
  qed (use keep ok exit down empty in auto)
qed

lemma quitting_wake [simp]: "quitting (wake c k) = quitting k" "quitting (wake_each i k) = quitting k"
  "wake c k = H_Notify_All \<longleftrightarrow> k = H_Notify_All" "wake_each i k = H_Notify_All \<longleftrightarrow> k = H_Notify_All"
  "wake c k = H_Notify k' \<longleftrightarrow> k = H_Notify k'" "wake_each i k = H_Notify k' \<longleftrightarrow> k = H_Notify k'"
  by (cases k; simp)+

lemma worker_inv:
  assumes inv: "host_inv n s" and i: "i < n" and step: "host_worker_step call i s = Some s'"
  shows "host_inv n s'"
proof -
  note e = worker_effect[OF inv step] and wk = worker_wakes[OF step]
  have q: "quitting (hs_client s') = quitting (hs_client s)" "hs_client s' = H_Notify_All \<longleftrightarrow> hs_client s = H_Notify_All"
    unfolding wk by (simp_all split: host_worker.splits)
  have blk: "hs_deque s' = [] \<and> \<not> hs_quit s" if "hs_worker s' i = W_Blocked"
    using step that by (cases "hs_worker s i")
      (auto simp: host_worker_step_def acquire_def worker_res_def at_worker_def result_simps split: if_splits sum.splits list.splits)
  have "hs_worker s' j \<noteq> W_Blocked" if "hs_quit s'" "hs_client s' \<noteq> H_Notify_All" for j
    using that blk host_invD(6)[OF inv, of j] e(1) e(2)[of j] q(2) by (cases "j = i") auto
  moreover have "\<exists>j < n. hs_worker s' j \<noteq> W_Blocked" if "hs_deque s' \<noteq> []" using blk that i by blast
  ultimately show ?thesis
    unfolding host_inv_def
    using worker_locks[OF inv i step] worker_oks[OF inv i step] worker_client[OF inv i step] e(1) q(1) host_invD(5)[OF inv]
    by blast
qed

text \<open>The client.\<close>

lemma host_invI:
  assumes "host_inv n s" "hs_worker s' = hs_worker s" "hs_lock s' = hs_lock s" "hs_ready s' = hs_ready s" "hs_quit s' = hs_quit s"
    "hs_deque s' = hs_deque s" "client_ok n s' (hs_client s')" "quitting (hs_client s') = quitting (hs_client s)"
    "hs_client s' = H_Notify_All \<longleftrightarrow> hs_client s = H_Notify_All" "\<And>k. hs_client s \<noteq> H_Notify k"
  shows "host_inv n s'"
  using assms(1,7,10) unfolding host_inv_def assms(2-6,8,9) by blast

lemma going_on_ok: "going_on k \<Longrightarrow> client_ok n s k \<and> \<not> quitting k \<and> k \<noteq> H_Notify_All"
  by (cases k) auto

lemma free_lock: "host_inv n s \<Longrightarrow> hs_lock s = None \<Longrightarrow> \<not> holds (hs_worker s i)"
  using host_invD(1) by fastforce

lemma push_inv:
  assumes inv: "host_inv n s" and pc: "hs_client s = H_Push p k" and step: "host_client_step n pick s = Some s'"
  shows "host_inv n s'"
proof -
  have s': "hs_lock s = None" "s' = s\<lparr>hs_deque := hs_deque s @ [p], hs_client := H_Notify k, hs_todo := tl (hs_todo s),
      hs_phase := (hs_phase s)(p := Queued), hs_sent := hs_sent s @ [p]\<rparr>"
    using step pc by (auto simp: host_client_step_def split: if_splits)
  have "worker_ok (hs_quit s) True (hs_ready s i) (hs_worker s i)" for i
    using host_invD(3)[OF inv, of i] free_lock[OF inv s'(1)] by (blast intro: worker_ok_idle)
  then show ?thesis using inv pc unfolding s'(2) by (auto simp: host_inv_def)
qed

lemma notify_inv:
  assumes inv: "host_inv n s" and pc: "hs_client s = H_Notify k" and step: "host_client_step n pick s = Some s'"
  shows "host_inv n s'"
proof -
  have k: "going_on k" using host_invD(4)[OF inv] pc by simp
  have q: "\<not> hs_quit s" using host_invD(5)[OF inv] pc by simp
  consider (wake) "pick < n" "hs_worker s pick = W_Blocked" "s' = at_worker pick W_Woken (s\<lparr>hs_client := k\<rparr>)"
    | (none) "\<forall>i < n. hs_worker s i \<noteq> W_Blocked" "s' = s\<lparr>hs_client := k\<rparr>"
    using step pc by (auto simp: host_client_step_def list_all_iff split: if_splits)
  then show ?thesis
  proof cases
    case wake
    have "holds (hs_worker s' i) \<longleftrightarrow> hs_lock s' = Some i" "i \<ge> n \<Longrightarrow> hs_worker s' i = W_Start"
      "worker_ok (hs_quit s') (hs_deque s' \<noteq> []) (hs_ready s' i) (hs_worker s' i)" for i
      using host_invD(1-3)[OF inv, of i] wake by (auto simp: at_worker_def)
    moreover have "\<exists>i < n. hs_worker s' i \<noteq> W_Blocked" using wake by (auto simp: at_worker_def)
    ultimately show ?thesis
      unfolding host_inv_def using going_on_ok[OF k, of n s'] q wake(3) by (auto simp: at_worker_def)
  next
    case none
    then show ?thesis using inv going_on_ok[OF k, of n s'] going_on_ok[OF k] q by (auto simp: host_inv_def)
  qed
qed

lemma quit_inv:
  assumes inv: "host_inv n s" and pc: "hs_client s = H_Quit" and step: "host_client_step n pick s = Some s'"
  shows "host_inv n s'"
proof -
  have s': "hs_lock s = None" "s' = s\<lparr>hs_quit := True, hs_client := H_Notify_All\<rparr>"
    using step pc by (auto simp: host_client_step_def split: if_splits)
  have "\<not> hs_quit s" using host_invD(5)[OF inv] pc by simp
  then have "worker_ok True (hs_deque s \<noteq> []) (hs_ready s i) (hs_worker s i)" for i
    using host_invD(3)[OF inv, of i] free_lock[OF inv s'(1), of i] by (intro worker_ok_quit) simp_all
  then show ?thesis using inv pc unfolding s'(2) by (auto simp: host_inv_def)
qed

lemma notify_all_inv:
  assumes inv: "host_inv n s" and pc: "hs_client s = H_Notify_All" and step: "host_client_step n pick s = Some s'"
  shows "host_inv n s'"
proof -
  let ?ws = "\<lambda>i. if hs_worker s i = W_Blocked then W_Woken else hs_worker s i"
  have s': "s' = s\<lparr>hs_client := H_Join 0, hs_worker := ?ws\<rparr>" using step pc by (simp add: host_client_step_def)
  have "holds (?ws i) \<longleftrightarrow> hs_lock s = Some i" "i \<ge> n \<Longrightarrow> ?ws i = W_Start"
    "worker_ok (hs_quit s) (hs_deque s \<noteq> []) (hs_ready s i) (?ws i)" for i
    using host_invD(1-3)[OF inv, of i] by auto
  moreover have "hs_quit s" using host_invD(5)[OF inv] pc by simp
  ultimately show ?thesis unfolding s' host_inv_def by auto
qed

lemma host_client_inv:
  assumes inv: "host_inv n s" and step: "host_client_step n pick s = Some s'"
  shows "host_inv n s'"
proof (cases "hs_client s")
  case (H_Push p k)
  then show ?thesis using push_inv[OF inv _ step] by blast
next
  case (H_Notify k)
  then show ?thesis using notify_inv[OF inv _ step] by blast
next
  case H_Quit
  then show ?thesis using quit_inv[OF inv _ step] by blast
next
  case H_Notify_All
  then show ?thesis using notify_all_inv[OF inv _ step] by blast
next
  case (H_Group g i c)
  show ?thesis
    using inv by (rule host_invI) (use step H_Group in \<open>auto simp: host_client_step_def client_res_def split: sum.splits option.splits\<close>)
next
  case (H_Await x c)
  show ?thesis
    using inv by (rule host_invI)
      (use step H_Await in \<open>auto simp: host_client_step_def client_res_def event_counter_done_host_def result_simps mem_simps
        split: sum.splits if_splits\<close>)
next
  case (H_Free x c)
  show ?thesis
    using inv by (rule host_invI) (use step H_Free in \<open>auto simp: host_client_step_def client_res_def split: sum.splits\<close>)
next
  case (H_Each i)
  have "client_ok n s (hs_client s)" using inv by (rule host_invD)
  then show ?thesis
    by (intro host_invI[OF inv]) (use step H_Each in \<open>auto simp: host_client_step_def less_Suc_eq split: if_splits\<close>)
next
  case (H_Join i)
  have "client_ok n s (hs_client s)" using inv by (rule host_invD)
  then show ?thesis
    by (intro host_invI[OF inv]) (use step H_Join in \<open>auto simp: host_client_step_def less_Suc_eq split: if_splits\<close>)
next
  case H_Size
  then have "s' = s \<or> hs_deque s = [] \<and> s' = s\<lparr>hs_client := H_Each 0\<rparr>"
    using step by (auto simp: host_client_step_def split: if_splits)
  then show ?thesis using inv H_Size by (auto intro!: host_invI[OF inv])
next
  case H_Delete
  have "client_ok n s (hs_client s)" using inv by (rule host_invD)
  then show ?thesis
    by (intro host_invI[OF inv]) (use step H_Delete in \<open>auto simp: host_client_step_def\<close>)
qed (use step in \<open>auto simp: host_client_step_def\<close>)

lemma client_ok_wake:
  assumes ok: "client_ok n s c" and same: "hs_mem s' = hs_mem s" "hs_deque s' = hs_deque s" "hs_ready s' = hs_ready s"
    and wk: "\<And>j. hs_worker s j \<noteq> W_Blocked \<Longrightarrow> hs_worker s' j = hs_worker s j"
  shows "client_ok n s' c"
proof -
  have wk': "hs_worker s' j = d" if "hs_worker s j = d" "d \<noteq> W_Blocked" for j d using wk that by simp
  show ?thesis
  proof (cases c)
    case (H_Blocked x e)
    then show ?thesis using ok wk' unfolding client_ok.simps H_Blocked same by blast
  qed (use ok wk' in \<open>auto simp: same\<close>)
qed

lemma host_step_inv:
  assumes inv: "host_inv n s" and step: "host_step call n s s'"
  shows "host_inv n s'"
  using step
proof cases
  case (worker i)
  then show ?thesis using worker_inv[OF inv] by blast
next
  case (client pick)
  then show ?thesis using host_client_inv[OF inv] by blast
next
  case (spurious_worker i)
  have "holds (hs_worker s' j) \<longleftrightarrow> hs_lock s' = Some j" "j \<ge> n \<Longrightarrow> hs_worker s' j = W_Start"
    "worker_ok (hs_quit s') (hs_deque s' \<noteq> []) (hs_ready s' j) (hs_worker s' j)" for j
    using host_invD(1-3)[OF inv, of j] spurious_worker by (auto simp: at_worker_def)
  moreover have "client_ok n s' (hs_client s')"
  proof -
    have "client_ok n s (hs_client s)" using inv by (rule host_invD)
    then have "client_ok n s' (hs_client s)"
      by (rule client_ok_wake) (use spurious_worker in \<open>auto simp: at_worker_def\<close>)
    then show ?thesis using spurious_worker by (simp add: at_worker_def)
  qed
  ultimately show ?thesis
    unfolding host_inv_def using host_invD(5,6)[OF inv] spurious_worker by (auto simp: at_worker_def)
next
  case (spurious_await x c)
  then show ?thesis using inv by (auto intro!: host_invI[OF inv])
next
  case (spurious_each i)
  have "client_ok n s (hs_client s)" using inv by (rule host_invD)
  then show ?thesis using spurious_each inv by (auto intro!: host_invI[OF inv])
qed (use inv in \<open>auto intro!: host_invI[OF inv] simp: client_res_def mark_added_def split: sum.splits\<close>)

lemma host_reach_inv: "host_reach call n s \<Longrightarrow> host_inv n s"
  unfolding host_reach_def by (induction rule: reach.induct) (auto intro: host_init_inv host_step_inv)

section \<open>Nobody is stuck\<close>

lemma host_worker_stuck:
  "host_worker_step call i s = None \<longleftrightarrow> hs_worker s i = W_Blocked \<or> hs_worker s i = W_Exit \<or> (\<exists>e. hs_worker s i = W_Fault e) \<or>
     hs_lock s \<noteq> None \<and> (hs_worker s i = W_Start \<or> hs_worker s i = W_Woken \<or> hs_worker s i = W_Relock)"
  by (cases "hs_worker s i") (auto simp: host_worker_step_def acquire_def worker_res_def split: list.splits)

lemma host_client_stuck:
  assumes "\<forall>pick. host_client_step n pick s = None" and lock: "hs_lock s = None"
  shows "hs_client s = H_Idle \<or> hs_client s = H_Gone \<or> (\<exists>x c. hs_client s = H_Blocked x c) \<or> (\<exists>j. hs_client s = H_Each_Blocked j) \<or>
     (\<exists>j. hs_client s = H_Join j \<and> j < n \<and> hs_worker s j \<noteq> W_Exit) \<or> (\<exists>e. hs_client s = H_Fault e)"
proof (cases "hs_client s")
  case (H_Notify k)
  show ?thesis
  proof (cases "\<exists>i < n. hs_worker s i = W_Blocked")
    case True
    then obtain i where "i < n" "hs_worker s i = W_Blocked" by blast
    then have "host_client_step n i s \<noteq> None" using H_Notify by (simp add: host_client_step_def)
    then show ?thesis using assms(1)[rule_format, of i] by simp
  next
    case False
    then have "host_client_step n 0 s \<noteq> None" using H_Notify by (auto simp: host_client_step_def list_all_iff)
    then show ?thesis using assms(1)[rule_format, of 0] by simp
  qed
next
  case (H_Join j)
  have "host_client_step n 0 s = None" using assms(1) by blast
  then show ?thesis using H_Join by (auto simp: host_client_step_def split: if_splits)
qed (use assms(1)[rule_format, of 0] lock in \<open>auto simp: host_client_step_def client_res_def split: if_splits\<close>)

lemma abs_performing [simp]: "abs_worker w = K_Perform p \<longleftrightarrow> w = W_Perform p" "abs_worker w \<noteq> K_Claim p"
  by (cases w; simp)+

lemma host_tasks:
  assumes "host_reach call n s"
  shows "distinct (hs_sent s) \<and> distinct (hs_done s @ hs_deque s) \<and>
     set (hs_sent s) = set (hs_done s) \<union> set (hs_deque s) \<union> {p. \<exists>i < n. hs_worker s i = W_Perform p} \<and>
     (\<forall>p i. hs_worker s i = W_Perform p \<longrightarrow> p \<notin> set (hs_done s @ hs_deque s) \<and> (\<forall>j. hs_worker s j = W_Perform p \<longrightarrow> j = i))"
proof -
  obtain len a Z where r: "ideal_reach call n len a" and rel: "host_rel Z a s" using assms by (rule host_reach_sim)
  from ideal.tasks_once[OF r TrueI] show ?thesis by (simp add: host_relD[OF rel])
qed

text \<open>A waiting client waits for a task that is on its way.\<close>

lemma await_outstanding:
  assumes reach: "host_reach call n s" and pc: "hs_client s = H_Blocked x c"
    and h: "heap (hs_mem s) c = Some (Counter_Host h)" "eh_count h \<noteq> 0"
  shows "hs_deque s \<noteq> [] \<or> (\<exists>i. abs_worker (hs_worker s i) \<noteq> K_Receive)"
proof -
  obtain len a Z where r: "ideal_reach call n len a" and rel: "host_rel Z a s" using reach by (rule host_reach_sim)
  have l: "link_inv (ds_phase a) (ds_todo a) (ds_queue a) (ds_worker a)"
    and ti: "task_inv (ds_mem a) (ds_phase a) (ds_batch a) (unset (ds_client a) (ds_todo a))"
    and ci: "client_pc_inv (ds_mem a) (ds_batch a) (ds_todo a) (ds_client a)"
    using ideal_inv[OF r] by (auto elim: disp_invE)
  have pca: "ds_client a = C_Await x c" using host_relD(5)[OF rel] pc by simp
  then have todo: "ds_todo a = []" and x: "target_inv (ds_mem a) (ds_batch a) x c" using ci by simp_all
  obtain cr where cr: "heap (ds_mem a) c = Some (Counter_Rtos cr)"
    "unat (es_count cr) = card (outstanding (ds_phase a) (ds_batch a) c)"
    using batch_counter_rtos[OF r ideal.target_ran[OF x]] by blast
  have "h = \<lparr>eh_count = es_count cr\<rparr>" using mem_rel_counter(1)[OF host_relD(1)[OF rel] cr(1)] h(1) by simp
  then have "outstanding (ds_phase a) (ds_batch a) c \<noteq> {}" using cr(2) h(2) by (auto simp: unat_eq_zero)
  then obtain p where p: "ds_batch a p = Some c" "ds_phase a p \<noteq> Finished" by (auto simp: outstanding_def)
  have "ds_phase a p \<noteq> Unknown" using ti p(1) unfolding task_inv_def by blast
  moreover have "ds_phase a p \<noteq> Todo" using link_phase(1)[OF l, of p] todo by simp
  ultimately consider "p \<in> set (ds_queue a)" | i where "work (ds_worker a i) = Some p"
    using p(2) link_phase(2)[OF l, of p] link_phase(3)[OF l, of _ p] by (cases "ds_phase a p") auto
  then show ?thesis
  proof cases
    case (2 i)
    then have "abs_worker (hs_worker s i) \<noteq> K_Receive" using host_relD(4)[OF rel, of i] by auto
    then show ?thesis by blast
  qed (use host_relD(3)[OF rel] in auto)
qed

lemma host_stuck:
  assumes reach: "host_reach call n s" and n: "0 < n" and ok: "\<forall>i < n. \<forall>e. hs_worker s i \<noteq> W_Fault e"
    and workers: "\<forall>i < n. host_worker_step call i s = None" and client: "\<forall>pick. host_client_step n pick s = None"
  shows "hs_client s = H_Idle \<and> (\<forall>i < n. hs_worker s i = W_Blocked) \<and> hs_deque s = [] \<and> set (hs_sent s) = set (hs_done s) \<or>
     hs_client s = H_Gone \<and> (\<forall>i < n. hs_worker s i = W_Exit)"
proof -
  have inv: "host_inv n s" using reach by (rule host_reach_inv)
  have lock: "hs_lock s = None"
  proof (rule ccontr)
    assume "hs_lock s \<noteq> None"
    then obtain j where "holds (hs_worker s j)" using host_invD(1)[OF inv] by blast
    moreover from this have "j < n" using host_invD(2)[OF inv, of j] by (cases "j < n") auto
    ultimately show False using workers host_worker_stuck[of call j s] by (cases "hs_worker s j") auto
  qed
  have rest: "hs_worker s i = W_Blocked \<or> hs_worker s i = W_Exit" if "i < n" for i
    using workers[rule_format, OF that] ok that lock unfolding host_worker_stuck by blast
  have exit: "hs_quit s" if "hs_worker s i = W_Exit" for i using host_invD(3)[OF inv, of i] that by simp
  have quiet: "hs_deque s = []" if "\<not> hs_quit s" "\<forall>k. hs_client s \<noteq> H_Notify k"
    using host_invD(7)[OF inv _ n] rest exit that by blast
  have recv: "abs_worker (hs_worker s i) = K_Receive" for i
    using rest[of i] host_invD(2)[OF inv, of i] by (cases "i < n") auto
  have cl: "client_ok n s (hs_client s)" and q: "hs_quit s \<longleftrightarrow> quitting (hs_client s)" using inv by (rule host_invD)+
  from host_client_stuck[OF client lock] show ?thesis
  proof (elim disjE exE conjE)
    assume idle: "hs_client s = H_Idle"
    then have "hs_deque s = []" "\<forall>i < n. hs_worker s i = W_Blocked" using q quiet rest exit by auto
    moreover from this have "set (hs_sent s) = set (hs_done s)" using host_tasks[OF reach] by auto
    ultimately show ?thesis using idle by blast
  next
    fix x c
    assume b: "hs_client s = H_Blocked x c"
    then obtain h where h: "heap (hs_mem s) c = Some (Counter_Host h)"
      "eh_count h = 0 \<longrightarrow> (\<exists>i < n. hs_worker s i = W_Check c \<or> hs_worker s i = W_Notify c)" using cl by auto
    have "eh_count h \<noteq> 0" using h(2) rest by fastforce
    from await_outstanding[OF reach b h(1) this] recv quiet q b show ?thesis by auto
  next
    fix j
    assume j: "hs_client s = H_Each_Blocked j"
    then have "hs_worker s j = W_Blocked" using cl rest[of j] q exit by auto
    then show ?thesis using cl j host_invD(3)[OF inv, of j] by simp
  next
    fix j
    assume "hs_client s = H_Join j" "j < n" "hs_worker s j \<noteq> W_Exit"
    then show ?thesis using rest[of j] host_invD(6)[OF inv, of j] q by simp
  next
    fix e
    assume e: "hs_client s = H_Fault e"
    obtain len a Z where "ideal_reach call n len a" "host_rel Z a s" using reach by (rule host_reach_sim)
    then show ?thesis using ideal_ok(2)[of call n len a a e] host_relD(5) e by fastforce
  qed (use cl in auto)
qed

text \<open>Where a worker can fault.\<close>

lemma worker_fault:
  assumes reach: "host_reach call n s" and i: "i < n" and step: "host_worker_step call i s = Some s'"
    and fault: "hs_worker s' i = W_Fault e"
  shows "\<exists>c. (hs_worker s i = W_Check c \<or> hs_worker s i = W_Notify c) \<and> (\<forall>h. load_counter_host c (hs_mem s) \<noteq> Inr h)"
proof -
  obtain len a Z where r: "ideal_reach call n len a" and rel: "host_rel Z a s" using reach by (rule host_reach_sim)
  have "hs_worker s i \<noteq> W_Pop"
    using worker_own[OF host_reach_inv[OF reach] step] host_invD(3)[OF host_reach_inv[OF reach], of i] step fault
    by (auto simp: host_worker_step_def at_worker_def split: list.splits)
  then obtain c where c: "hs_worker s i = W_Check c \<or> hs_worker s i = W_Notify c"
    using worker_sim(2)[OF r rel i step fault] by blast
  moreover have "load_counter_host c (hs_mem s) \<noteq> Inr h" for h
    using c step fault
    by (auto simp: host_worker_step_def worker_res_def at_worker_def event_counter_done_host_def split: if_splits)
  ultimately show ?thesis by blast
qed

section \<open>A small system\<close>

text \<open>One worker; a waitable task at 1, another one at 2. The client adds the task at 1.\<close>

definition host_mem :: mem where
  "host_mem = \<lparr>brk = 2, oom = (\<lambda>_. False), heap = [
     1 \<mapsto> Task \<lparr>task_function = 5, task_argument = 7, task_waitable = True, task_private_data = 0\<rparr>,
     2 \<mapsto> Task \<lparr>task_function = 5, task_argument = 8, task_waitable = False, task_private_data = 0\<rparr>]\<rparr>"

definition host_call :: "fptr \<Rightarrow> ptr \<Rightarrow> nat \<Rightarrow> nat" where
  "host_call f a u = u + a"

definition host_sys0 :: "nat host_sys" where
  "host_sys0 = dispatch_queue_create_host host_mem 0"

definition host_added :: "nat host_sys" where
  "host_added = the (client_res host_sys0 (task_add_host 1 host_mem) (\<lambda>(counter, m).
     mark_added [1] True counter (host_sys0\<lparr>hs_mem := m, hs_client := H_Push 1 H_Idle\<rparr>)))"

text \<open>\<open>Some i\<close> is a step of worker \<open>i\<close>, \<open>None\<close> one of the client, notifying worker 0.\<close>

fun host_run :: "nat option list \<Rightarrow> nat host_sys \<Rightarrow> nat host_sys option" where
  "host_run [] s = Some s"
| "host_run (e # es) s =
     (case (case e of None \<Rightarrow> host_client_step 1 0 s | Some i \<Rightarrow> host_worker_step host_call i s) of
        None \<Rightarrow> None
      | Some s \<Rightarrow> host_run es s)"

lemma host_run_steps:
  "host_run es s = Some s' \<Longrightarrow> set es \<subseteq> {None, Some 0} \<Longrightarrow> (host_step host_call 1)\<^sup>*\<^sup>* s s'"
proof (induction es arbitrary: s)
  case (Cons e es)
  then obtain t where t: "host_run es t = Some s'"
    "(case e of None \<Rightarrow> host_client_step 1 0 s | Some i \<Rightarrow> host_worker_step host_call i s) = Some t"
    by (auto split: option.splits)
  have "host_step host_call 1 s t"
    using t(2) Cons.prems(2) by (cases e) (auto intro: host_step.worker host_step.client)
  moreover have "(host_step host_call 1)\<^sup>*\<^sup>* t s'" using Cons.IH t(1) Cons.prems(2) by simp
  ultimately show ?case by (rule converse_rtranclp_into_rtranclp)
qed simp

lemma host_sys0_init: "host_init host_sys0"
  by (auto simp: host_init_def host_sys0_def host_mem_def mem_ok_def intro!: exI[of _ host_mem] exI[of _ 0]
      split: if_splits)

lemma host_added_step: "host_step host_call 1 host_sys0 host_added"
proof (rule host_step.task_add[where w = True and task = 1])
  show "hs_client host_sys0 = H_Idle" "addable host_sys0 True 1" "has_room host_sys0"
    by (simp_all add: host_sys0_def dispatch_queue_create_host_def dispatch_queue_init_host_def addable_def has_room_def host_mem_def)
  then show "client_res host_sys0 (task_add_host 1 (hs_mem host_sys0)) (\<lambda>(counter, m).
      mark_added [1] True counter (host_sys0\<lparr>hs_mem := m, hs_client := H_Push 1 H_Idle\<rparr>)) = Some host_added"
    by (simp add: host_added_def client_res_def host_sys0_def dispatch_queue_create_host_def dispatch_queue_init_host_def)
qed

text \<open>The client waits; the worker has performed the task and counted down.\<close>

definition host_sent :: "nat host_sys" where
  "host_sent = the (host_run [None, None] host_added)"

definition host_waiting :: "nat host_sys" where
  "host_waiting = the (host_run (replicate 11 (Some 0)) (host_sent\<lparr>hs_client := H_Await (For_Task 1) 3\<rparr>))"

lemma client_batch:
  "host_client_step n pick s = Some s' \<Longrightarrow> \<forall>x c. hs_client s \<noteq> H_Free x c \<Longrightarrow> hs_batch s' = hs_batch s"
  by (cases "hs_client s")
    (auto simp: host_client_step_def client_res_def at_worker_def split: if_splits sum.splits option.splits)

lemma host_waiting_run: "(host_step host_call 1)\<^sup>*\<^sup>* host_sys0 host_waiting"
proof -
  let ?await = "host_sent\<lparr>hs_client := H_Await (For_Task 1) 3\<rparr>"
  have "host_run [None, None] host_added \<noteq> None" by code_simp
  then have run: "host_run [None, None] host_added = Some host_sent" by (auto simp: host_sent_def)
  then have sent: "(host_step host_call 1)\<^sup>*\<^sup>* host_added host_sent" by (rule host_run_steps) auto
  have await: "host_step host_call 1 host_sent ?await"
  proof (rule host_step.task_wait[where task = 1 and c = 3])
    show "hs_client host_sent = H_Idle" by code_simp
    have "hs_batch host_added p = (if p = 1 then Some 3 else None)" for p
      by (simp add: host_added_def client_res_def task_add_host_def host_mem_def assertE_def load_task_def load_def
          event_counter_create_host_def malloc_def store_def mark_added_def host_sys0_def dispatch_queue_create_host_def
          dispatch_queue_init_host_def)
    moreover have "hs_batch host_sent = hs_batch host_added"
    proof -
      obtain t where t: "host_client_step 1 0 host_added = Some t" "host_client_step 1 0 t = Some host_sent"
        using run by (auto split: option.splits)
      have push: "hs_client host_added = H_Push 1 H_Idle" by code_simp
      then have "hs_client t = H_Notify H_Idle" using t(1) by (auto simp: host_client_step_def split: if_splits)
      then show ?thesis using client_batch[OF t(1)] client_batch[OF t(2)] push by simp
    qed
    ultimately show "{p. hs_batch host_sent p = Some 3} = {1}" by auto
    have "task_wait_counter 1 (hs_mem host_sent) = Inr 3" by code_simp
    then show "client_res host_sent (task_wait_counter 1 (hs_mem host_sent)) (\<lambda>counter.
        host_sent\<lparr>hs_client := H_Await (For_Task 1) counter\<rparr>) = Some ?await"
      by (simp add: client_res_def)
  qed
  have "host_run (replicate 11 (Some 0)) ?await \<noteq> None" by code_simp
  then have "host_run (replicate 11 (Some 0)) ?await = Some host_waiting" by (auto simp: host_waiting_def)
  then have "(host_step host_call 1)\<^sup>*\<^sup>* ?await host_waiting" by (rule host_run_steps) auto
  with host_added_step sent await show ?thesis
    by (meson converse_rtranclp_into_rtranclp rtranclp.rtrancl_into_rtrancl rtranclp_trans)
qed

lemma host_run_waiting:
  assumes "set es \<subseteq> {None, Some 0}" "host_run es host_waiting \<noteq> None"
  shows "(host_step host_call 1)\<^sup>*\<^sup>* host_sys0 (the (host_run es host_waiting))"
    and "host_reach host_call 1 (the (host_run es host_waiting))"
proof -
  have "host_run es host_waiting = Some (the (host_run es host_waiting))" using assms(2) by auto
  then have "(host_step host_call 1)\<^sup>*\<^sup>* host_waiting (the (host_run es host_waiting))" using assms(1) by (rule host_run_steps)
  with host_waiting_run show run: "(host_step host_call 1)\<^sup>*\<^sup>* host_sys0 (the (host_run es host_waiting))" by (rule rtranclp_trans)
  have "host_reach host_call 1 host_sys0" unfolding host_reach_def using host_sys0_init by (rule reach.reach_init)
  then show "host_reach host_call 1 (the (host_run es host_waiting))"
    using run unfolding host_reach_def by (rule reach_rtranclp)
qed

section \<open>Properties\<close>

text \<open>C14: the host implements the dispatch queue. Every run of the threads of \<open>dispatch_queue_host.cc\<close> is a run
  of the specification, the system of workers and client that the bare-metal and the FreeRTOS
  implementations run too, given a queue with enough room; the two agree on the application, on
  the tasks queued, sent and performed, on what every worker does with its task, and on the
  store up to the representation of event counters and the tasks of a group that was waited for.\<close>

theorem host_refines:
  assumes "host_init s0" "(host_step call n)\<^sup>*\<^sup>* s0 s"
  shows "\<exists>l0. \<forall>len \<ge> l0. \<exists>a Z. (disp_step ideal_platform binary_notes (\<lambda>n. n) call 1 n len)\<^sup>*\<^sup>*
       (idle_system (hs_mem s0) (\<lambda>_. 0) (hs_app s0)) a \<and>
     ds_app a = hs_app s \<and> ds_queue a = hs_deque s \<and> ds_sent a = hs_sent s \<and> ds_done a = hs_done s \<and>
     (\<forall>i. ds_worker a i = abs_worker (hs_worker s i)) \<and> ds_client a = abs_client (hs_client s) \<and>
     mem_rel Z (ds_mem a) (hs_mem s)"
  using host_run_sim[OF assms] unfolding host_rel_def by meson

theorem host_refines_witness:
  "\<exists>len a. (disp_step ideal_platform binary_notes (\<lambda>n. n) host_call 1 1 len)\<^sup>*\<^sup>*
       (idle_system host_mem (\<lambda>_. 0) 0) a \<and> ds_app a = 7 \<and> ds_done a = [1]"
proof -
  have mem: "hs_mem host_sys0 = host_mem" "hs_app host_sys0 = 0"
    by (simp_all add: host_sys0_def dispatch_queue_create_host_def dispatch_queue_init_host_def)
  have "hs_app host_waiting = 7" "hs_done host_waiting = [1]" by code_simp+
  then show ?thesis using host_refines[OF host_sys0_init host_waiting_run] unfolding mem by force
qed

text \<open>On the host, every task sent is in exactly one place, the deque, a worker or the performed ones, and no
  task is performed twice or lost; the deque is first-in first-out by construction of the model.\<close>

theorem host_tasks_once:
  assumes "host_reach call n s"
  shows "distinct (hs_sent s) \<and> distinct (hs_done s @ hs_deque s) \<and>
     set (hs_sent s) = set (hs_done s) \<union> set (hs_deque s) \<union> {p. \<exists>i < n. hs_worker s i = W_Perform p} \<and>
     (\<forall>p i. hs_worker s i = W_Perform p \<longrightarrow> p \<notin> set (hs_done s @ hs_deque s) \<and> (\<forall>j. hs_worker s j = W_Perform p \<longrightarrow> j = i))"
  using assms by (rule host_tasks)

theorem host_tasks_once_witness:
  "\<exists>s. host_reach host_call 1 s \<and> hs_sent s = [1] \<and> set (hs_done s) \<union> set (hs_deque s) \<union> {p. \<exists>i < 1. hs_worker s i = W_Perform p} = {1}"
proof -
  have r: "host_reach host_call 1 (the (host_run [] host_waiting))" by (rule host_run_waiting(2)) auto
  have sent: "hs_sent (the (host_run [] host_waiting)) = [1]" by code_simp
  obtain s where s: "host_reach host_call 1 s" "hs_sent s = [1]" using r sent by blast
  have "set (hs_sent s) = set (hs_done s) \<union> set (hs_deque s) \<union> {p. \<exists>i < 1. hs_worker s i = W_Perform p}"
    using host_tasks_once[OF s(1)] by blast
  with s show ?thesis by (intro exI[of _ s]) simp
qed

text \<open>C15: on the host, when \<open>dispatch_queue_task_wait\<close> or \<open>dispatch_queue_group_wait\<close> comes back from \<open>Wait\<close>, the task,
  or every task of the group, has been performed.\<close>

theorem host_wait_complete:
  assumes "host_reach call n s"
  shows "(\<forall>task c. hs_client s = H_Free (For_Task task) c \<longrightarrow> task \<in> set (hs_done s)) \<and>
     (\<forall>grp c l w ts. hs_client s = H_Free (For_Group grp) c \<and> group_rep (hs_mem s) grp l w ts \<longrightarrow> set ts \<subseteq> set (hs_done s))"
proof -
  obtain len a Z where r: "ideal_reach call n len a" and rel: "host_rel Z a s" using assms by (rule host_reach_sim)
  have "abs_client (hs_client s) = C_Free x c" if "hs_client s = H_Free x c" for x c using that by simp
  with ideal.wait_complete[OF r TrueI] show ?thesis
    unfolding host_relD[OF rel] mem_rel_group[OF host_relD(1)[OF rel], symmetric] by blast
qed

theorem host_wait_complete_witness:
  "\<exists>s. host_reach host_call 1 s \<and> hs_client s = H_Free (For_Task 1) 3 \<and> 1 \<in> set (hs_done s)"
proof -
  let ?s = "the (host_run [None] host_waiting)"
  have "host_run [None] host_waiting \<noteq> None" by code_simp
  then have r: "host_reach host_call 1 ?s" by (intro host_run_waiting) auto
  moreover have "hs_client ?s = H_Free (For_Task 1) 3" by code_simp
  ultimately show ?thesis using host_wait_complete[OF r] by blast
qed

text \<open>C16: \<open>dispatch_queue_wait\<close> of the host keeps its promise: when it returns, every task sent before has been
  performed. A worker takes back its ready signal under the mutex, before it removes the task
  from the deque.\<close>

theorem host_wait_all:
  assumes reach: "host_reach call n s" and step: "host_client_step n pick s = Some s'"
    and pc: "hs_client s = H_Each i" "hs_client s' = H_Idle"
  shows "set (hs_sent s') = set (hs_done s') \<and> hs_deque s' = [] \<and> (\<forall>j < n. \<forall>p. hs_worker s' j \<noteq> W_Perform p)"
proof -
  have s': "\<not> i < n" "s' = s\<lparr>hs_client := H_Idle\<rparr>" using step pc by (auto simp: host_client_step_def split: if_splits)
  have inv: "host_inv n s" using reach by (rule host_reach_inv)
  have "client_ok n s (hs_client s)" using inv by (rule host_invD)
  then have empty: "hs_deque s = []" and ready: "\<forall>j < n. hs_ready s j = 0" using pc s'(1) by auto
  have free: "\<forall>j < n. \<forall>p. hs_worker s j \<noteq> W_Perform p"
  proof (intro allI impI notI)
    fix j p
    assume "j < n" "hs_worker s j = W_Perform p"
    then show False using host_invD(3)[OF inv, of j] ready by simp
  qed
  have "set (hs_sent s) = set (hs_done s) \<union> set (hs_deque s) \<union> {p. \<exists>i < n. hs_worker s i = W_Perform p}"
    using host_tasks[OF reach] by blast
  then show ?thesis using empty free unfolding s'(2) by auto
qed

theorem host_wait_all_witness:
  "\<exists>s s'. host_reach host_call 1 s \<and> host_client_step 1 0 s = Some s' \<and> hs_client s = H_Each 1 \<and> hs_client s' = H_Idle \<and>
     hs_sent s = [1] \<and> set (hs_done s') = {1}"
proof -
  let ?s = "the (host_run (replicate 8 (Some 0) @ [None, None]) host_waiting)"
  let ?t = "?s\<lparr>hs_client := H_Size\<rparr>"
  let ?u = "the (host_run [None, None] ?t)"
  have "host_run (replicate 8 (Some 0) @ [None, None]) host_waiting \<noteq> None" by code_simp
  then have s: "host_reach host_call 1 ?s" by (intro host_run_waiting) auto
  have "hs_client ?s = H_Idle" by code_simp
  from host_reach_step[OF s host_step.wait_all[OF this]] have t: "host_reach host_call 1 ?t" .
  have "host_run [None, None] ?t \<noteq> None" by code_simp
  then have "host_run [None, None] ?t = Some ?u" by auto
  then have "(host_step host_call 1)\<^sup>*\<^sup>* ?t ?u" by (rule host_run_steps) auto
  with t have u: "host_reach host_call 1 ?u" unfolding host_reach_def by (rule reach_rtranclp)
  have pc: "hs_client ?u = H_Each 1" by code_simp
  have sent: "hs_sent ?u = [1]" by code_simp
  have step: "host_client_step 1 0 ?u = Some (?u\<lparr>hs_client := H_Idle\<rparr>)" unfolding host_client_step_def pc by simp
  from host_wait_all[OF u step pc] have "set (hs_done (?u\<lparr>hs_client := H_Idle\<rparr>)) = {1}" using sent by simp
  then show ?thesis using u step pc sent by (intro exI[of _ ?u] exI[of _ "?u\<lparr>hs_client := H_Idle\<rparr>"]) simp
qed

text \<open>C18: faults. The client never runs into a failed assertion or a dangling pointer, and a worker does so only
  in the last two accesses of \<open>Signal\<close>, reading \<open>count\<close> after it has released the mutex, or notifying,
  when the event counter has been deleted already.\<close>

theorem host_faults:
  assumes reach: "host_reach call n s" and i: "i < n" and step: "host_worker_step call i s = Some s'"
  shows "(\<forall>e. hs_client s \<noteq> H_Fault e) \<and> (hs_worker s' i = W_Fault e \<longrightarrow>
     (\<exists>c. (hs_worker s i = W_Check c \<or> hs_worker s i = W_Notify c) \<and> (\<forall>h. load_counter_host c (hs_mem s) \<noteq> Inr h)))"
proof -
  obtain len a Z where r: "ideal_reach call n len a" and rel: "host_rel Z a s" using reach by (rule host_reach_sim)
  have "hs_client s \<noteq> H_Fault e" for e
    using ideal_ok(2)[OF r, of a e] host_relD(5)[OF rel] by auto
  then show ?thesis using worker_fault[OF reach i step] by blast
qed

theorem host_faults_witness:
  "\<exists>s s'. host_reach host_call 1 s \<and> host_worker_step host_call 0 s = Some s' \<and> (\<forall>e. hs_client s \<noteq> H_Fault e)"
proof -
  have r: "host_reach host_call 1 (the (host_run [] host_waiting))" by (rule host_run_waiting(2)) auto
  have "host_worker_step host_call 0 (the (host_run [] host_waiting)) \<noteq> None" by code_simp
  then obtain s' where s': "host_worker_step host_call 0 (the (host_run [] host_waiting)) = Some s'" by blast
  show ?thesis using r s' host_faults[OF r _ s', of undefined] by auto
qed

text \<open>C19: and it happens. A worker performs the only task and counts its event counter down to 0; the client, in
  \<open>dispatch_queue_task_wait\<close>, finds 0, returns from \<open>Wait\<close>, deletes the event counter and returns; the
  worker, still in \<open>Signal\<close>, reads the \<open>count\<close> of the deleted object.\<close>

theorem host_signal_use_after_free:
  "\<exists>s s'. host_reach host_call 1 s \<and> hs_client s = H_Idle \<and> hs_done s = [1] \<and> hs_worker s 0 = W_Check 3 \<and>
     heap (hs_mem s) 3 = None \<and> host_worker_step host_call 0 s = Some s' \<and> hs_worker s' 0 = W_Fault Invalid_Pointer"
proof -
  let ?s = "the (host_run [None, None] host_waiting)"
  have "host_run [None, None] host_waiting \<noteq> None" by code_simp
  then have r: "host_reach host_call 1 ?s" by (intro host_run_waiting) auto
  have "hs_client ?s = H_Idle" "hs_done ?s = [1]" "hs_worker ?s 0 = W_Check 3" "heap (hs_mem ?s) 3 = None" by code_simp+
  with r obtain s where s: "host_reach host_call 1 s" "hs_client s = H_Idle" "hs_done s = [1]" "hs_worker s 0 = W_Check 3"
    "heap (hs_mem s) 3 = None" by blast
  have "host_worker_step host_call 0 s = Some (at_worker 0 (W_Fault Invalid_Pointer) s)"
    using s(4,5) by (simp add: host_worker_step_def worker_res_def event_counter_done_host_def load_counter_host_def load_def)
  with s show ?thesis by (intro exI[of _ s] exI) (auto simp: at_worker_def)
qed

text \<open>C20: \<open>dispatch_queue_delete\<close> of the host frees nothing under a running worker. When it has joined the threads and
  frees the semaphores and the dispatch queue, every worker has ended and holds no task; each
  task sent was performed, or is still in the deque and will never be.\<close>

theorem host_delete_joins:
  assumes reach: "host_reach call n s" and pc: "hs_client s = H_Delete \<or> hs_client s = H_Gone"
  shows "(\<forall>i < n. hs_worker s i = W_Exit \<and> host_worker_step call i s = None) \<and> hs_lock s = None \<and>
     set (hs_sent s) = set (hs_done s) \<union> set (hs_deque s)"
proof -
  have inv: "host_inv n s" using reach by (rule host_reach_inv)
  have "client_ok n s (hs_client s)" using inv by (rule host_invD)
  then have exit: "\<forall>i < n. hs_worker s i = W_Exit" using pc by auto
  have "\<not> holds (hs_worker s i)" for i using exit host_invD(2)[OF inv, of i] by (cases "i < n") auto
  then have "hs_lock s = None" using host_invD(1)[OF inv] by (metis not_None_eq)
  then show ?thesis using exit host_tasks[OF reach] host_worker_stuck[of call _ s] by auto
qed

theorem host_delete_joins_witness:
  "\<exists>s. host_reach host_call 1 s \<and> hs_client s = H_Delete \<and> hs_worker s 0 = W_Exit \<and> hs_sent s = [1] \<and>
     set (hs_done s) \<union> set (hs_deque s) = {1}"
proof -
  let ?s = "the (host_run (replicate 8 (Some 0) @ [None, None]) host_waiting)"
  let ?t = "?s\<lparr>hs_client := H_Quit\<rparr>"
  let ?es = "[None, None] @ replicate 4 (Some 0) @ [None, None]"
  have "host_run (replicate 8 (Some 0) @ [None, None]) host_waiting \<noteq> None" by code_simp
  then have s: "host_reach host_call 1 ?s" by (intro host_run_waiting) auto
  have "hs_client ?s = H_Idle" by code_simp
  from host_reach_step[OF s host_step.delete[OF this]] have t: "host_reach host_call 1 ?t" .
  have "host_run ?es ?t \<noteq> None" by code_simp
  then have "host_run ?es ?t = Some (the (host_run ?es ?t))" by auto
  then have "(host_step host_call 1)\<^sup>*\<^sup>* ?t (the (host_run ?es ?t))" by (rule host_run_steps) auto
  with t have u: "host_reach host_call 1 (the (host_run ?es ?t))" unfolding host_reach_def by (rule reach_rtranclp)
  have "hs_client (the (host_run ?es ?t)) = H_Delete" "hs_sent (the (host_run ?es ?t)) = [1]" by code_simp+
  with u obtain u where u: "host_reach host_call 1 u" "hs_client u = H_Delete" "hs_sent u = [1]" by blast
  from host_delete_joins[OF u(1)] u(2,3) have "hs_worker u 0 = W_Exit" "{1} = set (hs_done u) \<union> set (hs_deque u)" by auto
  with u show ?thesis by blast
qed

end
