(* ===== verification/Dispatch_Host_Returns.thy ===== *)
theory Dispatch_Host_Returns
  imports Dispatch_Host
begin

text \<open>
  The calls of the host come to an end. The steps that workers and client take by themselves,
  without a spurious wake-up or another call, each take something off the measure
  \<open>host_work_left\<close>; where they end, the client has returned (theory \<open>Dispatch_Host\<close>); and on the way
  a worker need not meet an event counter that is deleted already.
\<close>

section \<open>The steps the threads take by themselves\<close>

text \<open>
  A step of a worker or of the client. A turn of the loop in \<open>dispatch_queue_wait\<close> that finds tasks in
  the deque changes nothing and is not counted.
\<close>

definition host_own_step :: "(fptr \<Rightarrow> ptr \<Rightarrow> 'u \<Rightarrow> 'u) \<Rightarrow> nat \<Rightarrow> 'u host_sys \<Rightarrow> 'u host_sys \<Rightarrow> bool" where
  "host_own_step call n s s' \<longleftrightarrow>
     (\<exists>i < n. host_worker_step call i s = Some s') \<or> (\<exists>pick. host_client_step n pick s = Some s') \<and> s' \<noteq> s"

lemma host_own_step_reach: "host_reach call n s \<Longrightarrow> host_own_step call n s s' \<Longrightarrow> host_reach call n s'"
  unfolding host_own_step_def by (blast intro: host_reach_step host_step.worker host_step.client)

section \<open>The measure\<close>

text \<open>
  What a worker can do before it looks for a task again; a blocked one does nothing until it is
  woken. After \<open>quit\<close>, the end of the loop is the end of the worker.
\<close>

fun host_worker_left :: "bool \<Rightarrow> host_worker \<Rightarrow> nat" where
  "host_worker_left q (W_Perform p) = 16"
| "host_worker_left q (W_Finish p) = 15"
| "host_worker_left q (W_Signal p c) = 14"
| "host_worker_left q (W_Check c) = 13"
| "host_worker_left q (W_Notify c) = 12"
| "host_worker_left q W_Relock = 10"
| "host_worker_left q W_While = (if q then 1 else 9)"
| "host_worker_left q W_Start = 9"
| "host_worker_left q W_Ready = 8"
| "host_worker_left q W_Ready_Check = 7"
| "host_worker_left q W_Ready_Notify = 6"
| "host_worker_left q W_Woken = 5"
| "host_worker_left q W_Wait = 4"
| "host_worker_left q W_Branch = 3"
| "host_worker_left q W_Reset = 2"
| "host_worker_left q W_Pop = 1"
| "host_worker_left q c = 0"

fun host_client_left :: "nat \<Rightarrow> host_client \<Rightarrow> nat" where
  "host_client_left n (H_Group g i c) = 2"
| "host_client_left n (H_Push p k) = 1"
| "host_client_left n (H_Notify k) = 6 + host_client_left n k"
| "host_client_left n (H_Await x c) = 3"
| "host_client_left n (H_Blocked x c) = 2"
| "host_client_left n (H_Free x c) = 1"
| "host_client_left n H_Size = 2 * n + 2"
| "host_client_left n (H_Each j) = 2 * (n - j) + 1"
| "host_client_left n (H_Each_Blocked j) = 2 * (n - j)"
| "host_client_left n H_Quit = 6 * n + 4"
| "host_client_left n H_Notify_All = 6 * n + 3"
| "host_client_left n (H_Join j) = (n - j) + 2"
| "host_client_left n H_Delete = 1"
| "host_client_left n c = 0"

definition host_work_left :: "nat \<Rightarrow> 'u host_sys \<Rightarrow> nat" where
  "host_work_left n s = (\<Sum>i < n. host_worker_left (hs_quit s) (hs_worker s i)) + 16 * length (hs_deque s) +
     25 * length (hs_todo s) + host_client_left n (hs_client s)"

lemma host_worker_quit: "\<not> holds c \<Longrightarrow> host_worker_left q c = host_worker_left q' c"
  by (cases c) auto

lemma host_client_wake:
  "host_client_left n (wake c k) \<le> host_client_left n k + 1" "host_client_left n (wake_each i k) \<le> host_client_left n k + 1"
  by (cases k; simp)+

text \<open>A worker takes something off; it does not touch what is still to be sent.\<close>

lemma worker_rank:
  assumes inv: "host_inv n s" and step: "host_worker_step call i s = Some s'"
  shows "hs_todo s' = hs_todo s"
    and "host_worker_left (hs_quit s) (hs_worker s' i) + 16 * length (hs_deque s') + host_client_left n (hs_client s') <
      host_worker_left (hs_quit s) (hs_worker s i) + 16 * length (hs_deque s) + host_client_left n (hs_client s)"
proof -
  have "hs_todo s' = hs_todo s \<and>
    host_worker_left (hs_quit s) (hs_worker s' i) + 16 * length (hs_deque s') + host_client_left n (hs_client s') <
      host_worker_left (hs_quit s) (hs_worker s i) + 16 * length (hs_deque s) + host_client_left n (hs_client s)"
  proof (cases "hs_worker s i")
    case (W_Finish p)
    then show ?thesis using finish_step[OF step W_Finish] by (auto simp: at_worker_def)
  next
    case (W_Signal p c)
    then show ?thesis using signal_step[OF step W_Signal] by (auto simp: at_worker_def)
  next
    case (W_Notify c)
    then show ?thesis
      using step host_client_wake(1)[of n c "hs_client s"]
      by (auto simp: host_worker_step_def worker_res_def at_worker_def split: sum.splits)
  next
    case W_Ready_Notify
    then show ?thesis
      using step host_client_wake(2)[of n i "hs_client s"] by (auto simp: host_worker_step_def at_worker_def)
  qed (use step host_invD(3)[OF inv, of i] in \<open>auto simp: host_worker_step_def acquire_def worker_res_def at_worker_def
      split: if_splits sum.splits list.splits\<close>)
  then show "hs_todo s' = hs_todo s"
    "host_worker_left (hs_quit s) (hs_worker s' i) + 16 * length (hs_deque s') + host_client_left n (hs_client s') <
      host_worker_left (hs_quit s) (hs_worker s i) + 16 * length (hs_deque s) + host_client_left n (hs_client s)"
    by blast+
qed

lemma host_worker_step_left:
  assumes inv: "host_inv n s" and i: "i < n" and step: "host_worker_step call i s = Some s'"
  shows "host_work_left n s' < host_work_left n s"
proof -
  let ?f = "host_worker_left (hs_quit s)"
  note e = worker_effect[OF inv step]
  have "hs_worker s' = (hs_worker s)(i := hs_worker s' i)" using e(2) by auto
  then have "(\<Sum>j < n. ?f (hs_worker s' j)) + ?f (hs_worker s i) = (\<Sum>j < n. ?f (hs_worker s j)) + ?f (hs_worker s' i)"
    using sum_upd_less[OF i, of ?f "hs_worker s" "hs_worker s' i"] by simp
  then show ?thesis using worker_rank[OF inv step] e(1) by (simp add: host_work_left_def)
qed

text \<open>So does the client. What it pushes is the first of what it still has to send.\<close>

lemma push_todo:
  assumes "host_reach call n s" "hs_client s = H_Push p k"
  shows "\<exists>ts. hs_todo s = p # ts"
proof -
  obtain len a Z where r: "ideal_reach call n len a" and rel: "host_rel Z a s" using assms(1) by (rule host_reach_sim)
  have "client_pc_inv (ds_mem a) (ds_batch a) (ds_todo a) (ds_client a)" using ideal_inv[OF r] by (rule disp_invE)
  then show ?thesis using host_relD(5,6)[OF rel] assms(2) by auto
qed

lemma host_client_step_left:
  assumes reach: "host_reach call n s" and step: "host_client_step n pick s = Some s'" and new: "s' \<noteq> s"
  shows "host_work_left n s' < host_work_left n s"
proof -
  let ?q = "hs_quit s"
  have inv: "host_inv n s" using reach by (rule host_reach_inv)
  have ok: "client_ok n s (hs_client s)" using inv by (rule host_invD)
  show ?thesis
  proof (cases "hs_client s")
    case (H_Push p k)
    moreover obtain ts where "hs_todo s = p # ts" using push_todo[OF reach H_Push] by blast
    moreover have "host_client_left n k \<le> 2" using ok H_Push by (cases k) auto
    ultimately show ?thesis using step by (auto simp: host_client_step_def host_work_left_def split: if_splits)
  next
    case (H_Notify k)
    show ?thesis
    proof (cases "pick < n \<and> hs_worker s pick = W_Blocked")
      case True
      then have "s' = at_worker pick W_Woken (s\<lparr>hs_client := k\<rparr>)" using H_Notify step by (simp add: host_client_step_def)
      then show ?thesis
        using True H_Notify sum_upd_less[of pick n "host_worker_left ?q" "hs_worker s" W_Woken]
        by (simp add: host_work_left_def at_worker_def)
    next
      case False
      then show ?thesis using H_Notify step by (auto simp: host_client_step_def host_work_left_def split: if_splits)
    qed
  next
    case H_Quit
    then have s': "hs_lock s = None" "s' = s\<lparr>hs_quit := True, hs_client := H_Notify_All\<rparr>"
      using step by (auto simp: host_client_step_def split: if_splits)
    have "(\<Sum>j < n. host_worker_left True (hs_worker s j)) = (\<Sum>j < n. host_worker_left ?q (hs_worker s j))"
      using host_worker_quit[OF free_lock[OF inv s'(1)]] by (intro sum.cong) auto
    then show ?thesis using H_Quit by (simp add: host_work_left_def s'(2))
  next
    case H_Notify_All
    let ?w = "\<lambda>i. if hs_worker s i = W_Blocked then W_Woken else hs_worker s i"
    have s': "s' = s\<lparr>hs_client := H_Join 0, hs_worker := ?w\<rparr>" using H_Notify_All step by (simp add: host_client_step_def)
    have "(\<Sum>j < n. host_worker_left ?q (?w j)) \<le> (\<Sum>j < n. host_worker_left ?q (hs_worker s j) + 5)"
      by (intro sum_mono) auto
    then show ?thesis using H_Notify_All by (simp add: host_work_left_def s' sum.distrib)
  next
    case (H_Each j)
    then show ?thesis using step ok by (auto simp: host_client_step_def host_work_left_def split: if_splits)
  next
    case (H_Join j)
    then show ?thesis using step ok by (auto simp: host_client_step_def host_work_left_def split: if_splits)
  qed (use step new in \<open>auto simp: host_client_step_def client_res_def host_work_left_def
      split: if_splits sum.splits option.splits\<close>)
qed

lemma host_own_step_left:
  "host_reach call n s \<Longrightarrow> host_own_step call n s s' \<Longrightarrow> host_work_left n s' < host_work_left n s"
  unfolding host_own_step_def using host_worker_step_left[OF host_reach_inv] host_client_step_left by blast

lemma host_own_run_left:
  assumes "host_reach call n s" and "(host_own_step call n ^^ j) s s'"
  shows "j + host_work_left n s' \<le> host_work_left n s"
  using assms(2,1)
proof (induction j arbitrary: s)
  case (Suc j)
  from Suc.prems(1) obtain t where t: "host_own_step call n s t" "(host_own_step call n ^^ j) t s'"
    by (meson relpowp_Suc_E2)
  then show ?case
    using Suc.IH[OF t(2) host_own_step_reach[OF Suc.prems(2) t(1)]] host_own_step_left[OF Suc.prems(2) t(1)] by simp
qed simp

section \<open>Where the steps end\<close>

definition returned :: "nat \<Rightarrow> 'u host_sys \<Rightarrow> bool" where
  "returned n s \<longleftrightarrow>
     hs_client s = H_Idle \<and> (\<forall>i < n. hs_worker s i = W_Blocked) \<and> hs_deque s = [] \<and> set (hs_sent s) = set (hs_done s) \<or>
     hs_client s = H_Gone \<and> (\<forall>i < n. hs_worker s i = W_Exit)"

lemma size_again:
  "host_client_step n pick s = Some s \<Longrightarrow> hs_client s = H_Size \<and> hs_lock s = None \<and> hs_deque s \<noteq> []"
  by (cases "hs_client s")
    (auto simp: host_client_step_def client_res_def at_worker_def dest!: arg_cong[where f = hs_client]
      split: if_splits sum.splits option.splits)

lemma stuck_returned:
  assumes reach: "host_reach call n s" and n: "0 < n" and ok: "\<forall>i < n. \<forall>e. hs_worker s i \<noteq> W_Fault e"
    and stuck: "\<nexists>s'. host_own_step call n s s'"
  shows "returned n s"
proof -
  have workers: "\<forall>i < n. host_worker_step call i s = None"
    using stuck unfolding host_own_step_def by (meson not_Some_eq)
  have "host_client_step n pick s = None" for pick
  proof (rule ccontr)
    assume "host_client_step n pick s \<noteq> None"
    then have "host_client_step n pick s = Some s" using stuck unfolding host_own_step_def by (metis not_None_eq)
    then have c: "hs_client s = H_Size" "hs_lock s = None" "hs_deque s \<noteq> []" using size_again by blast+
    have inv: "host_inv n s" using reach by (rule host_reach_inv)
    obtain i where i: "i < n" "hs_worker s i \<noteq> W_Blocked" using host_invD(7)[OF inv c(3) n] c(1) by auto
    then have "hs_worker s i = W_Exit"
      using workers[rule_format, OF i(1)] ok c(2) unfolding host_worker_stuck by blast
    then show False using host_invD(3)[OF inv, of i] host_invD(5)[OF inv] c(1) by simp
  qed
  then show ?thesis using host_stuck[OF reach n ok workers] unfolding returned_def by blast
qed

text \<open>
  No worker has faulted, and the event counters that workers are about to read in the rest of
  \<open>Signal\<close> are there. A run keeps this if a worker in \<open>Signal\<close> goes first.
\<close>

definition signalling :: "host_worker \<Rightarrow> ptr \<Rightarrow> bool" where
  "signalling w c \<longleftrightarrow> w = W_Check c \<or> w = W_Notify c"

definition host_sound :: "nat \<Rightarrow> 'u host_sys \<Rightarrow> bool" where
  "host_sound n s \<longleftrightarrow> (\<forall>i < n. (\<forall>e. hs_worker s i \<noteq> W_Fault e) \<and>
     (\<forall>c. signalling (hs_worker s i) c \<longrightarrow> (\<exists>h. load_counter_host c (hs_mem s) = Inr h)))"

lemma signalling_step:
  assumes "host_sound n s" "i < n" "signalling (hs_worker s i) c" "host_worker_step call i s = Some s'"
  shows "host_sound n s'"
proof -
  obtain h where h: "load_counter_host c (hs_mem s) = Inr h" using assms(1-3) unfolding host_sound_def by blast
  have w: "hs_worker s i = W_Check c \<or> hs_worker s i = W_Notify c" using assms(3) by (simp add: signalling_def)
  then have s': "hs_mem s' = hs_mem s" "\<And>j. j \<noteq> i \<Longrightarrow> hs_worker s' j = hs_worker s j"
    "hs_worker s' i = W_Notify c \<or> hs_worker s' i = W_Relock"
    using assms(4) h
    by (auto simp: host_worker_step_def worker_res_def at_worker_def event_counter_done_host_def split: if_splits)
  have "(\<forall>e. hs_worker s' j \<noteq> W_Fault e) \<and>
     (\<forall>c. signalling (hs_worker s' j) c \<longrightarrow> (\<exists>h. load_counter_host c (hs_mem s') = Inr h))" if "j < n" for j
  proof (cases "j = i")
    case True
    then show ?thesis using s'(1,3) h by (auto simp: signalling_def)
  qed (use that s'(1,2) assms(1) in \<open>simp add: host_sound_def\<close>)
  then show ?thesis unfolding host_sound_def by blast
qed

lemma signal_loads:
  "event_counter_decrement_host c m = Inr m' \<Longrightarrow> \<exists>h. load_counter_host c m' = Inr h"
  by (auto simp: event_counter_decrement_host_def result_simps mem_simps)

lemma other_step:
  assumes reach: "host_reach call n s" and sound: "host_sound n s" and step: "host_own_step call n s s'"
    and calm: "\<forall>i < n. \<forall>c. \<not> signalling (hs_worker s i) c"
  shows "host_sound n s'"
  using step unfolding host_own_step_def
proof (elim disjE exE conjE)
  fix i
  assume i: "i < n" and st: "host_worker_step call i s = Some s'"
  have "hs_worker s' i \<noteq> W_Fault e" for e
    using worker_fault[OF reach i st] calm i unfolding signalling_def by blast
  moreover have "\<exists>h. load_counter_host c (hs_mem s') = Inr h" if "signalling (hs_worker s' i) c" for c
  proof -
    have "\<exists>p. hs_worker s i = W_Signal p c \<and> event_counter_decrement_host c (hs_mem s) = Inr (hs_mem s')"
      using st that calm[rule_format, OF i, of c]
      by (cases "hs_worker s i")
        (auto simp: signalling_def host_worker_step_def acquire_def worker_res_def at_worker_def result_simps
          split: if_splits sum.splits list.splits)
    then show ?thesis using signal_loads by blast
  qed
  moreover have "j \<noteq> i \<Longrightarrow> hs_worker s' j = hs_worker s j" for j
    using worker_effect(2)[OF host_reach_inv[OF reach] st] .
  ultimately show ?thesis using sound calm unfolding host_sound_def by metis
next
  fix pick
  assume "host_client_step n pick s = Some s'"
  then have "hs_worker s' j = hs_worker s j \<or> hs_worker s' j = W_Woken" for j
    by (cases "hs_client s") (auto simp: host_client_step_def client_res_def at_worker_def split: if_splits sum.splits option.splits)
  then show ?thesis using sound calm unfolding host_sound_def signalling_def by (metis host_worker.distinct)
qed

lemma sound_run:
  assumes "host_reach call n s" and n: "0 < n" and "host_sound n s"
  shows "\<exists>s'. (host_own_step call n)\<^sup>*\<^sup>* s s' \<and> returned n s' \<and> host_sound n s'"
  using assms(1,3)
proof (induction "host_work_left n s" arbitrary: s rule: less_induct)
  case less
  have "\<exists>t. host_own_step call n s t \<and> host_sound n t" if more: "\<exists>t. host_own_step call n s t"
  proof (cases "\<exists>i < n. \<exists>c. signalling (hs_worker s i) c")
    case True
    then obtain i c where i: "i < n" "signalling (hs_worker s i) c" by blast
    then have "host_worker_step call i s \<noteq> None" unfolding host_worker_stuck by (auto simp: signalling_def)
    then obtain t where "host_worker_step call i s = Some t" by blast
    then show ?thesis using signalling_step[OF less.prems(2) i] i(1) unfolding host_own_step_def by blast
  next
    case False
    then show ?thesis using more other_step[OF less.prems] by blast
  qed
  then consider (more) t where "host_own_step call n s t" "host_sound n t" | (stop) "\<nexists>t. host_own_step call n s t"
    by blast
  then show ?case
  proof cases
    case more
    from less.hyps[OF host_own_step_left[OF less.prems(1) more(1)] host_own_step_reach[OF less.prems(1) more(1)] more(2)]
    show ?thesis using more(1) by (blast intro: converse_rtranclp_into_rtranclp)
  next
    case stop
    have "returned n s"
      using stuck_returned[OF less.prems(1) n _ stop] less.prems(2) unfolding host_sound_def by blast
    then show ?thesis using less.prems(2) by blast
  qed
qed

text \<open>The client is in \<open>dispatch_queue_delete\<close>, or has returned from it.\<close>

fun deleting :: "host_client \<Rightarrow> bool" where
  "deleting (H_Push p k) = deleting k"
| "deleting (H_Notify k) = deleting k"
| "deleting H_Quit = True"
| "deleting H_Notify_All = True"
| "deleting (H_Join i) = True"
| "deleting H_Delete = True"
| "deleting H_Gone = True"
| "deleting c = False"

lemma deleting_wake [simp]: "deleting (wake c k) = deleting k" "deleting (wake_each i k) = deleting k"
  by (cases k; simp)+

lemma worker_keeps_deleting:
  "host_worker_step call i s = Some s' \<Longrightarrow>
   hs_client s' = hs_client s \<or> (\<exists>c. hs_client s' = wake c (hs_client s)) \<or> hs_client s' = wake_each i (hs_client s)"
  by (cases "hs_worker s i")
    (auto simp: host_worker_step_def acquire_def worker_res_def at_worker_def result_simps
      split: if_splits sum.splits list.splits)

lemma own_step_deleting:
  assumes "host_own_step call n s s'" and ok: "\<forall>e. hs_client s' \<noteq> H_Fault e"
  shows "deleting (hs_client s') = deleting (hs_client s)"
  using assms(1) unfolding host_own_step_def
proof (elim disjE exE conjE)
  fix i
  assume "host_worker_step call i s = Some s'"
  then show ?thesis using worker_keeps_deleting[of call i s s'] by auto
next
  fix pick
  assume "host_client_step n pick s = Some s'"
  then show ?thesis
    using ok by (cases "hs_client s")
      (auto simp: host_client_step_def client_res_def at_worker_def split: if_splits sum.splits option.splits)
qed

lemma fault_stays: "host_own_step call n s s' \<Longrightarrow> hs_client s = H_Fault e \<Longrightarrow> hs_client s' = H_Fault e"
  unfolding host_own_step_def using worker_keeps_deleting[of call _ s s'] by (fastforce simp: host_client_step_def)

lemma host_own_run_reach:
  assumes "host_reach call n s" "(host_own_step call n)\<^sup>*\<^sup>* s s'"
  shows "host_reach call n s'"
  using assms(2,1) by (induction rule: rtranclp_induct) (auto intro: host_own_step_reach)

text \<open>How a call ends: with the dispatch queue deleted, or with every task performed.\<close>

definition call_over :: "nat \<Rightarrow> bool \<Rightarrow> 'u host_sys \<Rightarrow> bool" where
  "call_over n del s \<longleftrightarrow>
     (if del then hs_client s = H_Gone \<and> (\<forall>i < n. hs_worker s i = W_Exit)
      else hs_client s = H_Idle \<and> (\<forall>i < n. hs_worker s i = W_Blocked) \<and> hs_deque s = [] \<and>
        set (hs_sent s) = set (hs_done s))"

lemma returned_over:
  assumes "(host_own_step call n)\<^sup>*\<^sup>* s s'" "returned n s'"
  shows "call_over n (deleting (hs_client s)) s'"
proof -
  have "\<not> (\<exists>e. hs_client s' = H_Fault e) \<longrightarrow> deleting (hs_client s') = deleting (hs_client s)"
    using assms(1)
  proof (induction rule: rtranclp_induct)
    case (step t u)
    have "\<exists>e. hs_client t = H_Fault e \<Longrightarrow> \<exists>e. hs_client u = H_Fault e"
      using step.hyps(2) fault_stays by blast
    then show ?case using step own_step_deleting by metis
  qed simp
  with assms(2) show ?thesis by (auto simp: returned_def call_over_def)
qed

section \<open>Properties\<close>

text \<open>C17: the calls of the host return. From any reachable state of a dispatch queue with at least one
  worker, the steps that workers and client take by themselves are at most \<open>host_work_left\<close> in number,
  where a turn of \<open>dispatch_queue_wait\<close> that finds tasks in the deque and a spurious wake-up are not
  counted. Where these steps come to an end, a worker has faulted or no notification has been lost:
  unless the client has called \<open>dispatch_queue_delete\<close>, its call has returned, every worker is blocked
  and every task that was sent has been performed; if it has, the dispatch queue is deleted and every
  worker has ended, whatever tasks were left. And if no worker has faulted or is about to read a deleted
  event counter, there is a run to such an end without a fault.\<close>

theorem host_calls_return:
  assumes "host_reach call n s" "0 < n"
  shows "(\<forall>j s'. (host_own_step call n ^^ j) s s' \<longrightarrow> j \<le> host_work_left n s) \<and>
     (\<forall>s'. (host_own_step call n)\<^sup>*\<^sup>* s s' \<and> (\<nexists>t. host_own_step call n s' t) \<longrightarrow>
        call_over n (deleting (hs_client s)) s' \<or> (\<exists>i < n. \<exists>e. hs_worker s' i = W_Fault e)) \<and>
     (host_sound n s \<longrightarrow>
        (\<exists>s'. (host_own_step call n)\<^sup>*\<^sup>* s s' \<and> call_over n (deleting (hs_client s)) s' \<and> host_sound n s'))"
proof (intro conjI allI impI)
  fix j s'
  assume "(host_own_step call n ^^ j) s s'"
  then show "j \<le> host_work_left n s" using host_own_run_left[OF assms(1)] by fastforce
next
  fix s'
  assume s': "(host_own_step call n)\<^sup>*\<^sup>* s s' \<and> (\<nexists>t. host_own_step call n s' t)"
  have "host_reach call n s'" using host_own_run_reach[OF assms(1)] s' by blast
  then show "call_over n (deleting (hs_client s)) s' \<or> (\<exists>i < n. \<exists>e. hs_worker s' i = W_Fault e)"
    using stuck_returned[OF _ assms(2)] s' returned_over[of call n s s'] by blast
next
  assume "host_sound n s"
  then show "\<exists>s'. (host_own_step call n)\<^sup>*\<^sup>* s s' \<and> call_over n (deleting (hs_client s)) s' \<and> host_sound n s'"
    using sound_run[OF assms] returned_over by blast
qed

theorem host_calls_return_witness:
  "\<exists>s s'. host_reach host_call 1 s \<and> hs_client s = H_Await (For_Task 1) 3 \<and> hs_worker s 0 = W_Check 3 \<and>
     (host_own_step host_call 1)\<^sup>*\<^sup>* s s' \<and> call_over 1 False s' \<and> host_sound 1 s'"
proof -
  have "host_reach host_call 1 (the (host_run [] host_waiting))" by (rule host_run_waiting(2)) auto
  then have r: "host_reach host_call 1 host_waiting" by simp
  have pc: "hs_client host_waiting = H_Await (For_Task 1) 3" "hs_worker host_waiting 0 = W_Check 3"
    "load_counter_host 3 (hs_mem host_waiting) = Inr \<lparr>eh_count = 0\<rparr>" by code_simp+
  then have "host_sound 1 host_waiting" by (auto simp: host_sound_def signalling_def)
  moreover have "\<not> deleting (hs_client host_waiting)" using pc(1) by simp
  ultimately obtain s' where "(host_own_step host_call 1)\<^sup>*\<^sup>* host_waiting s'" "call_over 1 False s'" "host_sound 1 s'"
    using host_calls_return[OF r] by auto
  with r pc show ?thesis by blast
qed

end
