(* ===== verification/Hello_World.thy ===== *)
theory Hello_World
  imports Dispatch_Host_Returns "HOL-Library.Multiset"
begin

text \<open>
  The example \<open>app_hello_world/src/main.c\<close> on the host: five tasks that each print a line, added one by one
  with \<open>dispatch_queue_function_add\<close> while five workers take them, then \<open>dispatch_queue_wait\<close> and
  \<open>dispatch_queue_delete\<close>. A line is printed in one step, as the lock of a \<open>FILE\<close> makes it.
\<close>

section \<open>The program\<close>

text \<open>\<open>dispatch_queue_function_add\<close>, as far as the first access to shared state.\<close>

definition dispatch_queue_function_add_host :: "fptr \<Rightarrow> ptr \<Rightarrow> bool \<Rightarrow> 'u host_sys \<Rightarrow> 'u host_sys option" where
  "dispatch_queue_function_add_host function argument waitable s =
     client_res s
       (bindE (dispatch_task_create function argument waitable (hs_mem s)) (\<lambda>(task, m).
        bindE (task_add_host task m) (\<lambda>(counter, m). Inr (task, counter, m))))
       (\<lambda>(task, counter, m). mark_added [task] waitable counter (s\<lparr>hs_mem := m, hs_client := H_Push task H_Idle\<rparr>))"

text \<open>The conversion \<open>%d\<close> of \<open>printf\<close>.\<close>

fun digits :: "nat \<Rightarrow> string" where
  "digits n = (if n < 10 then [] else digits (n div 10)) @ [char_of (48 + n mod 10)]"

definition decimal :: "int \<Rightarrow> string" where
  "decimal i = (if i < 0 then CHR ''-'' # digits (nat (- i)) else digits (nat i))"

definition task_line :: "int \<Rightarrow> string" where
  "task_line i = ''Hello World from task '' @ decimal i @ [CHR 0x0A]"

text \<open>\<open>at\<close> is what the store of the application holds for an \<open>int *\<close>; \<open>out\<close> is what was printed.\<close>

definition do_work :: "(ptr \<Rightarrow> int) \<Rightarrow> ptr \<Rightarrow> string \<Rightarrow> string" where
  "do_work at arg out = out @ task_line (at arg)"

definition task_data :: "int list" where
  "task_data = [0, 1, 2, 3, 4]"

definition hello_call :: "fptr \<Rightarrow> (ptr \<Rightarrow> int) \<Rightarrow> fptr \<Rightarrow> ptr \<Rightarrow> string \<Rightarrow> string" where
  "hello_call f at g arg out = (if g = f then do_work at arg out else out)"

text \<open>The steps of the threads inside the dispatch queue, spurious wake-ups included.\<close>

inductive threads_step :: "(fptr \<Rightarrow> ptr \<Rightarrow> 'u \<Rightarrow> 'u) \<Rightarrow> nat \<Rightarrow> 'u host_sys \<Rightarrow> 'u host_sys \<Rightarrow> bool" for call n where
  worker: "i < n \<Longrightarrow> host_worker_step call i s = Some s' \<Longrightarrow> threads_step call n s s'"
| client: "host_client_step n pick s = Some s' \<Longrightarrow> threads_step call n s s'"
| spurious_worker: "i < n \<Longrightarrow> hs_worker s i = W_Blocked \<Longrightarrow> threads_step call n s (at_worker i W_Woken s)"
| spurious_each: "hs_client s = H_Each_Blocked i \<Longrightarrow> threads_step call n s (s\<lparr>hs_client := H_Each i\<rparr>)"

text \<open>
  \<open>hello_world\<close>: \<open>(i, s)\<close> is the program after \<open>i\<close> of its calls have begun, five additions, the wait
  and the deletion; \<open>f\<close> is the address of \<open>do_work\<close>, \<open>args i\<close> that of \<open>task_data[i]\<close>.
\<close>

definition hello_threads :: nat where
  "hello_threads = 5"

inductive hello_step :: "fptr \<Rightarrow> (nat \<Rightarrow> ptr) \<Rightarrow> (ptr \<Rightarrow> int) \<Rightarrow> nat \<times> string host_sys \<Rightarrow> nat \<times> string host_sys \<Rightarrow> bool"
  for f args at where
  add: "hs_client s = H_Idle \<Longrightarrow> i < length task_data \<Longrightarrow>
    dispatch_queue_function_add_host f (args i) False s = Some s' \<Longrightarrow> hello_step f args at (i, s) (Suc i, s')"
| wait: "hs_client s = H_Idle \<Longrightarrow> i = length task_data \<Longrightarrow>
    hello_step f args at (i, s) (Suc i, s\<lparr>hs_client := H_Size\<rparr>)"
| delete: "hs_client s = H_Idle \<Longrightarrow> i = Suc (length task_data) \<Longrightarrow>
    hello_step f args at (i, s) (Suc i, s\<lparr>hs_client := H_Quit\<rparr>)"
| threads: "threads_step (hello_call f at) hello_threads s s' \<Longrightarrow> hello_step f args at (i, s) (i, s')"

section \<open>What every run of the host keeps\<close>

lemma host_phases:
  assumes "host_reach call n s"
  shows "abs_worker (hs_worker s i) = K_Perform p \<or> abs_worker (hs_worker s i) = K_Finish p \<Longrightarrow> hs_phase s p = Taken i"
    and "hs_client s = H_Idle \<Longrightarrow> set (hs_sent s) = {p. hs_phase s p \<noteq> Unknown}"
    and "hs_client s = H_Push p k \<Longrightarrow> hs_phase s p = Todo"
    and "hs_client s \<noteq> H_Fault e"
    and "p \<in> set (hs_deque s) \<Longrightarrow> hs_phase s p = Queued"
    and "p \<in> set (hs_done s) \<Longrightarrow> hs_phase s p \<noteq> Unknown"
proof -
  obtain len a Z where r: "ideal_reach call n len a" and rel: "host_rel Z a s" using assms by (rule host_reach_sim)
  have l: "link_inv (ds_phase a) (ds_todo a) (ds_queue a) (ds_worker a)"
    and ci: "client_pc_inv (ds_mem a) (ds_batch a) (ds_todo a) (ds_client a)"
    and hi: "hist_inv (ds_phase a) (ds_worker a) (ds_sent a) (ds_done a)"
    using ideal_inv[OF r] by (auto elim: disp_invE)
  show "abs_worker (hs_worker s i) = K_Perform p \<or> abs_worker (hs_worker s i) = K_Finish p \<Longrightarrow> hs_phase s p = Taken i"
    using link_phase(3)[OF l, of i p] host_relD(4,7)[OF rel] by auto
  show "p \<in> set (hs_done s) \<Longrightarrow> hs_phase s p \<noteq> Unknown"
    using hi host_relD(4,7,10)[OF rel] by (auto simp: hist_inv_def)
  show "p \<in> set (hs_deque s) \<Longrightarrow> hs_phase s p = Queued"
    using link_phase(2)[OF l, of p] host_relD(3,7)[OF rel] by simp
  show "hs_client s = H_Push p k \<Longrightarrow> hs_phase s p = Todo"
    using link_phase(1)[OF l, of p] ci host_relD(5,7)[OF rel] by auto
  show "set (hs_sent s) = {p. hs_phase s p \<noteq> Unknown}" if "hs_client s = H_Idle"
  proof -
    have "ds_client a = C_Idle" using that host_relD(5)[OF rel] by simp
    then have "ds_todo a = []" using ci by simp
    then show ?thesis using link_phase(1)[OF l] hi host_relD(7,9)[OF rel] by (auto simp: hist_inv_def)
  qed
  show "hs_client s \<noteq> H_Fault e" using ideal_ok(2)[OF r, of a e] host_relD(5)[OF rel] by auto
qed

lemma host_seen:
  assumes "host_reach call n s" "hs_phase s p \<noteq> Unknown"
  shows "p \<le> brk (hs_mem s)"
proof -
  from host_reach_run[OF assms(1)] obtain s0 where s0: "host_init s0" "(host_step call n)\<^sup>*\<^sup>* s0 s" by blast
  let ?a0 = "idle_system (hs_mem s0) (\<lambda>_. 0 :: nat) (hs_app s0)"
  obtain len a Z where a: "(ideal_step call n len)\<^sup>*\<^sup>* ?a0 a" "host_rel Z a s" using host_run_sim[OF s0] by blast
  have "\<forall>p. ds_phase a p \<noteq> Unknown \<longrightarrow> p \<le> brk (ds_mem a)"
    using ideal.run_app_inv[OF host_init_rel(1)[OF s0(1)] a(1) TrueI] by blast
  then show ?thesis using assms(2) host_relD(7)[OF a(2)] mem_relD(2)[OF host_relD(1)[OF a(2)]] by simp
qed

lemma threads_host_step: "threads_step call n s s' \<Longrightarrow> host_step call n s s'"
  by (induction rule: threads_step.induct) (auto intro: host_step.intros)

text \<open>Creating and adding a task are two steps of the host.\<close>

lemma function_add_steps:
  assumes reach: "host_reach call n s" and pc: "hs_client s = H_Idle" and f: "f \<noteq> NULL"
    and room: "\<And>b. \<not> oom (hs_mem s) b" and add: "dispatch_queue_function_add_host f arg False s = Some s'"
  obtains p m where "p = Suc (brk (hs_mem s))" "hs_phase s p = Unknown" "oom m = oom (hs_mem s)"
    "heap m = (heap (hs_mem s))(p \<mapsto> Task \<lparr>task_function = f, task_argument = arg, task_waitable = False, task_private_data = NULL\<rparr>)"
    "s' = mark_added [p] False NULL (s\<lparr>hs_mem := m, hs_client := H_Push p H_Idle\<rparr>)" "host_reach call n s'"
proof -
  let ?p = "Suc (brk (hs_mem s))"
  let ?t = "\<lparr>task_function = f, task_argument = arg, task_waitable = False, task_private_data = NULL\<rparr>"
  let ?m = "(hs_mem s)\<lparr>brk := ?p, heap := (heap (hs_mem s))(?p \<mapsto> Task ?t)\<rparr>"
  have create: "dispatch_task_create f arg False (hs_mem s) = Inr (?p, ?m)"
    using f room by (rule dispatch_task_create_ok)
  have counter: "task_add_host ?p ?m = Inr (NULL, ?m)" by (simp add: task_add_host_def assertE_def load_task_def load_def)
  have s': "s' = mark_added [?p] False NULL (s\<lparr>hs_mem := ?m, hs_client := H_Push ?p H_Idle\<rparr>)"
    using add create counter by (simp add: dispatch_queue_function_add_host_def client_res_def)
  have new: "hs_phase s ?p = Unknown" using host_seen[OF reach, of ?p] by auto
  let ?s = "s\<lparr>hs_mem := ?m\<rparr>"
  have "host_reach call n ?s" using reach host_step.task_create[OF pc create] by (rule host_reach_step)
  moreover have "host_step call n ?s s'"
    by (rule host_step.task_add[where w = False and task = ?p])
      (use pc f room new counter s' in \<open>simp_all add: addable_def has_room_def client_res_def\<close>)
  ultimately have "host_reach call n s'" by (rule host_reach_step)
  then show thesis by (intro that[of ?p ?m]) (simp_all add: new s')
qed

section \<open>The invariant of the program\<close>

text \<open>Where the client can be after \<open>i\<close> calls.\<close>

fun hello_pc :: "nat \<Rightarrow> host_client \<Rightarrow> bool" where
  "hello_pc i H_Idle \<longleftrightarrow> i \<le> 6"
| "hello_pc i (H_Push p k) \<longleftrightarrow> 0 < i \<and> i \<le> 5 \<and> k = H_Idle"
| "hello_pc i (H_Notify k) \<longleftrightarrow> 0 < i \<and> i \<le> 5 \<and> k = H_Idle"
| "hello_pc i H_Size \<longleftrightarrow> i = 6"
| "hello_pc i (H_Each j) \<longleftrightarrow> i = 6"
| "hello_pc i (H_Each_Blocked j) \<longleftrightarrow> i = 6"
| "hello_pc i (H_Group g j c) \<longleftrightarrow> False"
| "hello_pc i (H_Await x c) \<longleftrightarrow> False"
| "hello_pc i (H_Blocked x c) \<longleftrightarrow> False"
| "hello_pc i (H_Free x c) \<longleftrightarrow> False"
| "hello_pc i (H_Fault e) \<longleftrightarrow> False"
| "hello_pc i k \<longleftrightarrow> i = 7"

text \<open>The call of \<open>dispatch_queue_wait\<close> is over.\<close>

fun waited :: "nat \<Rightarrow> host_client \<Rightarrow> bool" where
  "waited i k \<longleftrightarrow> i = 7 \<or> i = 6 \<and> k = H_Idle"

text \<open>
  \<open>num p\<close> is the number of the task at \<open>p\<close>. No worker is in \<open>Signal\<close>, as no task is waitable.
\<close>

fun no_signal :: "host_worker \<Rightarrow> bool" where
  "no_signal (W_Signal p c) = False"
| "no_signal (W_Check c) = False"
| "no_signal (W_Notify c) = False"
| "no_signal (W_Fault e) = False"
| "no_signal w = True"

definition added :: "'u host_sys \<Rightarrow> ptr set" where
  "added s = {p. hs_phase s p \<noteq> Unknown}"

definition printed :: "(nat \<Rightarrow> ptr) \<Rightarrow> (ptr \<Rightarrow> int) \<Rightarrow> (ptr \<Rightarrow> nat) \<Rightarrow> ptr list \<Rightarrow> string" where
  "printed args at num ps = concat (map (\<lambda>p. task_line (at (args (num p)))) ps)"

definition numbered :: "fptr \<Rightarrow> (nat \<Rightarrow> ptr) \<Rightarrow> (ptr \<Rightarrow> int) \<Rightarrow> nat \<Rightarrow> string host_sys \<Rightarrow> (ptr \<Rightarrow> nat) \<Rightarrow> bool" where
  "numbered f args at i s num \<longleftrightarrow> bij_betw num (added s) {..<min i 5} \<and>
     (\<forall>p t. p \<in> added s \<and> heap (hs_mem s) p = Some (Task t) \<longrightarrow>
        task_function t = f \<and> task_argument t = args (num p) \<and> \<not> task_waitable t) \<and>
     hs_app s = printed args at num (hs_done s)"

definition hello_inv :: "fptr \<Rightarrow> (nat \<Rightarrow> ptr) \<Rightarrow> (ptr \<Rightarrow> int) \<Rightarrow> nat \<times> string host_sys \<Rightarrow> bool" where
  "hello_inv f args at = (\<lambda>(i, s). f \<noteq> NULL \<and> host_reach (hello_call f at) hello_threads s \<and> (\<forall>b. \<not> oom (hs_mem s) b) \<and>
     hello_pc i (hs_client s) \<and> (\<forall>j. no_signal (hs_worker s j)) \<and>
     (waited i (hs_client s) \<longrightarrow> added s = set (hs_done s)) \<and> (\<exists>num. numbered f args at i s num))"

text \<open>What a step of the threads does, when no task is waitable.\<close>

definition calm_step :: "(fptr \<Rightarrow> ptr \<Rightarrow> 'u \<Rightarrow> 'u) \<Rightarrow> 'u host_sys \<Rightarrow> 'u host_sys \<Rightarrow> bool" where
  "calm_step call s s' \<longleftrightarrow> oom (hs_mem s') = oom (hs_mem s) \<and> added s' = added s \<and>
     (\<forall>p ob. heap (hs_mem s') p = Some ob \<longrightarrow> heap (hs_mem s) p = Some ob) \<and>
     (hs_done s' = hs_done s \<and> hs_app s' = hs_app s \<or>
      (\<exists>p t. p \<in> added s \<and> heap (hs_mem s) p = Some (Task t) \<and> hs_done s' = hs_done s @ [p] \<and>
        hs_app s' = call (task_function t) (task_argument t) (hs_app s)))"

lemma calm_refl:
  "hs_mem s' = hs_mem s \<Longrightarrow> hs_phase s' = hs_phase s \<Longrightarrow> hs_done s' = hs_done s \<Longrightarrow> hs_app s' = hs_app s \<Longrightarrow> calm_step call s s'"
  by (simp add: calm_step_def added_def)

lemma worker_calm:
  assumes reach: "host_reach call n s" and i: "i < n" and step: "host_worker_step call i s = Some s'"
    and calm: "no_signal (hs_worker s i)"
    and plain: "\<And>p t. p \<in> added s \<Longrightarrow> heap (hs_mem s) p = Some (Task t) \<Longrightarrow> \<not> task_waitable t"
  shows "calm_step call s s' \<and> no_signal (hs_worker s' i)"
proof -
  have ok: "\<forall>e. hs_worker s' i \<noteq> W_Fault e" using worker_fault[OF reach i step] calm by auto
  note ph = host_phases(1)[OF reach, of i]
  show ?thesis
  proof (cases "hs_worker s i")
    case (W_Perform p)
    have p: "p \<in> added s" using ph[of p] W_Perform by (simp add: added_def)
    obtain u where u: "dispatch_task_perform call p (hs_mem s) (hs_app s) = Inr u"
      "s' = at_worker i (W_Finish p) (s\<lparr>hs_app := u, hs_done := hs_done s @ [p]\<rparr>)"
      using step ok W_Perform by (auto simp: host_worker_step_def worker_res_def at_worker_def split: sum.splits)
    with perform_app[OF u(1)] p show ?thesis by (auto simp: calm_step_def added_def at_worker_def)
  next
    case (W_Finish p)
    have p: "p \<in> added s" using ph[of p] W_Finish by (simp add: added_def)
    obtain t where t: "load_task p (hs_mem s) = Inr t"
      using step ok W_Finish by (cases "load_task p (hs_mem s)") (auto simp: host_worker_step_def worker_res_def at_worker_def)
    then have t': "p \<noteq> NULL" "heap (hs_mem s) p = Some (Task t)" by (auto simp: mem_simps)
    then have "\<not> task_waitable t" using plain p by blast
    then have "s' = at_worker i W_Relock (s\<lparr>hs_mem := (hs_mem s)\<lparr>heap := (heap (hs_mem s))(p := None)\<rparr>,
        hs_phase := (hs_phase s)(p := Finished)\<rparr>)"
      using step W_Finish t t' by (auto simp: host_worker_step_def worker_res_def dispatch_task_delete_def assertE_def free_def)
    then show ?thesis using p by (auto simp: calm_step_def added_def at_worker_def)
  next
    case W_Pop
    obtain p xs where "hs_deque s = p # xs" "s' = at_worker i (W_Perform p)
       (s\<lparr>hs_deque := xs, hs_lock := None, hs_phase := (hs_phase s)(p := Taken i)\<rparr>)"
      using step ok W_Pop by (auto simp: host_worker_step_def at_worker_def split: list.splits)
    moreover from this have "hs_phase s p \<noteq> Unknown" using host_phases(5)[OF reach, of p] by simp
    ultimately show ?thesis by (auto simp: calm_step_def added_def at_worker_def)
  qed (use step calm in \<open>auto simp: host_worker_step_def acquire_def at_worker_def calm_step_def added_def split: if_splits\<close>)
qed

lemma client_calm:
  assumes reach: "host_reach call n s" and step: "host_client_step n pick s = Some s'" and pc: "hello_pc i (hs_client s)"
  shows "calm_step call s s' \<and> hello_pc i (hs_client s') \<and> (\<forall>j. no_signal (hs_worker s j) \<longrightarrow> no_signal (hs_worker s' j))"
proof -
  have todo: "hs_phase s p \<noteq> Unknown" if "hs_client s = H_Push p k" for p k
    using host_phases(3)[OF reach that] by simp
  show ?thesis
    using step pc todo
    by (cases "hs_client s") (auto simp: host_client_step_def at_worker_def calm_step_def added_def split: if_splits)
qed

lemma threads_calm:
  assumes inv: "hello_inv f args at (i, s)" and step: "threads_step (hello_call f at) hello_threads s s'"
  shows "calm_step (hello_call f at) s s'" "hello_pc i (hs_client s')" "no_signal (hs_worker s' j)"
    "hs_client s' = H_Idle \<Longrightarrow> hs_client s = H_Idle \<or> (\<exists>pick. host_client_step hello_threads pick s = Some s')"
proof -
  have reach: "host_reach (hello_call f at) hello_threads s" and pc: "hello_pc i (hs_client s)"
    and ns: "\<And>j. no_signal (hs_worker s j)" using inv by (auto simp: hello_inv_def)
  have plain: "\<And>p t. p \<in> added s \<Longrightarrow> heap (hs_mem s) p = Some (Task t) \<Longrightarrow> \<not> task_waitable t"
    using inv by (auto simp: hello_inv_def numbered_def)
  have "calm_step (hello_call f at) s s' \<and> hello_pc i (hs_client s') \<and> no_signal (hs_worker s' j) \<and>
    (hs_client s' = H_Idle \<longrightarrow> hs_client s = H_Idle \<or> (\<exists>pick. host_client_step hello_threads pick s = Some s'))"
    using step
  proof cases
    case (worker k)
    have "hs_client s' = (case hs_worker s k of W_Ready_Notify \<Rightarrow> wake_each k (hs_client s) | _ \<Rightarrow> hs_client s)"
      using worker_wakes[OF worker(2)] ns[of k] by (auto split: host_worker.splits)
    then have "hs_client s' = hs_client s \<or> hs_client s' = wake_each k (hs_client s)" by (auto split: host_worker.splits)
    moreover have "hello_pc i (wake_each k (hs_client s))" using pc by (cases "hs_client s") auto
    moreover have "wake_each k (hs_client s) = H_Idle \<Longrightarrow> hs_client s = H_Idle" by (cases "hs_client s") (auto split: if_splits)
    moreover have "no_signal (hs_worker s' j)"
      using worker_calm[OF reach worker(1,2) ns plain] worker_effect(2)[OF host_reach_inv[OF reach] worker(2), of j] ns
      by (cases "j = k") auto
    ultimately show ?thesis using worker_calm[OF reach worker(1,2) ns plain] pc by auto
  next
    case (client pick)
    then show ?thesis using client_calm[OF reach client pc] ns by blast
  next
    case (spurious_worker k)
    then show ?thesis using pc ns[of j] by (auto simp: at_worker_def intro: calm_refl)
  next
    case (spurious_each k)
    then show ?thesis using pc ns[of j] by (auto intro: calm_refl)
  qed
  then show "calm_step (hello_call f at) s s'" "hello_pc i (hs_client s')" "no_signal (hs_worker s' j)"
    "hs_client s' = H_Idle \<Longrightarrow> hs_client s = H_Idle \<or> (\<exists>pick. host_client_step hello_threads pick s = Some s')"
    by blast+
qed

lemma calm_numbered:
  assumes num: "numbered f args at i s num" and calm: "calm_step (hello_call f at) s s'"
  shows "numbered f args at i s' num"
proof -
  have heap: "\<And>p ob. heap (hs_mem s') p = Some ob \<Longrightarrow> heap (hs_mem s) p = Some ob" and added: "added s' = added s"
    using calm by (auto simp: calm_step_def)
  have "hs_app s' = printed args at num (hs_done s')"
    using calm num unfolding calm_step_def
  proof (elim conjE disjE exE)
    fix p t
    assume "p \<in> added s" "heap (hs_mem s) p = Some (Task t)" "hs_done s' = hs_done s @ [p]"
      "hs_app s' = hello_call f at (task_function t) (task_argument t) (hs_app s)"
    then show ?thesis using num by (auto simp: numbered_def hello_call_def do_work_def printed_def)
  qed (simp add: numbered_def)
  then show ?thesis using num heap added unfolding numbered_def by metis
qed

lemma wait_over:
  assumes reach: "host_reach (hello_call f at) hello_threads s'" and before: "host_reach (hello_call f at) hello_threads s"
    and step: "host_client_step hello_threads pick s = Some s'" and pc: "hello_pc 6 (hs_client s)" "hs_client s' = H_Idle"
  shows "added s' = set (hs_done s')"
proof -
  obtain j where j: "hs_client s = H_Each j"
    using step pc by (cases "hs_client s") (auto simp: host_client_step_def at_worker_def split: if_splits)
  have "set (hs_sent s') = set (hs_done s')" using host_wait_all[OF before step j pc(2)] by blast
  then show ?thesis using host_phases(2)[OF reach pc(2)] by (simp add: added_def)
qed

lemma bij_betw_new:
  assumes "bij_betw h A {..<i}" "x \<notin> A"
  shows "bij_betw (h(x := i)) (insert x A) {..<Suc i}"
proof -
  have "bij_betw (h(x := i)) A {..<i}" using assms(1) by (rule bij_betw_cong[THEN iffD1, rotated]) (use assms(2) in auto)
  moreover have "bij_betw (h(x := i)) {x} {i}" by simp
  ultimately show ?thesis using bij_betw_combine[of "h(x := i)" A "{..<i}" "{x}" "{i}"] by (simp add: lessThan_Suc)
qed

lemma hello_add_inv:
  assumes inv: "hello_inv f args at (i, s)" and pc: "hs_client s = H_Idle" and i: "i < 5"
    and add: "dispatch_queue_function_add_host f (args i) False s = Some s'"
  shows "hello_inv f args at (Suc i, s')"
proof -
  obtain num where reach: "host_reach (hello_call f at) hello_threads s" and room: "\<And>b. \<not> oom (hs_mem s) b" and f: "f \<noteq> NULL"
    and ns: "\<And>j. no_signal (hs_worker s j)" and num: "numbered f args at i s num"
    using inv by (auto simp: hello_inv_def)
  obtain p m where p: "hs_phase s p = Unknown" "oom m = oom (hs_mem s)"
    "heap m = (heap (hs_mem s))(p \<mapsto> Task \<lparr>task_function = f, task_argument = args i, task_waitable = False, task_private_data = NULL\<rparr>)"
    "s' = mark_added [p] False NULL (s\<lparr>hs_mem := m, hs_client := H_Push p H_Idle\<rparr>)"
    "host_reach (hello_call f at) hello_threads s'"
    by (rule function_add_steps[OF reach pc f room add]) blast
  have sets: "added s' = insert p (added s)" "p \<notin> added s" using p(1) by (auto simp: p(4) added_def mark_added_def)
  let ?num = "num(p := i)"
  have "numbered f args at (Suc i) s' ?num"
    unfolding numbered_def
  proof (intro conjI)
    have "bij_betw num (added s) {..<i}" using num i by (simp add: numbered_def)
    then have "bij_betw ?num (added s') {..<Suc i}" unfolding sets(1) using sets(2) by (rule bij_betw_new)
    then show "bij_betw ?num (added s') {..<min (Suc i) 5}" using i by simp
    show "\<forall>q t. q \<in> added s' \<and> heap (hs_mem s') q = Some (Task t) \<longrightarrow>
        task_function t = f \<and> task_argument t = args (?num q) \<and> \<not> task_waitable t"
      using num unfolding sets(1) by (auto simp: numbered_def p(3,4) mark_added_def)
    have "p \<notin> set (hs_done s)" using host_phases(6)[OF reach] p(1) by blast
    then have "printed args at ?num (hs_done s) = printed args at num (hs_done s)"
      unfolding printed_def by (intro arg_cong[of _ _ concat] map_cong) auto
    then show "hs_app s' = printed args at ?num (hs_done s')" using num by (simp add: numbered_def p(4) mark_added_def)
  qed
  moreover have "hs_client s' = H_Push p H_Idle" "hs_worker s' = hs_worker s" "hs_mem s' = m" by (simp_all add: p(4) mark_added_def)
  ultimately show ?thesis using p(2,5) room f ns i unfolding hello_inv_def by auto
qed

lemma hello_threads_inv:
  assumes inv: "hello_inv f args at (i, s)" and step: "threads_step (hello_call f at) hello_threads s s'"
  shows "hello_inv f args at (i, s')"
proof -
  obtain num where reach: "host_reach (hello_call f at) hello_threads s" and room: "\<And>b. \<not> oom (hs_mem s) b"
    and pc: "hello_pc i (hs_client s)" and num: "numbered f args at i s num"
    using inv by (auto simp: hello_inv_def)
  note calm = threads_calm[OF inv step]
  have reach': "host_reach (hello_call f at) hello_threads s'"
    using reach threads_host_step[OF step] by (rule host_reach_step)
  have "added s' = set (hs_done s')" if w: "waited i (hs_client s')"
  proof (cases "waited i (hs_client s)")
    case True
    then have "added s = set (hs_done s)" using inv by (simp add: hello_inv_def del: waited.simps)
    moreover have "set (hs_done s) \<subseteq> set (hs_done s')" "added s' = added s" using calm(1) by (auto simp: calm_step_def)
    moreover have "set (hs_done s') \<subseteq> added s'" using host_phases(6)[OF reach'] by (auto simp: added_def)
    ultimately show ?thesis by auto
  next
    case False
    then have i: "i = 6" "hs_client s' = H_Idle" "hs_client s \<noteq> H_Idle" using w by auto
    then obtain pick where "host_client_step hello_threads pick s = Some s'" using calm(4) by blast
    then show ?thesis using wait_over[OF reach' reach] pc i by blast
  qed
  moreover have "\<not> oom (hs_mem s') b" for b using room calm(1) by (simp add: calm_step_def)
  ultimately show ?thesis
    using inv reach' calm(2,3) calm_numbered[OF num calm(1)] by (auto simp: hello_inv_def)
qed

lemma task_data_length [simp]: "length task_data = 5"
  by (simp add: task_data_def)

lemma hello_step_inv:
  assumes inv: "hello_inv f args at x" and step: "hello_step f args at x y"
  shows "hello_inv f args at y"
  using step
proof cases
  case (add s i s')
  then show ?thesis using hello_add_inv inv by simp
next
  case (wait s i)
  have "host_reach (hello_call f at) hello_threads (s\<lparr>hs_client := H_Size\<rparr>)"
    using inv wait(1,3) by (auto simp: hello_inv_def intro: host_reach_step host_step.wait_all)
  then show ?thesis using inv wait by (auto simp: hello_inv_def numbered_def added_def)
next
  case (delete s i)
  have "host_reach (hello_call f at) hello_threads (s\<lparr>hs_client := H_Quit\<rparr>)"
    using inv delete(1,3) by (auto simp: hello_inv_def intro: host_reach_step host_step.delete)
  then show ?thesis using inv delete by (auto simp: hello_inv_def numbered_def added_def)
next
  case (threads s s' i)
  then show ?thesis using hello_threads_inv inv by simp
qed

lemma hello_run_inv: "(hello_step f args at)\<^sup>*\<^sup>* x y \<Longrightarrow> hello_inv f args at x \<Longrightarrow> hello_inv f args at y"
  by (induction rule: rtranclp_induct) (auto intro: hello_step_inv)

section \<open>The end of the program\<close>

lemma own_hello_steps:
  "(host_own_step (hello_call f at) hello_threads)\<^sup>*\<^sup>* s s' \<Longrightarrow> (hello_step f args at)\<^sup>*\<^sup>* (i, s) (i, s')"
proof (induction rule: rtranclp_induct)
  case (step t u)
  then have "threads_step (hello_call f at) hello_threads t u"
    unfolding host_own_step_def by (blast intro: threads_step.intros)
  then have "hello_step f args at (i, t) (i, u)" by (rule hello_step.threads)
  with step.IH show ?case by (rule rtranclp.rtrancl_into_rtrancl)
qed simp

lemma hello_returns:
  assumes inv: "hello_inv f args at (i, s)"
  shows "\<exists>s'. (hello_step f args at)\<^sup>*\<^sup>* (i, s) (i, s') \<and> returned hello_threads s'"
proof -
  have reach: "host_reach (hello_call f at) hello_threads s" and ns: "\<And>j. no_signal (hs_worker s j)"
    using inv by (auto simp: hello_inv_def)
  have "\<not> signalling (hs_worker s j) c \<and> hs_worker s j \<noteq> W_Fault e" for j c e
    using ns[of j] by (auto simp: signalling_def)
  then have "host_sound hello_threads s" by (simp add: host_sound_def)
  moreover have "0 < hello_threads" by (simp add: hello_threads_def)
  ultimately obtain s' where "(host_own_step (hello_call f at) hello_threads)\<^sup>*\<^sup>* s s'" "returned hello_threads s'"
    using sound_run[OF reach] by blast
  then show ?thesis using own_hello_steps by blast
qed

lemma hello_next:
  assumes inv: "hello_inv f args at (i, s)" and i: "i < 7"
  shows "\<exists>s'. (hello_step f args at)\<^sup>*\<^sup>* (i, s) (Suc i, s')"
proof -
  obtain t where t: "(hello_step f args at)\<^sup>*\<^sup>* (i, s) (i, t)" "returned hello_threads t" using hello_returns[OF inv] by blast
  have "hello_pc i (hs_client t)" using hello_run_inv[OF t(1) inv] by (simp add: hello_inv_def)
  then have idle: "hs_client t = H_Idle" using t(2) i by (auto simp: returned_def)
  have "\<exists>u. hello_step f args at (i, t) (Suc i, u)"
  proof -
    consider "i < 5" | "i = 5" | "i = 6" using i by linarith
    then show ?thesis
    proof cases
      case 1
      obtain u where u: "dispatch_queue_function_add_host f (args i) False t = Some u"
        by (simp add: dispatch_queue_function_add_host_def client_res_def)
      have "hello_step f args at (i, t) (Suc i, u)" using idle _ u by (rule hello_step.add) (use 1 in simp)
      then show ?thesis by blast
    next
      case 2
      then show ?thesis using hello_step.wait[OF idle, of i] by auto
    next
      case 3
      then show ?thesis using hello_step.delete[OF idle, of i] by auto
    qed
  qed
  then show ?thesis using t(1) by (blast intro: rtranclp.rtrancl_into_rtrancl)
qed

lemma hello_ends:
  assumes inv: "hello_inv f args at (i, s)" and i: "i \<le> 7"
  shows "\<exists>s'. (hello_step f args at)\<^sup>*\<^sup>* (i, s) (7, s') \<and> hs_client s' = H_Gone"
  using inv i
proof (induction "7 - i" arbitrary: i s)
  case 0
  then obtain t where t: "(hello_step f args at)\<^sup>*\<^sup>* (i, s) (i, t)" "returned hello_threads t" using hello_returns by blast
  have "hello_pc i (hs_client t)" using hello_run_inv[OF t(1) 0(2)] by (simp add: hello_inv_def)
  then show ?case using t 0 by (auto simp: returned_def)
next
  case (Suc k)
  then have "i < 7" by simp
  then obtain t where t: "(hello_step f args at)\<^sup>*\<^sup>* (i, s) (Suc i, t)" using hello_next[OF Suc.prems(1)] by blast
  have left: "k = 7 - Suc i" "Suc i \<le> 7" using Suc.hyps(2) \<open>i < 7\<close> by simp_all
  have "hello_inv f args at (Suc i, t)" using t Suc.prems(1) by (rule hello_run_inv)
  then obtain u where "(hello_step f args at)\<^sup>*\<^sup>* (Suc i, t) (7, u)" "hs_client u = H_Gone"
    using Suc.hyps(1)[OF left(1) _ left(2)] by blast
  then show ?case using t by (meson rtranclp_trans)
qed

lemma hello_output:
  assumes inv: "hello_inv f args at (7, s)" and args: "\<forall>i < 5. at (args i) = task_data ! i"
  shows "\<exists>ks. mset ks = mset task_data \<and> hs_app s = concat (map task_line ks)"
proof -
  obtain num where num: "bij_betw num (added s) {..<5}" "hs_app s = printed args at num (hs_done s)"
    and dn: "added s = set (hs_done s)" and reach: "host_reach (hello_call f at) hello_threads s"
    using inv by (auto simp: hello_inv_def numbered_def)
  have "distinct (hs_done s)" using host_tasks[OF reach] by simp
  then have "mset (map num (hs_done s)) = image_mset num (mset_set (added s))" by (simp add: dn mset_set_set)
  also have "\<dots> = mset_set {..<5}" using num(1) by (simp add: bij_betw_def image_mset_mset_set)
  also have "\<dots> = mset [0..<5]" by (simp add: lessThan_atLeast0 flip: mset_set_upto_eq_mset_upto)
  finally have perm: "mset (map num (hs_done s)) = mset [0..<5]" .
  let ?ks = "map (\<lambda>p. task_data ! num p) (hs_done s)"
  have "mset ?ks = image_mset ((!) task_data) (mset (map num (hs_done s)))" by (simp add: image_mset.compositionality comp_def)
  also have "\<dots> = mset (map ((!) task_data) [0..<5])" unfolding perm by simp
  also have "\<dots> = mset task_data" by (simp add: task_data_def upt_rec)
  finally have ks: "mset ?ks = mset task_data" .
  have "num p < 5" if "p \<in> set (hs_done s)" for p using num(1) that unfolding dn bij_betw_def by blast
  then have "hs_app s = concat (map task_line ?ks)" using num(2) args by (simp add: printed_def comp_def cong: map_cong)
  with ks show ?thesis by blast
qed

section \<open>Properties\<close>

text \<open>C21: the hello world example is correct on the host. When the calls of \<open>malloc\<close> succeed, the
  program can run to its end, with the dispatch queue deleted; no thread ever faults; and whenever
  \<open>dispatch_queue_wait\<close> has returned and the deletion begins, the output is the five lines, each once,
  in some order.\<close>

theorem hello_world_host:
  assumes m: "mem_ok m" "\<forall>b. \<not> oom m b" "\<forall>p c. heap m p \<noteq> Some (Counter_Metal c)"
      "\<forall>p c. heap m p \<noteq> Some (Counter_Rtos c)" "\<forall>p c. heap m p \<noteq> Some (Counter_Host c)"
    and f: "f \<noteq> NULL" and args: "\<forall>i < length task_data. at (args i) = task_data ! i"
  shows "(\<exists>s. (hello_step f args at)\<^sup>*\<^sup>* (0, dispatch_queue_create_host m []) (7, s) \<and> hs_client s = H_Gone) \<and>
     (\<forall>i s. (hello_step f args at)\<^sup>*\<^sup>* (0, dispatch_queue_create_host m []) (i, s) \<longrightarrow>
        (\<forall>e. hs_client s \<noteq> H_Fault e) \<and> (\<forall>j e. hs_worker s j \<noteq> W_Fault e) \<and>
        (i = 7 \<longrightarrow> (\<exists>ks. mset ks = mset task_data \<and> hs_app s = concat (map task_line ks))))"
proof -
  let ?s0 = "dispatch_queue_create_host m []"
  have "host_init ?s0" using m by (auto simp: host_init_def)
  then have "host_reach (hello_call f at) hello_threads ?s0" unfolding host_reach_def by (rule reach.reach_init)
  then have inv: "hello_inv f args at (0, ?s0)"
    using m(2) f by (simp add: hello_inv_def numbered_def added_def printed_def bij_betw_def
        dispatch_queue_create_host_def dispatch_queue_init_host_def)
  have "(\<forall>e. hs_client s \<noteq> H_Fault e) \<and> (\<forall>j e. hs_worker s j \<noteq> W_Fault e) \<and>
      (i = 7 \<longrightarrow> (\<exists>ks. mset ks = mset task_data \<and> hs_app s = concat (map task_line ks)))"
    if run: "(hello_step f args at)\<^sup>*\<^sup>* (0, ?s0) (i, s)" for i s
  proof -
    have now: "hello_inv f args at (i, s)" using run inv by (rule hello_run_inv)
    then have "hello_pc i (hs_client s)" "\<And>j. no_signal (hs_worker s j)" by (auto simp: hello_inv_def)
    then have "hs_client s \<noteq> H_Fault e" "hs_worker s j \<noteq> W_Fault e" for j e
      by (metis hello_pc.simps(11), metis no_signal.simps(4))
    then show ?thesis using hello_output[of f args at s] now args by auto
  qed
  then show ?thesis using hello_ends[OF inv] by auto
qed

theorem hello_world_host_witness:
  "task_line 3 = ''Hello World from task 3'' @ [CHR 0x0A] \<and>
   (\<exists>s ks. (hello_step 5 (\<lambda>i. 20 + i) (\<lambda>a. int a - 20))\<^sup>*\<^sup>* (0, dispatch_queue_create_host empty_mem []) (7, s) \<and>
      hs_client s = H_Gone \<and> mset ks = {#0, 1, 2, 3, 4#} \<and> hs_app s = concat (map task_line ks))"
proof -
  let ?at = "\<lambda>a. int a - 20" and ?args = "\<lambda>i. 20 + i"
  have line: "task_line 3 = ''Hello World from task 3'' @ [CHR 0x0A]" by code_simp
  have args: "\<forall>i < length task_data. ?at (?args i) = task_data ! i"
    by (simp add: task_data_def All_less_Suc numeral_eq_Suc)
  have "(\<exists>s. (hello_step 5 ?args ?at)\<^sup>*\<^sup>* (0, dispatch_queue_create_host empty_mem []) (7, s) \<and> hs_client s = H_Gone) \<and>
     (\<forall>i s. (hello_step 5 ?args ?at)\<^sup>*\<^sup>* (0, dispatch_queue_create_host empty_mem []) (i, s) \<longrightarrow>
        (\<forall>e. hs_client s \<noteq> H_Fault e) \<and> (\<forall>j e. hs_worker s j \<noteq> W_Fault e) \<and>
        (i = 7 \<longrightarrow> (\<exists>ks. mset ks = mset task_data \<and> hs_app s = concat (map task_line ks))))"
    by (rule hello_world_host) (use args in simp_all)
  moreover have "mset task_data = {#0, 1, 2, 3, 4#}" by (simp add: task_data_def)
  ultimately show ?thesis using line by metis
qed

end
