(* ===== verification/Hello_World_Metal.thy ===== *)
theory Hello_World_Metal
  imports Hello_World Dispatch_Metal
begin

text \<open>
  The example \<open>app_hello_world/src/main.c\<close> on bare metal, with its threads driven by a schedule. There,
  \<open>dispatch_queue_wait\<close> does not wait for a task that a worker has taken and not yet begun.
\<close>

section \<open>The program\<close>

definition dispatch_queue_function_add :: "'n platform \<Rightarrow> nat \<Rightarrow> ptr \<Rightarrow> fptr \<Rightarrow> ptr \<Rightarrow> bool \<Rightarrow> ('n, 'u) disp_sys \<Rightarrow>
    ('n, 'u) disp_sys option" where
  "dispatch_queue_function_add F h ctx function argument waitable s =
     client_try s
       (bindE (dispatch_task_create function argument waitable (ds_mem s)) (\<lambda>(task, m).
        bindE (task_add_prepare (pf_create F) h ctx task m) (\<lambda>m.
        bindE (load_task task m) (\<lambda>t. Inr (task, m, task_private_data t)))))
       (\<lambda>(task, m, counter). Some (add_tasks [task] waitable counter (s\<lparr>ds_mem := m, ds_client := C_Send task C_Idle\<rparr>)))"

text \<open>
  A move of \<open>hello_world\<close> up to the return of \<open>dispatch_queue_wait\<close>: of worker \<open>j\<close>, or of the main thread, which
  makes its next call when it is outside the dispatch queue. \<open>f\<close> and \<open>args\<close> are as in theory \<open>Hello_World\<close>.
\<close>

fun hello_move :: "'n platform \<Rightarrow> 'n note_ops \<Rightarrow> nat \<Rightarrow> ptr \<Rightarrow> fptr \<Rightarrow> (nat \<Rightarrow> ptr) \<Rightarrow> (ptr \<Rightarrow> int) \<Rightarrow> nat option \<Rightarrow>
    nat \<times> ('n, string) disp_sys \<Rightarrow> (nat \<times> ('n, string) disp_sys) option" where
  "hello_move F N h queue f args at (Some j) (i, s) =
     (if j < hello_threads then map_option (Pair i) (worker_step F N (hello_call f at) 5 j s) else None)"
| "hello_move F N h queue f args at None (i, s) =
     (if ds_client s \<noteq> C_Idle then map_option (Pair i) (client_step F 5 s)
      else if i < length task_data then
        map_option (Pair (Suc i)) (dispatch_queue_function_add F h queue f (args i) False s)
      else if i = length task_data then map_option (Pair (Suc i)) (enter_wait queue s)
      else None)"

fun hello_run :: "'n platform \<Rightarrow> 'n note_ops \<Rightarrow> nat \<Rightarrow> ptr \<Rightarrow> fptr \<Rightarrow> (nat \<Rightarrow> ptr) \<Rightarrow> (ptr \<Rightarrow> int) \<Rightarrow> nat option list \<Rightarrow>
    nat \<times> ('n, string) disp_sys \<Rightarrow> (nat \<times> ('n, string) disp_sys) option" where
  "hello_run F N h queue f args at [] x = Some x"
| "hello_run F N h queue f args at (e # es) x =
     (case hello_move F N h queue f args at e x of None \<Rightarrow> None | Some y \<Rightarrow> hello_run F N h queue f args at es y)"

section \<open>A run of the program is a run of the dispatch queue\<close>

definition no_counters :: "mem \<Rightarrow> bool" where
  "no_counters m \<longleftrightarrow> (\<forall>b. \<not> oom m b) \<and> (\<forall>p c. heap m p \<noteq> Some (Counter_Metal c)) \<and> (\<forall>p c. heap m p \<noteq> Some (Counter_Rtos c))"

lemma worker_no_counters:
  assumes "no_counters (ds_mem s)" and "worker_step (metal_platform N queue st) N call n i s = Some s'"
  shows "no_counters (ds_mem s') \<and> ds_note s' = ds_note s \<and> ds_client s' = ds_client s"
  using assms
  by (cases "ds_worker s i")
    (auto simp: worker_step_def worker_try_def to_worker_def result_simps mem_simps no_counters_def write_word_def
      event_counter_decrement_metal_def split: sum.splits list.splits if_splits)

fun hello_metal_pc :: "client_pc \<Rightarrow> bool" where
  "hello_metal_pc C_Idle = True"
| "hello_metal_pc (C_Send p k) = (k = C_Idle)"
| "hello_metal_pc (C_Busy i b) = True"
| "hello_metal_pc (C_Size b) = True"
| "hello_metal_pc c = False"

lemma client_no_counters:
  assumes "hello_metal_pc (ds_client s)" and "client_step (metal_platform N queue st) n s = Some s'"
    and "\<forall>e. ds_client s' \<noteq> C_Fault e"
  shows "ds_mem s' = ds_mem s \<and> ds_note s' = ds_note s \<and> hello_metal_pc (ds_client s')"
  using assms
  by (cases "ds_client s")
    (auto simp: client_step_def client_try_def poll_metal_def result_simps split: sum.splits list.splits if_splits option.splits)

definition hello_metal_ok :: "'n note_ops \<Rightarrow> ('n \<Rightarrow> nat \<Rightarrow> nat) \<Rightarrow> (fptr \<Rightarrow> ptr \<Rightarrow> string \<Rightarrow> string) \<Rightarrow> ptr \<Rightarrow> ptr \<Rightarrow>
    ('n, string) disp_sys \<Rightarrow> ('n, string) disp_sys \<Rightarrow> bool" where
  "hello_metal_ok N tokens call queue st s0 s \<longleftrightarrow>
     (disp_step (metal_platform N queue st) N tokens call queue hello_threads 5)\<^sup>*\<^sup>* s0 s \<and>
     no_counters (ds_mem s) \<and> ds_note s = ds_note s0 \<and> hello_metal_pc (ds_client s)"

lemma hello_move_ok:
  assumes init: "disp_init (metal_env queue st hello_threads) s0" and laws: "note_laws N tokens"
    and h: "tokens (ds_note s0) h = 0" and f: "f \<noteq> NULL"
    and ok: "hello_metal_ok N tokens (hello_call f at) queue st s0 s"
    and move: "hello_move (metal_platform N queue st) N h queue f args at e (i, s) = Some (i', s')"
  shows "hello_metal_ok N tokens (hello_call f at) queue st s0 s'"
proof -
  let ?F = "metal_platform N queue st" and ?call = "hello_call f at"
  let ?step = "disp_step ?F N tokens ?call queue hello_threads 5"
  have run: "?step\<^sup>*\<^sup>* s0 s" and nc: "no_counters (ds_mem s)" and nt: "ds_note s = ds_note s0"
    and pc: "hello_metal_pc (ds_client s)" using ok by (auto simp: hello_metal_ok_def)
  note app = metal.run_app_inv[OF init run laws]
  then have reach: "disp_reach ?F N tokens (metal_env queue st hello_threads) ?call queue hello_threads 5 s" by blast
  have env: "metal_env queue st hello_threads (ds_mem s) (ds_note s)"
    using metal.disp_reach_inv[OF reach laws] by (rule disp_invE)
  have go: "hello_metal_ok N tokens ?call queue st s0 s'"
    if "?step\<^sup>*\<^sup>* s s'" "no_counters (ds_mem s')" "ds_note s' = ds_note s" "hello_metal_pc (ds_client s')"
    using that run nt by (auto simp: hello_metal_ok_def intro: rtranclp_trans)
  show ?thesis
  proof (cases e)
    case (Some j)
    then have j: "j < hello_threads" "worker_step ?F N ?call 5 j s = Some s'" using move by (auto split: if_splits)
    then show ?thesis using worker_no_counters[OF nc j(2)] pc by (intro go) (auto intro: disp_step.worker)
  next
    case None
    show ?thesis
    proof (cases "ds_client s = C_Idle")
      case False
      then have c: "client_step ?F 5 s = Some s'" using move None by auto
      then have st: "?step s s'" by (rule disp_step.client)
      have "\<forall>e. ds_client s' \<noteq> C_Fault e" using metal.threads_safe[OF disp_reach_step[OF reach st] laws] by blast
      then show ?thesis using client_no_counters[OF pc c] nc st by (intro go) auto
    next
      case True
      show ?thesis
      proof (cases "i < length task_data")
        case False
        then have "s' = s\<lparr>ds_client := C_Busy 0 0\<rparr>" "queue \<noteq> NULL"
          using move None True env by (auto simp: client_try_def metal_env_def split: if_splits)
        then show ?thesis using nc disp_step.wait_all[OF True] by (intro go) auto
      next
        case i: True
        let ?p = "Suc (brk (ds_mem s))"
        let ?t = "\<lparr>task_function = f, task_argument = args i, task_waitable = False, task_private_data = NULL\<rparr>"
        let ?m = "(ds_mem s)\<lparr>brk := ?p, heap := (heap (ds_mem s))(?p \<mapsto> Task ?t)\<rparr>"
        have create: "dispatch_task_create f (args i) False (ds_mem s) = Inr (?p, ?m)"
          using f nc by (intro dispatch_task_create_ok) (simp_all add: no_counters_def)
        have q: "queue \<noteq> NULL" using env by (simp add: metal_env_def)
        have enter: "enter_task_add ?F h queue ?p False (s\<lparr>ds_mem := ?m\<rparr>) = Some s'"
          using move None True i create q
          by (simp add: dispatch_queue_function_add_def client_try_def task_add_prepare_def assertE_def load_task_def load_def)
        have "ds_phase s ?p = Unknown" using app not_less_eq_eq by blast
        then have "new_task (s\<lparr>ds_mem := ?m\<rparr>) False ?p" using f by (simp add: new_task_def)
        moreover have "fresh_channel tokens h (s\<lparr>ds_mem := ?m\<rparr>)"
          using nc h nt by (simp add: fresh_channel_def no_counters_def)
        ultimately have "?step (s\<lparr>ds_mem := ?m\<rparr>) s'" using enter True by (intro disp_step.task_add) simp_all
        moreover have "?step s (s\<lparr>ds_mem := ?m\<rparr>)" using True create by (rule disp_step.task_create)
        moreover have "s' = add_tasks [?p] False NULL (s\<lparr>ds_mem := ?m, ds_client := C_Send ?p C_Idle\<rparr>)"
          using enter q by (simp add: client_try_def task_add_prepare_def assertE_def load_task_def load_def)
        ultimately show ?thesis using nc by (intro go) (auto simp: add_tasks_def no_counters_def)
      qed
    qed
  qed
qed

lemma hello_run_ok:
  assumes init: "disp_init (metal_env queue st hello_threads) s0" and laws: "note_laws N tokens"
    and h: "tokens (ds_note s0) h = 0" and f: "f \<noteq> NULL"
    and run: "hello_run (metal_platform N queue st) N h queue f args at es (i, s) = Some (i', s')"
    and ok: "hello_metal_ok N tokens (hello_call f at) queue st s0 s"
  shows "hello_metal_ok N tokens (hello_call f at) queue st s0 s'"
  using run ok
proof (induction es arbitrary: i s)
  case (Cons e es)
  then obtain j t where "hello_move (metal_platform N queue st) N h queue f args at e (i, s) = Some (j, t)"
    "hello_run (metal_platform N queue st) N h queue f args at es (j, t) = Some (i', s')"
    by (auto split: option.splits)
  then show ?case using hello_move_ok[OF init laws h f Cons.prems(2)] Cons.IH by blast
qed simp

section \<open>Properties\<close>

text \<open>The five workers take a task each as soon as it is sent; then the client waits.\<close>

definition hello_schedule :: "nat option list" where
  "hello_schedule = concat (map (\<lambda>j. [None, None, Some j]) [0..<5]) @ replicate 8 None"

definition hello_start :: "(nat \<Rightarrow> nat, string) disp_sys" where
  "hello_start = idle_system (created_mem 9 0 5 5 1024 empty_mem) (\<lambda>_. 0) []"

definition hello_early :: "nat \<times> (nat \<Rightarrow> nat, string) disp_sys" where
  "hello_early = the (hello_run (metal_platform binary_notes 1 6) binary_notes 7 1 5 (\<lambda>i. 20 + i) (\<lambda>a. int a - 20)
     hello_schedule (0, hello_start))"

lemma hello_early_run:
  "hello_run (metal_platform binary_notes 1 6) binary_notes 7 1 5 (\<lambda>i. 20 + i) (\<lambda>a. int a - 20) hello_schedule
     (0, hello_start) = Some hello_early"
proof -
  have "hello_run (metal_platform binary_notes 1 6) binary_notes 7 1 5 (\<lambda>i. 20 + i) (\<lambda>a. int a - 20) hello_schedule
     (0, hello_start) \<noteq> None" by code_simp
  then show ?thesis by (auto simp: hello_early_def)
qed

text \<open>C13: hello world can end without a line on bare metal. After \<open>dispatch_queue_create\<close>, on a schedule where
  each worker takes a task as soon as it is sent and is then slow, \<open>dispatch_queue_wait\<close> finds no busy
  worker and an empty queue and returns: the program goes on to delete the dispatch queue, five tasks
  have been sent, none has been performed, and nothing has been printed.\<close>

theorem hello_world_metal_early:
  "\<exists>queue m ls st s. dispatch_queue_create_metal 9 0 5 5 1024 empty_mem = Inr (queue, m, ls) \<and> length ls = 5 \<and>
     hello_run (metal_platform binary_notes queue st) binary_notes 7 queue 5 (\<lambda>i. 20 + i) (\<lambda>a. int a - 20) hello_schedule
       (0, idle_system m (\<lambda>_. 0) []) = Some (6, s) \<and>
     (disp_step (metal_platform binary_notes queue st) binary_notes (\<lambda>n. n) (hello_call 5 (\<lambda>a. int a - 20)) queue 5 5)\<^sup>*\<^sup>*
       (idle_system m (\<lambda>_. 0) []) s \<and>
     ds_client s = C_Idle \<and> length (ds_sent s) = 5 \<and> ds_done s = [] \<and> ds_app s = []"
proof -
  let ?m = "created_mem 9 0 5 5 1024 empty_mem" and ?d = "xcore_at 0 9 5 5 1024"
  have create: "dispatch_queue_create_metal 9 0 5 5 1024 empty_mem = Inr (1, ?m, map (worker_launch ?d) [0..<5])"
    using dispatch_queue_create_ok[of 5 5 empty_mem 9 0 1024] by simp
  have "metal_env 1 6 5 ?m (\<lambda>_. 0 :: nat)"
    unfolding metal_env_def
  proof (intro conjI exI)
    show "heap ?m 1 = Some (Dispatch_Metal ?d)" "heap ?m 6 = Some (Word_Array (map Some (map (\<lambda>i. DISPATCH_WORKER_READY_STATUS) [0..<5])))"
      by (simp_all add: created_mem_def Let_def comp_def)
    show "mem_ok ?m" by (auto simp: mem_ok_def created_mem_def Let_def)
  qed (simp_all add: xcore_at_def)
  then have init: "disp_init (metal_env 1 6 hello_threads) hello_start"
    unfolding hello_start_def hello_threads_def by (rule idle_system_init[of "metal_env 1 6 5"])
  have "no_counters (ds_mem hello_start)"
    by (auto simp: no_counters_def hello_start_def created_mem_def Let_def)
  then have start: "hello_metal_ok binary_notes (\<lambda>n. n) (hello_call 5 (\<lambda>a. int a - 20)) 1 6 hello_start hello_start"
    by (simp add: hello_metal_ok_def hello_start_def idle_system_def)
  obtain s where s: "hello_early = (6, s)" "ds_client s = C_Idle" "length (ds_sent s) = 5" "ds_done s = []" "ds_app s = []"
  proof -
    have "fst hello_early = 6" "ds_client (snd hello_early) = C_Idle" "length (ds_sent (snd hello_early)) = 5"
      "ds_done (snd hello_early) = []" "ds_app (snd hello_early) = []" by code_simp+
    then show thesis using that[of "snd hello_early"] by (metis prod.collapse)
  qed
  have h: "ds_note hello_start 7 = 0" by (simp add: hello_start_def)
  have "hello_metal_ok binary_notes (\<lambda>n. n) (hello_call 5 (\<lambda>a. int a - 20)) 1 6 hello_start s"
    using hello_run_ok[OF init binary_notes_laws h _ hello_early_run[unfolded s(1)] start] by simp
  then show ?thesis
    using create s(2-5) hello_early_run[unfolded s(1)]
    unfolding hello_metal_ok_def hello_threads_def hello_start_def
    by (intro exI[of _ 1] exI[of _ ?m] exI[of _ "map (worker_launch ?d) [0..<5]"] exI[of _ 6] exI[of _ s]) simp
qed

end
