(* ===== verification/Spec2Isabelle.thy ===== *)
theory Spec2Isabelle
  imports Queue_Invariant Dispatch_Flags Dispatch_Types Dispatch_Rounds Dispatch_RTOS Matrix_Dispatch Hello_World_Metal
begin

text \<open>
  A verification of \<open>lib_dispatch\<close>, a C library that runs functions on worker threads. A client
  wraps a function in a task, adds tasks, or groups of them, to a dispatch queue, and waits for a
  task, for a group, or for everything. Workers take tasks from the dispatch queue and perform them. A
  waitable task has an event counter that its worker signals and that the wait deletes together
  with the task; a task that is not waitable is deleted by its worker. The library exists three
  times: for bare metal on xcore, for FreeRTOS, and for a host with C++ threads. Source
  paths below are relative to \<open>src/lib_dispatch/src/\<close>.

  \<^bold>\<open>How the code is modelled.\<close> Every function is a definition of the same name (with the suffix
  \<open>_metal\<close>, \<open>_rtos\<close> or \<open>_host\<close> where the implementations differ) over an explicit store. The store
  (theory \<open>Memory\<close>, record \<open>mem\<close>) maps addresses to objects, one constructor per struct; \<open>malloc\<close>
  hands out new addresses or \<open>NULL\<close> when the field \<open>oom\<close> says so, and a freed address is never used
  again, so that a dangling pointer, a double free and an access through \<open>NULL\<close> are errors. An operation
  that can fail returns \<open>error + 'a\<close> (theory \<open>Prelude\<close>): a failed \<open>dispatch_assert\<close>, a bad pointer or
  index, undefined arithmetic. \<open>size_t\<close> and \<open>int\<close> keep 32 bits. A thread is a program counter;
  each access to shared state that another thread can come between is one step, and a thread that
  has to wait has no step. Threads run interleaved in any order (\<open>thread_step\<close>, \<open>disp_step\<close>,
  \<open>spin_step\<close>, \<open>host_step\<close>), and properties speak of all reachable states.

  \<^bold>\<open>The theories, in the order of their imports.\<close>

  \<^item> \<open>Prelude\<close>: types, errors, arrays, the C loop \<open>for_range\<close>, and three interfaces as locales:
    \<open>bounded_store\<close> (a bounded list that operations append to), \<open>bounded_fifo\<close> (which also removes
    from the front) and \<open>invariant_system\<close> (a property that holds at the start and is kept by
    every step).
  \<^item> \<open>Memory\<close>: the structs of \<open>dispatch_types.h\<close>, \<open>condition_variable_metal.h\<close>, \<open>queue_metal.h\<close> and
    of the event counters as records, and the store.
  \<^item> \<open>Task\<close> (\<open>dispatch_task.c\<close>), \<open>Group\<close> (\<open>dispatch_group.c\<close>): a group in the store represents the list
    of its tasks (\<open>group_rep\<close>) and is a \<open>bounded_store\<close>.
  \<^item> \<open>Spinlock\<close> (\<open>spinlock.c\<close>, \<open>spinlock_asm.S\<close>): acquisition instruction by instruction on up to eight
    cores. Mutual exclusion needs the timing of the seven \<open>nop\<close>s (\<open>stores_landed\<close>): a store by a
    core that had seen the lock free has landed before the second load. Without it, a run with two
    owners is shown.
  \<^item> \<open>Condition_Variable\<close> (\<open>condition_variable_metal.c\<close>): the linked list of waiters; signal, broadcast
    and terminate on the list that it represents.
  \<^item> \<open>Queue_Metal\<close> (\<open>queue_metal.c\<close>): the ring buffer represents a list (\<open>queue_rep\<close>) and is a
    \<open>bounded_fifo\<close>; insertion and removal refine those of the list on every sequence of calls.
  \<^item> \<open>Queue_Threads\<close>, \<open>Queue_Invariant\<close>: any number of threads in \<open>queue_send\<close>, \<open>queue_receive\<close>,
    \<open>queue_size\<close> and \<open>queue_delete\<close>, with the mutex, the condition variable and the channels. The
    invariant gives safety, first-in first-out order, no lost wake-up, and where the threads can
    stop. Deleting a queue with a waiting thread reads a dead stack frame.
  \<^item> \<open>Event_Counter\<close> (\<open>event_counter_metal.c\<close>, \<open>event_counter_rtos.c\<close>): both interpret the contract
    \<open>countdown\<close>, by which the last signal and no other releases the waiter.
  \<^item> \<open>Dispatch_Common\<close>: what \<open>dispatch_queue_metal.c\<close> and \<open>dispatch_queue_rtos.c\<close> say in the same words:
    running a task, adding, waiting; and the calls as a whole.
  \<^item> \<open>Dispatch_Threads\<close>: the workers and the client as threads, for any \<open>platform\<close>, a record of the
    operations in which the targets differ. The queue is used through its contract \<open>fifo_step\<close>.
    Between calls the client may create tasks.
  \<^item> \<open>Dispatch_Invariant\<close>, \<open>Dispatch_Steps\<close>, \<open>Dispatch_Correct\<close>: the invariant that ties the life of
    each task (\<open>task_phase\<close>) to the queue, the workers, the event counters and the notifications;
    the locale \<open>dispatch_platform\<close>, the contract of a platform; every step keeps the invariant; the
    measure \<open>work_left\<close>.
  \<^item> \<open>Dispatch_Promises\<close>: what follows on every platform: no faults, every task once, complete and
    terminating waits, serial order. \<open>Dispatch_Calls\<close>: the interleaved steps of one thread,
    undisturbed, are the calls of \<open>Dispatch_Common\<close>. \<open>Dispatch_Effects\<close>: the state of the application
    is what the functions of the performed tasks make of it.
  \<^item> \<open>Dispatch_Queue_Metal\<close>, \<open>Dispatch_Metal\<close> (\<open>dispatch_queue_metal.c\<close>): creation, initialisation,
    deletion and \<open>busy_workers\<close> over the store; the bare-metal platform interprets \<open>dispatch_platform\<close>.
    \<open>Dispatch_Flags\<close>: from the store that creation leaves (\<open>metal_init\<close>) on, the flags say which workers
    have a task, and the polling of \<open>dispatch_queue_wait\<close> ends once the workers rest. \<open>Dispatch_Types\<close>: every
    pointer that a thread, the queue or a task holds points to a block of its type.
    \<open>Dispatch_Rounds\<close>: adding, the turns of workers and waiting, one after the other: what a whole round
    leaves in the store and does to the application, said without the event counter and the flags.
  \<^item> \<open>Dispatch_Queue_RTOS\<close>, \<open>Dispatch_RTOS\<close> (\<open>dispatch_queue_rtos.c\<close>): the same for FreeRTOS, with
    the ready bits in an event group. Creation succeeds for 1 to 24 workers: an event group has 24 user bits,
    and setting a higher one fails an assertion of the kernel; otherwise the shifts in
    \<open>dispatch_queue_init\<close> are undefined. \<open>dispatch_queue_wait\<close> spins until the queue is empty and then waits
    for the ready bits; it ends within two steps once the workers have come to rest.
  \<^item> \<open>Dispatch_Queue_Host\<close> (\<open>dispatch_queue_host.cc\<close>): the workers and one client over a mutex, a
    condition variable with spurious wake-ups, a deque, and the classes \<open>EventCounter\<close> and
    \<open>BinarySemaphore\<close>, including \<open>dispatch_queue_delete\<close>.
  \<^item> \<open>Dispatch_Host_Refines\<close>: every run of the host is a run of \<open>disp_step\<close> over an ideal platform,
    so that the promises of \<open>Dispatch_Promises\<close> carry over. The deque has no bound; a finite run needs
    an abstract queue at least as long as its longest deque. \<open>Dispatch_Host\<close>: the invariant of the
    mutex, the semaphores and the condition variables, and the promises of the host.
    \<open>Dispatch_Host_Returns\<close>: its calls return, by the measure \<open>host_work_left\<close>. A run that begins while the
    dispatch queue is being deleted ends with every worker gone and may leave tasks unperformed.
  \<^item> \<open>Matrix_Multiply\<close>, \<open>Matrix_Dispatch\<close> (\<open>src/examples/app_matrix_multiply/src/main.c\<close>): the example,
    statement by statement, and its four tasks on the bare-metal dispatch queue: when the wait
    returns, the output is the product.
  \<^item> \<open>Hello_World\<close>, \<open>Hello_World_Metal\<close> (\<open>src/examples/app_hello_world/src/main.c\<close>, and
    \<open>dispatch_queue_function_add\<close> of \<open>api/dispatch_queue.h\<close>): the whole program on the host, which prints
    its five lines and ends; and a run on bare metal in which \<open>dispatch_queue_wait\<close> returns before a
    line is printed.

  \<^bold>\<open>What is assumed of code that is not part of the repository.\<close> Channels, hardware locks, semaphores and
  event groups are records of operations over a state of an unknown type, and the laws a theorem
  relies on are named in it: \<open>chan_laws\<close> (bytes between two connected channel ends arrive once
  and in order), \<open>lock_laws\<close> (a lock has one owner), \<open>note_laws\<close> (a notification stays until it is
  taken, and taking waits for one), \<open>event_laws\<close> and \<open>kernel_laws\<close> (the 24 user bits of an event
  group are set and cleared, setting or clearing others fails the kernel's assertion; semaphores and event groups do not touch each other). Each has an
  instance, used by the witnesses. The C++ mutex and condition variable are modelled directly.
  The function that a task runs is an argument \<open>call\<close>; it does not itself use the dispatch queue.

  \<^bold>\<open>Termination.\<close> The only loops that may not end are those that wait: they are steps of a
  thread, and \<open>work_left\<close> and \<open>host_work_left\<close> bound the steps that the threads take by themselves
  before the client makes another call; the polling of the bare-metal \<open>dispatch_queue_wait\<close> ends within
  two rounds, \<open>2 * k + 4\<close> steps for \<open>k\<close> workers, once these rest. No definition has fuel: loops over arrays are \<open>for_range\<close>,
  which has a measure.

  \<^bold>\<open>Not modelled.\<close>
  \<^item> The code under \<open>use_callers_thread\<close>, which no configuration defines.
  \<^item> \<open>dispatch_printf\<close>, the timers of the matrix example and the table it prints.
  \<^item> Several clients of one dispatch queue: a bare-metal dispatch queue has one channel end for its client; on
    the host the client is one thread, too.
  \<^item> Deletion of an embedded dispatch queue while its workers run: \<open>dispatch_queue_delete\<close> is modelled
    over the store, and termination of a waiting thread in \<open>Queue_Threads\<close>; on the host, deletion
    is part of the threads.
  \<^item> The release of handles of hardware and kernel: \<open>dispatch_mutex_delete\<close> in \<open>queue_delete\<close>, \<open>chanend_free\<close> in
    \<open>dispatch_queue_delete\<close>, \<open>s_chan_free\<close> and \<open>vSemaphoreDelete\<close> in \<open>event_counter_delete\<close>. What these
    functions do to the memory is modelled.
  \<^item> Wrap-around of the number of busy workers and of its sum with the number of waiting tasks in
    \<open>dispatch_queue_wait\<close>: both are natural numbers, bounded by the workers and the length of the queue.
  \<^item> The time between the launches of the workers of the host: all start at once. The number of \<open>nop\<close>s of the
    spinlock is not what makes it safe in the model; the timing they give is the hypothesis \<open>stores_landed\<close>.
  \<^item> A client that breaks the interface, and running out of memory while threads run: \<open>disp_step\<close> has the
    calls of a client that adds only its own live tasks, each once, waits only for waitable tasks that it
    has added, and finds memory for the event counter. Creation models running out of memory.
  \<^item> Reuse of a freed address, and a task function that adds tasks or waits.
  \<^item> The configuration headers, which name the platform's allocation, locks and assertions; the
    constants of the FreeRTOS kernel; the Unity tests.
\<close>

end
